(* ===== verification/Prelude.thy ===== *)
theory Prelude
  imports Main "HOL-Library.Word" "HOL-Library.Multiset"
begin

text \<open>
  Shared vocabulary of the development: the machine integer types of
  \<open>src/source/base/types.h\<close>, the errors by which a C++ operation can fail to return
  normally, the sequencing of fallible operations, and generic facts on lists, options
  and words that the component theories use.
\<close>

unbundle bit_operations_syntax

section \<open>Machine integers\<close>

type_synonym u8 = "8 word"
type_synonym u16 = "16 word"
type_synonym u32 = "32 word"
type_synonym u64 = "64 word"
type_synonym size_t = "64 word"
type_synonym addr = u64

named_theorems table_simps \<open>unfolding rules of the translation table\<close>
named_theorems heap_simps \<open>unfolding rules of the slab allocator and the pools\<close>
named_theorems ir_simps \<open>unfolding rules of the intermediate representation\<close>
named_theorems hir_simps \<open>unfolding rules of the function builder\<close>

section \<open>Failure\<close>

text \<open>
  The ways a modelled operation can fail to produce its result: a failed \<open>ASSERT\<close>
  (\<open>log::AssertFailed\<close> throws \<open>std::logic_error\<close>), a call of \<open>abort()\<close>, a
  \<open>std::bad_alloc\<close>, an access outside an array or vector, a null or dangling pointer
  dereference, a second acquisition of a lock that the thread already holds, and a loop
  that never ends.
\<close>

datatype error =
    AssertFailed
  | Abort
  | BadAlloc
  | OutOfBounds
  | NullDeref
  | Deadlock
  | Diverges

type_synonym 'a result = "error + 'a"

definition res_bind :: "'a result \<Rightarrow> ('a \<Rightarrow> 'b result) \<Rightarrow> 'b result" where
  "res_bind m f = (case m of Inl e \<Rightarrow> Inl e | Inr x \<Rightarrow> f x)"

definition ASSERT :: "bool \<Rightarrow> unit result" where
  "ASSERT c = (if c then Inr () else Inl AssertFailed)"

lemma res_bind_simps [simp]:
  "res_bind (Inl e) f = Inl e"
  "res_bind (Inr x) f = f x"
  by (simp_all add: res_bind_def)

lemma res_bind_Inr_iff:
  "res_bind m f = Inr y \<longleftrightarrow> (\<exists>x. m = Inr x \<and> f x = Inr y)"
  by (cases m) auto

lemma res_bind_InrE [elim]:
  assumes "res_bind m f = Inr y"
  obtains x where "m = Inr x" and "f x = Inr y"
  using assms by (cases m) auto

lemma res_bind_assoc: "res_bind (res_bind m f) g = res_bind m (\<lambda>x. res_bind (f x) g)"
  by (cases m) auto

lemma ASSERT_simps [simp]:
  "ASSERT True = Inr ()"
  "ASSERT False = Inl AssertFailed"
  by (simp_all add: ASSERT_def)

lemma ASSERT_Inr_iff [simp]: "ASSERT c = Inr u \<longleftrightarrow> c"
  by (simp add: ASSERT_def)

text \<open>A read of a vector or array that is checked against its length.\<close>

definition vec_at :: "'a list \<Rightarrow> nat \<Rightarrow> 'a result" where
  "vec_at xs i = (if i < length xs then Inr (xs ! i) else Inl OutOfBounds)"

definition vec_set :: "'a list \<Rightarrow> nat \<Rightarrow> 'a \<Rightarrow> 'a list result" where
  "vec_set xs i x = (if i < length xs then Inr (xs[i := x]) else Inl OutOfBounds)"

lemma vec_at_Inr_iff [simp]: "vec_at xs i = Inr x \<longleftrightarrow> i < length xs \<and> xs ! i = x"
  by (auto simp: vec_at_def)

lemma vec_at_in [simp]: "i < length xs \<Longrightarrow> vec_at xs i = Inr (xs ! i)"
  by (simp add: vec_at_def)

lemma vec_set_Inr_iff [simp]: "vec_set xs i x = Inr ys \<longleftrightarrow> i < length xs \<and> ys = xs[i := x]"
  by (auto simp: vec_set_def)

lemma vec_set_in [simp]: "i < length xs \<Longrightarrow> vec_set xs i x = Inr (xs[i := x])"
  by (simp add: vec_set_def)

lemma nth_append_two [simp]: "(xs @ [a, b]) ! Suc (length xs) = b"
  using nth_append_length [of "xs @ [a]" b "[]"] by simp

lemma list_update_append_two [simp]: "(xs @ [a, b])[Suc (length xs) := c] = xs @ [a, c]"
  using list_update_length [of "xs @ [a]" b "[]" c] by simp

lemma option_eq_by_Some: "(\<And>v. x = Some v \<longleftrightarrow> y = Some v) \<Longrightarrow> x = y"
  by (cases x; cases y) blast+

section \<open>Words\<close>

lemma unat_and_mask: "unat (x AND mask n) = unat (x :: 'a::len word) mod 2 ^ n"
proof -
  have "unat (x AND mask n) = take_bit n (unat x)"
    by (simp only: take_bit_eq_mask [symmetric] unsigned_take_bit_eq)
  then show ?thesis by (simp add: take_bit_eq_mod)
qed

lemma unat_and_mask_less: "unat (x AND mask n) < 2 ^ n" for x :: "'a::len word"
  by (simp add: unat_and_mask)

lemma unat_of_nat_small: "n < 2 ^ LENGTH('a) \<Longrightarrow> unat (of_nat n :: 'a::len word) = n"
  by (simp add: unat_of_nat)

lemma of_nat_unat_id: "(of_nat (unat w) :: 'a::len word) = w"
  by (rule unsigned_word_eqI) (simp add: unat_of_nat)

lemma of_nat_eq_small:
  "m < 2 ^ LENGTH('a) \<Longrightarrow> n < 2 ^ LENGTH('a) \<Longrightarrow> (of_nat m :: 'a::len word) = of_nat n \<longleftrightarrow> m = n"
  by (metis unat_of_nat_small)

lemma unat_ucast_small:
  "unat x < 2 ^ LENGTH('b) \<Longrightarrow> unat (ucast x :: 'b::len word) = unat (x :: 'a::len word)"
  by (simp add: unsigned_ucast_eq take_bit_nat_eq_self)

lemma unat_power_two_small:
  assumes "n < LENGTH('a)"
  shows "unat (2 ^ n :: 'a::len word) = 2 ^ n"
proof -
  have "unat (of_nat (2 ^ n) :: 'a word) = 2 ^ n"
    using assms by (intro unat_of_nat_small) simp
  then show ?thesis by simp
qed

end
