(* ===== verification/Translate_Table.thy ===== *)
theory Translate_Table
  imports Prelude
begin

text \<open>
  The translation table of \<open>src/source/runtime/backend/translate_table.h\<close>: an open
  addressing hash table from guest locations to host code, guarded by a shared mutex.
  The record \<open>translate_table\<close> is the class, one definition per member function. Each
  probing loop is a function on the array of entries that also says where it aborts or
  never ends. The lock is a flag, so that a second acquisition by the same thread shows
  as \<open>Deadlock\<close>.
\<close>

section \<open>State\<close>

record translate_entry =
  te_key :: u64
  te_value :: u64

record translate_table =
  hash_bits :: nat
  tsize :: size_t
  entries :: "translate_entry list"
  tlock :: bool

definition zero_entry :: translate_entry where
  "zero_entry = \<lparr>te_key = 0, te_value = 0\<rparr>"

definition resize_entries :: "nat \<Rightarrow> translate_entry list \<Rightarrow> translate_entry list" where
  "resize_entries n es = take n es @ replicate (n - length es) zero_entry"

definition Reset :: "translate_table \<Rightarrow> translate_table" where
  "Reset t =
     (let es = resize_entries (unat (tsize t + 10)) (entries t);
          last_i = length es - 1
      in t\<lparr>entries := es[last_i := (es ! last_i)\<lparr>te_key := - 1\<rparr>]\<rparr>)"

text \<open>
  The constructor: \<open>size = 1 << hash_bits\<close> is an \<open>int\<close> shift that is then
  sign-extended to \<open>size_t\<close>.
\<close>

definition TranslateTable :: "nat \<Rightarrow> translate_table" where
  "TranslateTable bits =
     Reset \<lparr>hash_bits = bits, tsize = scast (push_bit bits (1 :: u32)),
            entries = [], tlock = False\<rparr>"

definition Clear :: "translate_table \<Rightarrow> translate_table" where
  "Clear t = t\<lparr>entries := replicate (length (entries t)) zero_entry\<rparr>"

definition Hash :: "translate_table \<Rightarrow> size_t \<Rightarrow> u32" where
  "Hash t key =
     (let merged = drop_bit 2 key
      in ucast ((drop_bit (hash_bits t) merged XOR merged) AND (tsize t - 1)))"

section \<open>Operations\<close>

text \<open>
  The probing loops take the table size as a number. The index is a \<open>u32\<close> that never
  passes the table size, so that it does not wrap.
\<close>

function put_loop ::
  "nat \<Rightarrow> u64 \<Rightarrow> u64 \<Rightarrow> translate_entry list \<Rightarrow> nat \<Rightarrow> translate_entry list result" where
  "put_loop sz key val es index =
     (if length es \<le> index then Inl OutOfBounds
      else if te_key (es ! index) = 0 \<or> te_key (es ! index) = key
      then Inr (es[index := \<lparr>te_key = key, te_value = val\<rparr>])
      else if sz - 1 \<le> index + 1 then Inl Abort
      else put_loop sz key val es (index + 1))"
  by pat_completeness auto
termination
  by (relation "measure (\<lambda>(sz, key, val, es, index). length es - index)") auto

definition Put :: "translate_table \<Rightarrow> size_t \<Rightarrow> size_t \<Rightarrow> (bool \<times> translate_table) result" where
  "Put t key val =
     (if tlock t then Inl Deadlock
      else res_bind (put_loop (unat (tsize t)) key val (entries t) (unat (Hash t key)))
             (\<lambda>es. Inr (True, t\<lparr>entries := es\<rparr>)))"

function get_or_put_loop ::
  "nat \<Rightarrow> u64 \<Rightarrow> u64 \<Rightarrow> translate_entry list \<Rightarrow> nat \<Rightarrow> (u32 \<times> translate_entry list) result" where
  "get_or_put_loop sz key val es index =
     (if length es \<le> index then Inl OutOfBounds
      else if te_key (es ! index) = 0 \<or> te_key (es ! index) = key
      then (if te_key (es ! index) = key \<and> te_value (es ! index) \<noteq> 0
            then Inr (2 * of_nat index + 1, es)
            else Inr (2 * of_nat index + 1, es[index := \<lparr>te_key = key, te_value = val\<rparr>]))
      else if sz - 1 \<le> index + 1 then Inl Abort
      else get_or_put_loop sz key val es (index + 1))"
  by pat_completeness auto
termination
  by (relation "measure (\<lambda>(sz, key, val, es, index). length es - index)") auto

definition GetOrPut :: "translate_table \<Rightarrow> size_t \<Rightarrow> size_t \<Rightarrow> (u32 \<times> translate_table) result" where
  "GetOrPut t key val =
     (if tlock t then Inl Deadlock
      else res_bind (get_or_put_loop (unat (tsize t)) key val (entries t) (unat (Hash t key)))
             (\<lambda>(r, es). Inr (r, t\<lparr>entries := es\<rparr>)))"

text \<open>
  \<open>find_loop\<close> is the loop that \<open>Lookup\<close> and \<open>Replace\<close> share: the slot of the key,
  or \<open>None\<close> when an empty slot or the end of the probed range comes first.
\<close>

function find_loop :: "nat \<Rightarrow> u64 \<Rightarrow> translate_entry list \<Rightarrow> nat \<Rightarrow> nat option result" where
  "find_loop sz key es index =
     (if length es \<le> index then Inl OutOfBounds
      else if te_key (es ! index) = key then Inr (Some index)
      else if index + 1 < sz - 1 \<and> te_key (es ! index) \<noteq> 0
      then find_loop sz key es (index + 1)
      else Inr None)"
  by pat_completeness auto
termination
  by (relation "measure (\<lambda>(sz, key, es, index). length es - index)") auto

definition Lookup :: "translate_table \<Rightarrow> size_t \<Rightarrow> size_t result" where
  "Lookup t key =
     (if tlock t then Inl Deadlock
      else res_bind (find_loop (unat (tsize t)) key (entries t) (unat (Hash t key)))
             (\<lambda>r. case r of None \<Rightarrow> Inr 0 | Some i \<Rightarrow> Inr (te_value (entries t ! i))))"

text \<open>\<open>Replace\<close> calls \<open>Put\<close> inside the scope of its own \<open>unique_lock\<close>.\<close>

definition Replace :: "translate_table \<Rightarrow> size_t \<Rightarrow> size_t \<Rightarrow> translate_table result" where
  "Replace t key val =
     (if tlock t then Inl Deadlock
      else let held = t\<lparr>tlock := True\<rparr>
           in res_bind (find_loop (unat (tsize held)) key (entries held) (unat (Hash held key)))
                (\<lambda>r. case r of
                       Some i \<Rightarrow>
                         Inr (t\<lparr>entries := (entries t)[i := (entries t ! i)\<lparr>te_value := val\<rparr>]\<rparr>)
                     | None \<Rightarrow> res_bind (Put held key val) (\<lambda>(_, t'). Inr (t'\<lparr>tlock := False\<rparr>))))"

text \<open>
  \<open>Remove\<close> steps with \<open>(index + 1) & size\<close> and stops at \<open>end = index - 1\<close>; both are
  \<open>u32\<close>, and the mask is the 64-bit \<open>size\<close>. The loop need not end: one unit of fuel is
  one iteration, and \<open>None\<close> means that the fuel ran out.
\<close>

fun remove_loop ::
  "nat \<Rightarrow> size_t \<Rightarrow> u64 \<Rightarrow> u32 \<Rightarrow> translate_entry list \<Rightarrow> u32 \<Rightarrow>
     translate_entry list result option" where
  "remove_loop 0 sz64 key stop es index = None"
| "remove_loop (Suc fuel) sz64 key stop es index =
     (if length es \<le> unat index then Some (Inl OutOfBounds)
      else let c_key = te_key (es ! unat index)
           in if c_key = key
              then Some (Inr (es[unat index := (es ! unat index)\<lparr>te_key := 0\<rparr>]))
              else let index' = ucast ((ucast (index + 1) :: u64) AND sz64)
                   in if index' \<noteq> stop \<and> c_key \<noteq> 0
                      then remove_loop fuel sz64 key stop es index'
                      else Some (Inr es))"

definition Remove :: "nat \<Rightarrow> translate_table \<Rightarrow> u64 \<Rightarrow> translate_table result option" where
  "Remove fuel t key =
     (if tlock t then Some (Inl Deadlock)
      else map_option (\<lambda>r. res_bind r (\<lambda>es. Inr (t\<lparr>entries := es\<rparr>)))
             (remove_loop fuel (tsize t) key (Hash t key - 1) (entries t) (Hash t key)))"

declare put_loop.simps [simp del] get_or_put_loop.simps [simp del] find_loop.simps [simp del]

section \<open>Well-formed tables\<close>

text \<open>
  The part of the array a probe from slot \<open>h\<close> may visit: up to but not including the
  last slot of the table, or the last slot alone when the key hashes there.
\<close>

definition in_range :: "nat \<Rightarrow> nat \<Rightarrow> nat \<Rightarrow> bool" where
  "in_range sz h i \<longleftrightarrow> h \<le> i \<and> i < sz \<and> (i = sz - 1 \<longrightarrow> h = i)"

text \<open>
  Every stored key lies in the probe range of its hash, and no slot before it on that
  range is empty or holds the same key.
\<close>

definition chains :: "(u64 \<Rightarrow> nat) \<Rightarrow> nat \<Rightarrow> translate_entry list \<Rightarrow> bool" where
  "chains h sz es \<longleftrightarrow>
     (\<forall>i < sz. te_key (es ! i) \<noteq> 0 \<longrightarrow>
        in_range sz (h (te_key (es ! i))) i \<and>
        (\<forall>j. h (te_key (es ! i)) \<le> j \<and> j < i \<longrightarrow>
           te_key (es ! j) \<noteq> 0 \<and> te_key (es ! j) \<noteq> te_key (es ! i)))"

definition home :: "translate_table \<Rightarrow> u64 \<Rightarrow> nat" where
  "home t k = unat (Hash t k)"

definition table_inv :: "translate_table \<Rightarrow> bool" where
  "table_inv t \<longleftrightarrow>
     hash_bits t < 31 \<and> unat (tsize t) = 2 ^ hash_bits t \<and> \<not> tlock t \<and>
     length (entries t) = unat (tsize t) + 10 \<and>
     chains (home t) (unat (tsize t)) (entries t)"

text \<open>The abstract content: the map from keys to values that the array stands for.\<close>

definition entry_map :: "nat \<Rightarrow> translate_entry list \<Rightarrow> u64 \<Rightarrow> u64 option" where
  "entry_map sz es =
     map_of (map (\<lambda>e. (te_key e, te_value e)) (filter (\<lambda>e. te_key e \<noteq> 0) (take sz es)))"

definition table_map :: "translate_table \<Rightarrow> u64 \<Rightarrow> u64 option" where
  "table_map t = entry_map (unat (tsize t)) (entries t)"

lemma in_range_less: "in_range sz h i \<Longrightarrow> i < sz"
  by (simp add: in_range_def)

lemma in_range_below: "in_range sz h i \<Longrightarrow> h \<le> j \<Longrightarrow> j < i \<Longrightarrow> in_range sz h j"
  by (auto simp: in_range_def)

lemma chainsD:
  assumes "chains h sz es" and "i < sz" and "te_key (es ! i) \<noteq> 0"
  shows "in_range sz (h (te_key (es ! i))) i"
    and "\<And>j. h (te_key (es ! i)) \<le> j \<Longrightarrow> j < i \<Longrightarrow>
           te_key (es ! j) \<noteq> 0 \<and> te_key (es ! j) \<noteq> te_key (es ! i)"
  using assms unfolding chains_def by blast+

lemma chains_unique:
  assumes "chains h sz es" and "i < sz" "j < sz"
    and "te_key (es ! i) = k" "te_key (es ! j) = k" "k \<noteq> 0"
  shows "i = j"
proof (rule ccontr)
  assume "i \<noteq> j"
  then consider "i < j" | "j < i" by linarith
  then show False
  proof cases
    case 1
    from chainsD [OF assms(1,2)] assms have "h k \<le> i" by (auto simp: in_range_def)
    with chainsD(2) [OF assms(1,3)] 1 assms show False by auto
  next
    case 2
    from chainsD [OF assms(1,3)] assms have "h k \<le> j" by (auto simp: in_range_def)
    with chainsD(2) [OF assms(1,2)] 2 assms show False by auto
  qed
qed

lemma entry_map_Some_iff:
  assumes "chains h sz es" and "sz \<le> length es"
  shows "entry_map sz es k = Some v \<longleftrightarrow>
           k \<noteq> 0 \<and> (\<exists>i < sz. te_key (es ! i) = k \<and> te_value (es ! i) = v)"
proof -
  let ?ks = "filter (\<lambda>e. te_key e \<noteq> 0) (take sz es)"
  have member: "(k, v) \<in> set (map (\<lambda>e. (te_key e, te_value e)) ?ks) \<longleftrightarrow>
      k \<noteq> 0 \<and> (\<exists>i < sz. te_key (es ! i) = k \<and> te_value (es ! i) = v)" for k v
    using assms(2) by (fastforce simp: in_set_conv_nth image_iff)
  show ?thesis
  proof
    assume "entry_map sz es k = Some v"
    then have "(k, v) \<in> set (map (\<lambda>e. (te_key e, te_value e)) ?ks)"
      unfolding entry_map_def by (rule map_of_SomeD)
    then show "k \<noteq> 0 \<and> (\<exists>i < sz. te_key (es ! i) = k \<and> te_value (es ! i) = v)"
      unfolding member .
  next
    assume rhs: "k \<noteq> 0 \<and> (\<exists>i < sz. te_key (es ! i) = k \<and> te_value (es ! i) = v)"
    then have in_list: "(k, v) \<in> set (map (\<lambda>e. (te_key e, te_value e)) ?ks)"
      unfolding member .
    then obtain w where w: "entry_map sz es k = Some w"
      using weak_map_of_SomeI [OF in_list] unfolding entry_map_def by blast
    then have "(k, w) \<in> set (map (\<lambda>e. (te_key e, te_value e)) ?ks)"
      unfolding entry_map_def by (rule map_of_SomeD)
    then obtain j where "j < sz" "te_key (es ! j) = k" "te_value (es ! j) = w"
      unfolding member by blast
    with rhs chains_unique [OF assms(1)] have "w = v" by blast
    with w show "entry_map sz es k = Some v" by simp
  qed
qed

lemma entry_map_None_iff:
  assumes "chains h sz es" and "sz \<le> length es"
  shows "entry_map sz es k = None \<longleftrightarrow> k = 0 \<or> (\<forall>i < sz. te_key (es ! i) \<noteq> k)"
  using entry_map_Some_iff [OF assms, of k] by (cases "entry_map sz es k") auto

section \<open>The probing loops\<close>

lemma find_loop_hit:
  assumes "i \<le> j" and "in_range sz h j" and "h \<le> i" and "sz \<le> length es"
    and "\<And>m. i \<le> m \<Longrightarrow> m < j \<Longrightarrow> te_key (es ! m) \<noteq> 0 \<and> te_key (es ! m) \<noteq> key"
    and "te_key (es ! j) = key"
  shows "find_loop sz key es i = Inr (Some j)"
  using assms
proof (induction "j - i" arbitrary: i)
  case 0
  then show ?case by (simp add: find_loop.simps [of sz key es i] in_range_def)
next
  case (Suc n)
  then have "i < j" by simp
  with Suc.prems have step: "find_loop sz key es i = find_loop sz key es (i + 1)"
    by (auto simp: find_loop.simps [of sz key es i] in_range_def)
  from Suc.prems Suc.hyps(2) \<open>i < j\<close> have "find_loop sz key es (i + 1) = Inr (Some j)"
    by (intro Suc.hyps(1)) auto
  with step show ?case by simp
qed

lemma find_loop_miss:
  assumes "i < sz" and "sz \<le> length es" and "\<forall>j < sz. te_key (es ! j) \<noteq> key"
  shows "find_loop sz key es i = Inr None"
  using assms
proof (induction sz key es i rule: find_loop.induct)
  case (1 sz key es i)
  then show ?case by (auto simp: find_loop.simps [of sz key es i])
qed

lemma find_loop_correct:
  assumes "chains h sz es" and "sz \<le> length es" and "h key < sz" and "key \<noteq> 0"
  shows "(\<exists>j < sz. find_loop sz key es (h key) = Inr (Some j) \<and> te_key (es ! j) = key) \<or>
         find_loop sz key es (h key) = Inr None \<and> (\<forall>j < sz. te_key (es ! j) \<noteq> key)"
proof (cases "\<exists>j < sz. te_key (es ! j) = key")
  case True
  then obtain j where j: "j < sz" "te_key (es ! j) = key" by blast
  from chainsD [OF assms(1) j(1)] j(2) assms(4)
  have "in_range sz (h key) j"
    and "\<And>m. h key \<le> m \<Longrightarrow> m < j \<Longrightarrow> te_key (es ! m) \<noteq> 0 \<and> te_key (es ! m) \<noteq> key"
    by auto
  then have "find_loop sz key es (h key) = Inr (Some j)"
    using assms(2) j(2) by (intro find_loop_hit [where h = "h key"]) (auto simp: in_range_def)
  with j show ?thesis by blast
next
  case False
  then show ?thesis using find_loop_miss assms by auto
qed

text \<open>A slot that a store of \<open>key\<close> may use.\<close>

definition usable :: "u64 \<Rightarrow> translate_entry list \<Rightarrow> nat \<Rightarrow> bool" where
  "usable key es i \<longleftrightarrow> te_key (es ! i) = 0 \<or> te_key (es ! i) = key"

definition first_usable :: "nat \<Rightarrow> u64 \<Rightarrow> translate_entry list \<Rightarrow> nat \<Rightarrow> nat \<Rightarrow> bool" where
  "first_usable sz key es h j \<longleftrightarrow>
     in_range sz h j \<and> usable key es j \<and> (\<forall>m. h \<le> m \<and> m < j \<longrightarrow> \<not> usable key es m)"

lemma first_usable_cases:
  obtains j where "first_usable sz key es h j"
  | "\<forall>j. in_range sz h j \<longrightarrow> \<not> usable key es j"
proof (cases "\<exists>j. in_range sz h j \<and> usable key es j")
  case True
  define j where "j = (LEAST j. in_range sz h j \<and> usable key es j)"
  from LeastI_ex [OF True] have j: "in_range sz h j" "usable key es j"
    by (auto simp: j_def)
  have "\<not> usable key es m" if "h \<le> m" "m < j" for m
    using not_less_Least [of m "\<lambda>j. in_range sz h j \<and> usable key es j"] that
      in_range_below [OF j(1)] by (auto simp: j_def)
  with j that(1) show ?thesis by (auto simp: first_usable_def)
next
  case False
  with that(2) show ?thesis by blast
qed

text \<open>
  Both stores probe for their slot in the same way: \<open>slot_loop\<close> is that search, and each
  loop is the search followed by its write.
\<close>

function slot_loop :: "nat \<Rightarrow> u64 \<Rightarrow> translate_entry list \<Rightarrow> nat \<Rightarrow> nat result" where
  "slot_loop sz key es i =
     (if length es \<le> i then Inl OutOfBounds
      else if usable key es i then Inr i
      else if sz - 1 \<le> i + 1 then Inl Abort
      else slot_loop sz key es (i + 1))"
  by pat_completeness auto
termination
  by (relation "measure (\<lambda>(sz, key, es, i). length es - i)") auto

declare slot_loop.simps [simp del]

lemma put_loop_slot:
  "put_loop sz key val es i =
     res_bind (slot_loop sz key es i) (\<lambda>j. Inr (es[j := \<lparr>te_key = key, te_value = val\<rparr>]))"
proof (induction sz key val es i rule: put_loop.induct)
  case (1 sz key val es i)
  then show ?case
    by (simp add: put_loop.simps [of sz key val es i] slot_loop.simps [of sz key es i] usable_def)
qed

lemma get_or_put_loop_slot:
  "get_or_put_loop sz key val es i =
     res_bind (slot_loop sz key es i)
       (\<lambda>j. Inr (2 * of_nat j + 1,
               if te_key (es ! j) = key \<and> te_value (es ! j) \<noteq> 0 then es
               else es[j := \<lparr>te_key = key, te_value = val\<rparr>]))"
proof (induction sz key val es i rule: get_or_put_loop.induct)
  case (1 sz key val es i)
  show ?case
  proof (cases "usable key es i")
    case True
    then show ?thesis
      by (auto simp: get_or_put_loop.simps [of sz key val es i] slot_loop.simps [of sz key es i]
          usable_def)
  next
    case False
    with 1 show ?thesis
      by (simp add: get_or_put_loop.simps [of sz key val es i] slot_loop.simps [of sz key es i]
          usable_def)
  qed
qed

lemma slot_loop_hit:
  assumes "i \<le> j" and "h \<le> i" and "first_usable sz key es h j" and "sz \<le> length es"
  shows "slot_loop sz key es i = Inr j"
  using assms
proof (induction "j - i" arbitrary: i)
  case 0
  then show ?case
    by (simp add: slot_loop.simps [of sz key es i] first_usable_def in_range_def)
next
  case (Suc n)
  then have "i < j" by simp
  with Suc.prems have "\<not> usable key es i" "i + 1 < sz - 1 \<or> j = i + 1" "j < sz" "j \<noteq> sz - 1"
    by (auto simp: first_usable_def in_range_def)
  with Suc.prems \<open>i < j\<close> have "slot_loop sz key es i = slot_loop sz key es (i + 1)"
    by (auto simp: slot_loop.simps [of sz key es i])
  also have "\<dots> = Inr j"
    using Suc.prems Suc.hyps(2) \<open>i < j\<close> by (intro Suc.hyps(1)) auto
  finally show ?case .
qed

lemma slot_loop_full:
  assumes "\<forall>j. in_range sz h j \<longrightarrow> \<not> usable key es j" and "in_range sz h i" and "sz \<le> length es"
  shows "slot_loop sz key es i = Inl Abort"
  using assms
proof (induction sz key es i rule: slot_loop.induct)
  case (1 sz key es i)
  then have u: "\<not> usable key es i" "i < length es" by (auto simp: in_range_def)
  show ?case
  proof (cases "sz - 1 \<le> i + 1")
    case True
    with u show ?thesis by (simp add: slot_loop.simps [of sz key es i])
  next
    case False
    with "1.prems" have "in_range sz h (i + 1)" by (auto simp: in_range_def)
    with "1.IH" "1.prems" False u show ?thesis
      by (simp add: slot_loop.simps [of sz key es i])
  qed
qed

section \<open>Storing keeps the invariant and updates the map\<close>

lemma chains_store:
  assumes "chains h sz es" and "first_usable sz key es (h key) j" and "key \<noteq> 0"
    and "sz \<le> length es"
  shows "chains h sz (es[j := \<lparr>te_key = key, te_value = val\<rparr>])" (is "chains h sz ?es'")
proof -
  from assms(2) have j: "in_range sz (h key) j" "usable key es j" "j < sz"
    and before: "\<And>m. h key \<le> m \<Longrightarrow> m < j \<Longrightarrow> te_key (es ! m) \<noteq> 0 \<and> te_key (es ! m) \<noteq> key"
    by (auto simp: first_usable_def usable_def in_range_def)
  have key_at: "te_key (?es' ! m) = (if m = j then key else te_key (es ! m))" if "m < sz" for m
    using that assms(4) by simp
  have only: "te_key (es ! i) \<noteq> key" if "i < sz" "i \<noteq> j" for i
  proof
    assume i: "te_key (es ! i) = key"
    note ch = chainsD [OF assms(1) \<open>i < sz\<close>, unfolded i, OF assms(3)]
    show False
    proof (cases "i < j")
      case True
      with ch(1) before [of i] i show False by (auto simp: in_range_def)
    next
      case False
      with that(2) have "j < i" by simp
      with ch(2) [of j] j show False by (auto simp: in_range_def usable_def)
    qed
  qed
  show ?thesis
    unfolding chains_def
  proof (intro allI impI)
    fix i assume i: "i < sz" "te_key (?es' ! i) \<noteq> 0"
    show "in_range sz (h (te_key (?es' ! i))) i \<and>
        (\<forall>m. h (te_key (?es' ! i)) \<le> m \<and> m < i \<longrightarrow>
           te_key (?es' ! m) \<noteq> 0 \<and> te_key (?es' ! m) \<noteq> te_key (?es' ! i))"
    proof (cases "i = j")
      case True
      with i j before show ?thesis by (auto simp: key_at)
    next
      case False
      with i have old: "te_key (es ! i) \<noteq> 0" by (simp add: key_at)
      note ch = chainsD [OF assms(1) i(1) old]
      with False i only [of i] assms(3) show ?thesis by (auto simp: key_at)
    qed
  qed
qed

lemma entry_map_store:
  assumes "chains h sz es" and "first_usable sz key es (h key) j" and "key \<noteq> 0"
    and "sz \<le> length es"
  shows "entry_map sz (es[j := \<lparr>te_key = key, te_value = val\<rparr>]) = (entry_map sz es)(key \<mapsto> val)"
proof
  fix k
  let ?es' = "es[j := \<lparr>te_key = key, te_value = val\<rparr>]"
  have ch: "chains h sz ?es'" by (rule chains_store [OF assms])
  have len: "sz \<le> length ?es'" using assms(4) by simp
  from assms(2) have j: "j < sz" "usable key es j" by (auto simp: first_usable_def in_range_def)
  with assms(4) have j': "j < length es" by simp
  have new: "entry_map sz ?es' key = Some val"
    using j j' assms(3) by (auto simp: entry_map_Some_iff [OF ch len])
  have other: "entry_map sz ?es' k = Some v \<longleftrightarrow> entry_map sz es k = Some v" if "k \<noteq> key" for v
  proof -
    have "te_key (?es' ! i) = k \<and> te_value (?es' ! i) = v \<longleftrightarrow>
        te_key (es ! i) = k \<and> te_value (es ! i) = v" if "i < sz" "k \<noteq> 0" for i
      using that \<open>k \<noteq> key\<close> j j' by (cases "i = j") (auto simp: usable_def)
    then have "k \<noteq> 0 \<Longrightarrow>
        (\<exists>i < sz. te_key (?es' ! i) = k \<and> te_value (?es' ! i) = v) \<longleftrightarrow>
        (\<exists>i < sz. te_key (es ! i) = k \<and> te_value (es ! i) = v)"
      by metis
    then show ?thesis
      using entry_map_Some_iff [OF ch len] entry_map_Some_iff [OF assms(1,4)] by metis
  qed
  show "entry_map sz ?es' k = ((entry_map sz es)(key \<mapsto> val)) k"
  proof (cases "k = key")
    case True
    with new show ?thesis by simp
  next
    case False
    from option_eq_by_Some [OF other [OF False]] False show ?thesis by simp
  qed
qed

section \<open>The operations on well-formed tables\<close>

lemma table_invD:
  assumes "table_inv t"
  shows "hash_bits t < 31" and "unat (tsize t) = 2 ^ hash_bits t" and "\<not> tlock t"
    and "unat (tsize t) \<le> length (entries t)"
    and "chains (home t) (unat (tsize t)) (entries t)"
    and "tsize t - 1 = mask (hash_bits t)"
proof -
  from assms show inv: "hash_bits t < 31" "unat (tsize t) = 2 ^ hash_bits t" "\<not> tlock t"
    "unat (tsize t) \<le> length (entries t)" "chains (home t) (unat (tsize t)) (entries t)"
    by (auto simp: table_inv_def)
  from inv(1) have "unat (2 ^ hash_bits t :: u64) = 2 ^ hash_bits t"
    by (intro unat_power_two_small) simp
  with inv(2) have "tsize t = 2 ^ hash_bits t" by (metis word_unat_eq_iff)
  then show "tsize t - 1 = mask (hash_bits t)" by (simp add: mask_eq_decr_exp)
qed

lemma home_less: "table_inv t \<Longrightarrow> home t k < unat (tsize t)"
proof -
  assume inv: "table_inv t"
  let ?b = "hash_bits t"
  let ?x = "(drop_bit ?b (drop_bit 2 k) XOR drop_bit 2 k) :: u64"
  from table_invD(1) [OF inv] have b: "?b < 31" .
  have small: "unat (?x AND mask ?b) < 2 ^ ?b"
    using b by (intro unat_and_mask_less)
  also have "(2::nat) ^ ?b < 2 ^ 32" using b by (intro power_strict_increasing) auto
  finally have "unat (ucast (?x AND mask ?b) :: u32) = unat (?x AND mask ?b)"
    by (intro unat_ucast_small) simp
  with small show "home t k < unat (tsize t)"
    by (simp add: home_def Hash_def Let_def table_invD(2,6) [OF inv])
qed

lemma in_range_home: "table_inv t \<Longrightarrow> in_range (unat (tsize t)) (home t k) (home t k)"
  using home_less by (auto simp: in_range_def)

lemma Lookup_correct:
  assumes "table_inv t" and "key \<noteq> 0"
  shows "Lookup t key = Inr (case table_map t key of None \<Rightarrow> 0 | Some v \<Rightarrow> v)"
proof -
  note inv = table_invD [OF assms(1)]
  note iff = entry_map_Some_iff [OF inv(5,4), of key] entry_map_None_iff [OF inv(5,4), of key]
  from find_loop_correct [OF inv(5,4) home_less [OF assms(1)] assms(2)]
  consider j where "j < unat (tsize t)" "te_key (entries t ! j) = key"
      "find_loop (unat (tsize t)) key (entries t) (home t key) = Inr (Some j)"
    | "find_loop (unat (tsize t)) key (entries t) (home t key) = Inr None"
      "\<forall>j < unat (tsize t). te_key (entries t ! j) \<noteq> key"
    by blast
  then show ?thesis
  proof cases
    case 1
    with iff(1) assms(2) have "table_map t key = Some (te_value (entries t ! j))"
      by (auto simp: table_map_def)
    with 1 inv(3) show ?thesis by (simp add: Lookup_def home_def [symmetric])
  next
    case 2
    with iff(2) have "table_map t key = None" by (auto simp: table_map_def)
    with 2 inv(3) show ?thesis by (simp add: Lookup_def home_def [symmetric])
  qed
qed

text \<open>The outcome of the search for a slot on a well-formed table.\<close>

lemma slot_loop_home:
  assumes "table_inv t"
  obtains j where "first_usable (unat (tsize t)) key (entries t) (home t key) j"
      "slot_loop (unat (tsize t)) key (entries t) (home t key) = Inr j"
  | "\<forall>j. in_range (unat (tsize t)) (home t key) j \<longrightarrow> \<not> usable key (entries t) j"
      "slot_loop (unat (tsize t)) key (entries t) (home t key) = Inl Abort"
proof (rule first_usable_cases [of "unat (tsize t)" key "entries t" "home t key"])
  fix j assume j: "first_usable (unat (tsize t)) key (entries t) (home t key) j"
  then have "home t key \<le> j" by (simp add: first_usable_def in_range_def)
  from slot_loop_hit [OF this _ j] table_invD(4) [OF assms] that(1) [OF j] show thesis by blast
next
  assume full: "\<forall>j. in_range (unat (tsize t)) (home t key) j \<longrightarrow> \<not> usable key (entries t) j"
  from slot_loop_full [OF this in_range_home [OF assms]] table_invD(4) [OF assms]
    that(2) [OF full] show thesis by blast
qed

lemma table_inv_store:
  assumes "table_inv t" and "key \<noteq> 0"
    and "first_usable (unat (tsize t)) key (entries t) (home t key) j"
  shows "table_inv (t\<lparr>entries := (entries t)[j := \<lparr>te_key = key, te_value = val\<rparr>]\<rparr>)" (is "table_inv ?t'")
    and "table_map (t\<lparr>entries := (entries t)[j := \<lparr>te_key = key, te_value = val\<rparr>]\<rparr>) =
           (table_map t)(key \<mapsto> val)"
proof -
  note inv = table_invD [OF assms(1)]
  have home: "home ?t' = home t" by (rule ext) (simp add: home_def Hash_def)
  show "table_inv ?t'"
    using assms(1) chains_store [OF inv(5) assms(3,2) inv(4)] home by (simp add: table_inv_def)
  show "table_map ?t' = (table_map t)(key \<mapsto> val)"
    using entry_map_store [OF inv(5) assms(3,2) inv(4)] by (simp add: table_map_def)
qed

lemma Put_Inr:
  assumes "table_inv t" and "key \<noteq> 0" and "Put t key val = Inr (b, t')"
  shows "b" and "table_inv t'" and "table_map t' = (table_map t)(key \<mapsto> val)"
proof -
  from assms(3) table_invD(3) [OF assms(1)] obtain j where
    j: "slot_loop (unat (tsize t)) key (entries t) (home t key) = Inr j" and b: "b"
    and t': "t' = t\<lparr>entries := (entries t)[j := \<lparr>te_key = key, te_value = val\<rparr>]\<rparr>"
    by (auto simp: Put_def put_loop_slot home_def res_bind_assoc elim!: res_bind_InrE)
  from j have "first_usable (unat (tsize t)) key (entries t) (home t key) j"
    by (cases rule: slot_loop_home [OF assms(1), of key]) auto
  from table_inv_store [OF assms(1,2) this] t' b
  show "b" and "table_inv t'" and "table_map t' = (table_map t)(key \<mapsto> val)" by simp_all
qed

lemma Put_outcome:
  assumes "table_inv t" and "key \<noteq> 0"
  shows "Put t key val = Inl Abort \<and>
           (\<forall>j. in_range (unat (tsize t)) (home t key) j \<longrightarrow> \<not> usable key (entries t) j) \<or>
         (\<exists>t'. Put t key val = Inr (True, t')) \<and>
           (\<exists>j. in_range (unat (tsize t)) (home t key) j \<and> usable key (entries t) j)"
  using table_invD(3) [OF assms(1)]
  by (cases rule: slot_loop_home [OF assms(1), of key])
    (auto simp: Put_def put_loop_slot home_def [symmetric] first_usable_def)

lemma GetOrPut_Inr:
  assumes "table_inv t" and "key \<noteq> 0" and "GetOrPut t key val = Inr (r, t')"
  shows "table_inv t'"
    and "table_map t' =
           (case table_map t key of
              Some v \<Rightarrow> if v = 0 then (table_map t)(key \<mapsto> val) else table_map t
            | None \<Rightarrow> (table_map t)(key \<mapsto> val))"
    and "\<exists>j < unat (tsize t). r = 2 * of_nat j + 1 \<and> te_key (entries t' ! j) = key \<and>
           table_map t' key = Some (te_value (entries t' ! j))"
proof -
  let ?sz = "unat (tsize t)"
  note inv = table_invD [OF assms(1)]
  from assms(3) inv(3) obtain j where
    j: "slot_loop ?sz key (entries t) (home t key) = Inr j" and r: "r = 2 * of_nat j + 1"
    and t': "t' = (if te_key (entries t ! j) = key \<and> te_value (entries t ! j) \<noteq> 0 then t
                  else t\<lparr>entries := (entries t)[j := \<lparr>te_key = key, te_value = val\<rparr>]\<rparr>)"
    by (auto simp: GetOrPut_def get_or_put_loop_slot home_def res_bind_assoc elim!: res_bind_InrE)
  from j have first: "first_usable ?sz key (entries t) (home t key) j"
    by (cases rule: slot_loop_home [OF assms(1), of key]) auto
  then have js: "j < ?sz" "usable key (entries t) j"
    by (auto simp: first_usable_def in_range_def)
  note store = table_inv_store [OF assms(1,2) first]
  note iff = entry_map_Some_iff [OF inv(5,4), of key] entry_map_None_iff [OF inv(5,4), of key]
  show "table_inv t'" using t' assms(1) store(1) by simp
  have old: "table_map t key = (if te_key (entries t ! j) = key
               then Some (te_value (entries t ! j)) else None)"
  proof (cases "te_key (entries t ! j) = key")
    case True
    with iff(1) assms(2) js(1) show ?thesis by (auto simp: table_map_def)
  next
    case False
    with js(2) have free: "te_key (entries t ! j) = 0" by (simp add: usable_def)
    have "te_key (entries t ! i) \<noteq> key" if i: "i < ?sz" for i
    proof
      assume k: "te_key (entries t ! i) = key"
      note ch = chainsD [OF inv(5) i, unfolded k, OF assms(2)]
      from False k have "i \<noteq> j" by auto
      then show False
        using ch first k free False
        by (cases "i < j") (auto simp: first_usable_def in_range_def usable_def)
    qed
    with iff(2) False show ?thesis by (auto simp: table_map_def)
  qed
  show "table_map t' =
           (case table_map t key of
              Some v \<Rightarrow> if v = 0 then (table_map t)(key \<mapsto> val) else table_map t
            | None \<Rightarrow> (table_map t)(key \<mapsto> val))"
    using t' store(2) old by auto
  have "j < length (entries t)" using js(1) inv(4) by simp
  then have "te_key (entries t' ! j) = key \<and> table_map t' key = Some (te_value (entries t' ! j))"
    using t' store(2) old js(2) by (cases "te_key (entries t ! j) = key") (auto simp: usable_def)
  with js(1) r show "\<exists>j < ?sz. r = 2 * of_nat j + 1 \<and> te_key (entries t' ! j) = key \<and>
           table_map t' key = Some (te_value (entries t' ! j))" by blast
qed

lemma Replace_Inr:
  assumes "table_inv t" and "key \<noteq> 0" and "table_map t key = Some v"
  shows "\<exists>t'. Replace t key val = Inr t' \<and> table_inv t' \<and> table_map t' = (table_map t)(key \<mapsto> val)"
proof -
  note inv = table_invD [OF assms(1)]
  have home: "home (t\<lparr>tlock := True\<rparr>) = home t" by (rule ext) (simp add: home_def Hash_def)
  from assms(3) entry_map_Some_iff [OF inv(5,4)] obtain i where
    "i < unat (tsize t)" "te_key (entries t ! i) = key" unfolding table_map_def by blast
  with find_loop_correct [OF inv(5,4) home_less [OF assms(1)] assms(2)] obtain j where
    j: "j < unat (tsize t)" "te_key (entries t ! j) = key"
      "find_loop (unat (tsize t)) key (entries t) (home t key) = Inr (Some j)" by blast
  note ch = chainsD [OF inv(5) j(1), unfolded j(2), OF assms(2)]
  have first: "first_usable (unat (tsize t)) key (entries t) (home t key) j"
    using ch j(2) by (auto simp: first_usable_def usable_def)
  have entry: "(entries t ! j)\<lparr>te_value := val\<rparr> = \<lparr>te_key = key, te_value = val\<rparr>"
    using j(2) by simp
  have "Replace t key val =
      Inr (t\<lparr>entries := (entries t)[j := \<lparr>te_key = key, te_value = val\<rparr>]\<rparr>)"
    using inv(3) j(3) entry by (simp add: Replace_def Let_def home_def [symmetric] home)
  with table_inv_store [OF assms(1,2) first] show ?thesis by blast
qed

lemma Replace_absent:
  assumes "table_inv t" and "key \<noteq> 0" and "table_map t key = None"
  shows "Replace t key val = Inl Deadlock"
proof -
  note inv = table_invD [OF assms(1)]
  have home: "home (t\<lparr>tlock := True\<rparr>) = home t" by (rule ext) (simp add: home_def Hash_def)
  from assms(2,3) entry_map_None_iff [OF inv(5,4)] have
    "\<forall>i < unat (tsize t). te_key (entries t ! i) \<noteq> key" unfolding table_map_def by blast
  with find_loop_correct [OF inv(5,4) home_less [OF assms(1)] assms(2)]
  have "find_loop (unat (tsize t)) key (entries t) (home t key) = Inr None" by blast
  with inv(3) show ?thesis by (simp add: Replace_def Put_def Let_def home_def [symmetric] home)
qed

section \<open>A fresh table\<close>

lemma scast_shift:
  assumes "b < 31"
  shows "scast (2 ^ b :: u32) = (2 ^ b :: u64)"
proof -
  have "scast (push_bit b (1 :: u32)) = (2 ^ b :: u64)"
    by (rule bit_word_eqI) (use assms in \<open>auto simp: bit_simps bit_signed_iff min_def\<close>)
  then show ?thesis by simp
qed

lemma TranslateTable_fields:
  assumes "b < 31"
  shows "hash_bits (TranslateTable b) = b" and "tsize (TranslateTable b) = 2 ^ b"
    and "\<not> tlock (TranslateTable b)"
    and "entries (TranslateTable b) = (replicate (2 ^ b + 10) zero_entry)
           [2 ^ b + 9 := \<lparr>te_key = - 1, te_value = 0\<rparr>]"
proof -
  have small: "(2::nat) ^ b < 2 ^ 31" using assms by (intro power_strict_increasing) auto
  have "unat (2 ^ b :: u64) = 2 ^ b" using assms by (intro unat_power_two_small) simp
  then have size: "unat (2 ^ b + 10 :: u64) = 2 ^ b + 10"
    using small by (simp add: unat_word_ariths)
  show "hash_bits (TranslateTable b) = b" "tsize (TranslateTable b) = 2 ^ b"
    "\<not> tlock (TranslateTable b)"
    using assms by (simp_all add: TranslateTable_def Reset_def Let_def scast_shift)
  show "entries (TranslateTable b) = (replicate (2 ^ b + 10) zero_entry)
           [2 ^ b + 9 := \<lparr>te_key = - 1, te_value = 0\<rparr>]"
    using assms size
    by (simp add: TranslateTable_def Reset_def Let_def scast_shift resize_entries_def zero_entry_def
        add.commute)
qed

lemma TranslateTable_inv:
  assumes "b < 31"
  shows "table_inv (TranslateTable b)" and "table_map (TranslateTable b) = Map.empty"
proof -
  note f = TranslateTable_fields [OF assms]
  have u: "unat (2 ^ b :: u64) = 2 ^ b" using assms by (intro unat_power_two_small) simp
  have zero: "te_key (entries (TranslateTable b) ! i) = 0" if "i < 2 ^ b" for i
    using that by (simp add: f(4) zero_entry_def nth_list_update)
  then have ch: "chains h (2 ^ b) (entries (TranslateTable b))" for h
    by (simp add: chains_def)
  show inv: "table_inv (TranslateTable b)"
    using assms ch by (simp add: table_inv_def f u)
  show "table_map (TranslateTable b) = Map.empty"
    unfolding table_map_def
    by (rule ext, subst entry_map_None_iff [OF table_invD(5,4) [OF inv]])
      (use zero in \<open>auto simp: f u\<close>)
qed

section \<open>Removal\<close>

text \<open>
  Below the last slot, \<open>(index + 1) & size\<close> is zero: the mask that was meant to be
  \<open>size - 1\<close> sends the search back to the first slot.
\<close>

lemma remove_step_zero:
  fixes index :: u32
  assumes "b < 31" and "unat index + 1 < 2 ^ b"
  shows "ucast ((ucast (index + 1) :: u64) AND 2 ^ b) = (0 :: u32)"
proof -
  have "(2::nat) ^ b < 2 ^ 31" using assms(1) by (intro power_strict_increasing) auto
  with assms(2) have "unat index + 1 < 2 ^ 32" by simp
  then have "unat (index + 1) = unat index + 1" by (simp add: unat_word_ariths)
  then have "\<not> bit (unat (index + 1)) b"
    using assms(2) by (simp add: bit_iff_odd)
  then have "\<not> bit (index + 1) b"
    using assms(1) by (simp add: bit_simps)
  then have "(ucast (index + 1) :: u64) AND 2 ^ b = 0"
    by (intro bit_word_eqI) (auto simp: bit_simps)
  then show ?thesis by simp
qed

lemma remove_loop_stuck:
  assumes "1 \<le> b" and "b < 31" and "es \<noteq> []" and "stop \<noteq> 0"
    and "te_key (es ! 0) \<noteq> 0" and "te_key (es ! 0) \<noteq> key"
  shows "remove_loop fuel (2 ^ b) key stop es 0 = None"
proof (induction fuel)
  case 0
  show ?case by simp
next
  case (Suc fuel)
  have "(1::nat) < 2 ^ b" using assms(1) by (intro one_less_power) auto
  then have "ucast ((ucast (0 + 1 :: u32) :: u64) AND 2 ^ b) = (0 :: u32)"
    using assms(2) by (intro remove_step_zero) auto
  with Suc assms show ?case by (simp add: Let_def)
qed

lemma remove_loop_home_miss:
  assumes "b < 31" and "unat index + 1 < 2 ^ b" and "2 ^ b \<le> length es" and "stop \<noteq> 0"
    and "te_key (es ! unat index) \<noteq> 0" and "te_key (es ! unat index) \<noteq> key"
    and "te_key (es ! 0) \<noteq> 0" and "te_key (es ! 0) \<noteq> key"
  shows "remove_loop fuel (2 ^ b) key stop es index = None"
proof (cases fuel)
  case 0
  then show ?thesis by simp
next
  case (Suc n)
  have b: "1 \<le> b" using assms(2) by (cases b) auto
  have es: "es \<noteq> []" using assms(3) by auto
  from Suc assms(2-6) have "remove_loop fuel (2 ^ b) key stop es index =
      remove_loop n (2 ^ b) key stop es 0"
    by (simp add: Let_def remove_step_zero [OF assms(1,2)])
  also have "\<dots> = None" by (rule remove_loop_stuck [OF b assms(1) es assms(4,7,8)])
  finally show ?thesis .
qed

lemma Remove_stuck:
  assumes "table_inv t" and "home t key + 1 < unat (tsize t)" and "home t key \<noteq> 1"
    and "te_key (entries t ! home t key) \<notin> {0, key}" and "te_key (entries t ! 0) \<notin> {0, key}"
  shows "Remove fuel t key = None"
proof -
  note inv = table_invD [OF assms(1)]
  have sz: "tsize t = 2 ^ hash_bits t"
    using inv(1,2) unat_power_two_small [of "hash_bits t", where 'a = 64]
    by (simp add: word_unat_eq_iff)
  have stop: "Hash t key - 1 \<noteq> 0"
  proof
    assume "Hash t key - 1 = 0"
    then have "Hash t key = 1" by (metis eq_iff_diff_eq_0)
    with assms(3) show False by (simp add: home_def)
  qed
  have "remove_loop fuel (2 ^ hash_bits t) key (Hash t key - 1) (entries t) (Hash t key) = None"
    using assms(2,4,5) inv(2,4) stop
    by (intro remove_loop_home_miss [OF inv(1)]) (auto simp: home_def)
  with inv(3) sz show ?thesis by (simp add: Remove_def)
qed

lemma Remove_at_home:
  assumes "table_inv t" and "te_key (entries t ! home t key) = key"
  shows "Remove (Suc fuel) t key =
    Some (Inr (t\<lparr>entries := (entries t)[home t key := (entries t ! home t key)\<lparr>te_key := 0\<rparr>]\<rparr>))"
  using assms table_invD(3,4) [OF assms(1)] home_less [OF assms(1), of key]
  by (simp add: Remove_def home_def)

lemma find_loop_hole:
  assumes "i \<le> j" and "j < sz - 1 \<or> i = j" and "j < length es" and "k \<noteq> 0"
    and "te_key (es ! j) = 0" and "\<And>m. i \<le> m \<Longrightarrow> m < j \<Longrightarrow> te_key (es ! m) \<notin> {0, k}"
  shows "find_loop sz k es i = Inr None"
  using assms
proof (induction "j - i" arbitrary: i)
  case 0
  then have "i = j" by simp
  with 0 show ?case by (subst find_loop.simps) simp
next
  case (Suc n)
  then have i: "i < j" by simp
  with Suc.prems have "find_loop sz k es i = find_loop sz k es (i + 1)"
    by (auto simp: find_loop.simps [of sz k es i])
  also have "\<dots> = Inr None" using Suc.prems Suc.hyps(2) i by (intro Suc.hyps(1)) auto
  finally show ?case .
qed

section \<open>The interface of a code map\<close>

text \<open>
  What the code caches rely on: a store is visible to the next lookup of its key and to
  no other lookup. The laws speak of the abstract content only.
\<close>

locale code_map =
  fixes valid :: "'t \<Rightarrow> bool"
    and content :: "'t \<Rightarrow> u64 \<Rightarrow> u64 option"
    and lookup :: "'t \<Rightarrow> u64 \<Rightarrow> u64 result"
    and put :: "'t \<Rightarrow> u64 \<Rightarrow> u64 \<Rightarrow> (bool \<times> 't) result"
  assumes lookup_content:
      "valid t \<Longrightarrow> k \<noteq> 0 \<Longrightarrow> lookup t k = Inr (case content t k of None \<Rightarrow> 0 | Some v \<Rightarrow> v)"
    and put_valid: "valid t \<Longrightarrow> k \<noteq> 0 \<Longrightarrow> put t k v = Inr (b, t') \<Longrightarrow> valid t'"
    and put_content:
      "valid t \<Longrightarrow> k \<noteq> 0 \<Longrightarrow> put t k v = Inr (b, t') \<Longrightarrow> content t' = (content t)(k \<mapsto> v)"
begin

lemma lookup_put:
  assumes "valid t" and "k \<noteq> 0" and "k' \<noteq> 0" and "put t k v = Inr (b, t')"
  shows "lookup t' k' = (if k' = k then Inr v else lookup t k')"
  using lookup_content [OF assms(1,3)] lookup_content [OF put_valid [OF assms(1,2,4)] assms(3)]
    put_content [OF assms(1,2,4)] by simp

lemma put_commute:
  assumes "valid t" and "k \<noteq> 0" and "k' \<noteq> 0" and "k \<noteq> k'"
    and "put t k v = Inr (b1, t1)" and "put t1 k' v' = Inr (b2, t2)"
    and "put t k' v' = Inr (b3, t3)" and "put t3 k v = Inr (b4, t4)"
  shows "content t2 = content t4"
  using put_content [OF assms(1,2,5)] put_content [OF put_valid [OF assms(1,2,5)] assms(3,6)]
    put_content [OF assms(1,3,7)] put_content [OF put_valid [OF assms(1,3,7)] assms(2,8)]
    assms(4) by (simp add: fun_upd_twist)

end

interpretation table: code_map table_inv table_map Lookup Put
  by unfold_locales (auto intro: Lookup_correct Put_Inr)

section \<open>Properties\<close>

text \<open>
  C2: on a well-formed table, once \<open>Put key val\<close> has returned, \<open>Lookup key\<close> gives \<open>val\<close>
  and the lookup of every other key gives what it gave before.
\<close>

theorem Put_then_Lookup:
  assumes "table_inv t" and "key \<noteq> 0" and "k \<noteq> 0" and "Put t key val = Inr (b, t')"
  shows "Lookup t' k = (if k = key then Inr val else Lookup t k)"
  using assms by (rule table.lookup_put)

theorem Put_then_Lookup_witness:
  "\<exists>t'. Put (TranslateTable 2) 20 7 = Inr (True, t') \<and>
        Lookup t' 20 = Inr 7 \<and> Lookup t' 40 = Lookup (TranslateTable 2) 40"
proof -
  have inv: "table_inv (TranslateTable 2)" by (rule TranslateTable_inv) simp
  have "case Put (TranslateTable 2) 20 7 of Inl _ \<Rightarrow> False | Inr (b, _) \<Rightarrow> b" by code_simp
  then obtain t' where put: "Put (TranslateTable 2) 20 7 = Inr (True, t')"
    by (auto split: sum.splits prod.splits)
  show ?thesis
    using Put_then_Lookup [OF inv _ _ put, of 20] Put_then_Lookup [OF inv _ _ put, of 40] put
    by simp
qed

text \<open>
  C1: \<open>Put\<close> implements the update of a map. It keeps the table well formed, returns
  \<open>true\<close>, and changes the abstract content at the given key only.
\<close>

theorem Put_refines_map_update:
  assumes "table_inv t" and "key \<noteq> 0" and "Put t key val = Inr (b, t')"
  shows "b \<and> table_inv t' \<and> table_map t' = (table_map t)(key \<mapsto> val)"
  using Put_Inr [OF assms] by simp

theorem Put_refines_map_update_witness:
  "\<exists>t'. Put (TranslateTable 2) 20 7 = Inr (True, t') \<and> table_map t' = [20 \<mapsto> 7]"
proof -
  have inv: "table_inv (TranslateTable 2)" "table_map (TranslateTable 2) = Map.empty"
    by (simp_all add: TranslateTable_inv)
  have "case Put (TranslateTable 2) 20 7 of Inl _ \<Rightarrow> False | Inr (b, _) \<Rightarrow> b" by code_simp
  then obtain t' where put: "Put (TranslateTable 2) 20 7 = Inr (True, t')"
    by (auto split: sum.splits prod.splits)
  show ?thesis using Put_refines_map_update [OF inv(1) _ put] put inv(2) by simp
qed

text \<open>
  C3: \<open>Put\<close> calls \<open>abort()\<close> exactly when every slot that the key may use is taken by
  another key, and returns otherwise. The slots are those from the hash of the key up to
  the last one but one, or the last slot alone for a key that hashes there.
\<close>

theorem Put_aborts_iff_full:
  assumes "table_inv t" and "key \<noteq> 0"
  shows "(Put t key val = Inl Abort \<longleftrightarrow>
            \<not> (\<exists>j. in_range (unat (tsize t)) (home t key) j \<and> usable key (entries t) j)) \<and>
         (Put t key val = Inl Abort \<or> (\<exists>t'. Put t key val = Inr (True, t')))"
  using Put_outcome [OF assms, of val] by auto

theorem Put_aborts_iff_full_witness:
  "\<exists>j. in_range (unat (tsize (TranslateTable 2))) (home (TranslateTable 2) 20) j \<and>
       usable 20 (entries (TranslateTable 2)) j"
proof -
  have inv: "table_inv (TranslateTable 2)" by (rule TranslateTable_inv) simp
  have "Put (TranslateTable 2) 20 7 \<noteq> Inl Abort" by code_simp
  with Put_aborts_iff_full [OF inv, of 20 7] show ?thesis by simp
qed

text \<open>
  C4: \<open>GetOrPut\<close> returns an odd tag \<open>2 * index + 1\<close> whose index is the slot that holds the
  key afterwards. A value other than zero that was already there stays; otherwise the
  given value is stored.
\<close>

theorem GetOrPut_tag:
  assumes "table_inv t" and "key \<noteq> 0" and "GetOrPut t key val = Inr (r, t')"
  shows "table_inv t' \<and>
    (\<exists>j < unat (tsize t). r = 2 * of_nat j + 1 \<and> te_key (entries t' ! j) = key \<and>
       table_map t' key = Some (te_value (entries t' ! j))) \<and>
    table_map t' =
      (case table_map t key of
         Some v \<Rightarrow> if v = 0 then (table_map t)(key \<mapsto> val) else table_map t
       | None \<Rightarrow> (table_map t)(key \<mapsto> val))"
  using GetOrPut_Inr [OF assms] by blast

theorem GetOrPut_tag_witness:
  "\<exists>t'. GetOrPut (TranslateTable 2) 40 9 = Inr (1, t') \<and> table_map t' = [40 \<mapsto> 9]"
proof -
  have inv: "table_inv (TranslateTable 2)" "table_map (TranslateTable 2) = Map.empty"
    by (simp_all add: TranslateTable_inv)
  have "case GetOrPut (TranslateTable 2) 40 9 of Inl _ \<Rightarrow> False | Inr (r, _) \<Rightarrow> r = 1"
    by code_simp
  then obtain t' where get: "GetOrPut (TranslateTable 2) 40 9 = Inr (1, t')"
    by (auto split: sum.splits prod.splits)
  show ?thesis using GetOrPut_tag [OF inv(1) _ get] get inv(2) by simp
qed

text \<open>
  C5: \<open>Replace\<close> overwrites the value of a key that is present. For an absent key it calls
  \<open>Put\<close> while it holds the exclusive lock, which \<open>Put\<close> then tries to take again: the call
  never completes.
\<close>

theorem Replace_outcome:
  assumes "table_inv t" and "key \<noteq> 0"
  shows "case table_map t key of
           Some _ \<Rightarrow> \<exists>t'. Replace t key val = Inr t' \<and> table_inv t' \<and>
                       table_map t' = (table_map t)(key \<mapsto> val)
         | None \<Rightarrow> Replace t key val = Inl Deadlock"
  using Replace_Inr [OF assms] Replace_absent [OF assms] by (cases "table_map t key") auto

theorem Replace_outcome_witness: "Replace (TranslateTable 2) 20 7 = Inl Deadlock"
proof -
  have inv: "table_inv (TranslateTable 2)" "table_map (TranslateTable 2) = Map.empty"
    by (simp_all add: TranslateTable_inv)
  show ?thesis using Replace_outcome [OF inv(1), of 20 7] inv(2) by simp
qed

text \<open>
  C6: \<open>Remove\<close> empties the slot of a key that sits at its hash, and so cuts the probe
  sequence of every key stored behind it: such a key is still in the array, but \<open>Lookup\<close>
  no longer finds it.
\<close>

theorem Remove_hides_colliding_keys:
  assumes "table_inv t" and "key \<noteq> 0" and "te_key (entries t ! home t key) = key"
    and "k \<noteq> 0" and "home t k \<le> home t key"
    and "home t key < j" and "j < unat (tsize t)" and "te_key (entries t ! j) = k"
  shows "\<exists>t'. Remove 1 t key = Some (Inr t') \<and> te_key (entries t' ! j) = k \<and> Lookup t' k = Inr 0"
proof -
  let ?h = "home t key" and ?sz = "unat (tsize t)"
  let ?es = "(entries t)[?h := (entries t ! ?h)\<lparr>te_key := 0\<rparr>]"
  note inv = table_invD [OF assms(1)]
  note ch = chainsD [OF inv(5) assms(7), unfolded assms(8), OF assms(4)]
  have len: "?sz \<le> length ?es" using inv(4) by simp
  have h: "?h < length (entries t)" using assms(6,7) inv(4) by simp
  have "find_loop ?sz k ?es (home t k) = Inr None"
    using ch(2) assms(4-7) h len by (intro find_loop_hole [where j = ?h]) auto
  then have "Lookup (t\<lparr>entries := ?es\<rparr>) k = Inr 0"
    using inv(3) by (simp add: Lookup_def home_def Hash_def)
  moreover have "te_key (?es ! j) = k" using assms(6,8) by simp
  ultimately show ?thesis
    using Remove_at_home [OF assms(1,3), of 0] by auto
qed

definition two_colliding :: translate_table where
  "two_colliding =
     (case Put (TranslateTable 2) 20 7 of
        Inr (_, t) \<Rightarrow> (case Put t 40 9 of Inr (_, t') \<Rightarrow> t' | Inl _ \<Rightarrow> t)
      | Inl _ \<Rightarrow> TranslateTable 2)"

lemma two_colliding_inv: "table_inv two_colliding"
proof -
  have inv: "table_inv (TranslateTable 2)" by (rule TranslateTable_inv) simp
  have "table_inv t" if "Put (TranslateTable 2) 20 7 = Inr (b, t)" for b t
    using Put_Inr(2) [OF inv _ that] by simp
  moreover have "table_inv t'" if "table_inv t" "Put t 40 9 = Inr (b, t')" for b t t'
    using Put_Inr(2) [OF that(1) _ that(2)] by simp
  ultimately show ?thesis
    using inv by (auto simp: two_colliding_def split: sum.splits prod.splits)
qed

theorem Remove_hides_colliding_keys_witness:
  "Lookup two_colliding 40 = Inr 9 \<and>
   (\<exists>t'. Remove 1 two_colliding 20 = Some (Inr t') \<and> Lookup t' 40 = Inr 0)"
proof -
  have l: "Lookup two_colliding 40 = Inr 9" by code_simp
  have e: "home two_colliding 20 = 0" "home two_colliding 40 = 0"
    "te_key (entries two_colliding ! 0) = 20" "te_key (entries two_colliding ! 1) = 40"
    "unat (tsize two_colliding) = 4"
    by code_simp+
  show ?thesis
    using Remove_hides_colliding_keys [OF two_colliding_inv, of 20 40 1] e l by auto
qed



end
