(* ===== verification/IR_Types.thy ===== *)
theory IR_Types
  imports Prelude
begin

text \<open>
  The data of the intermediate representation: the operation codes of
  \<open>src/source/runtime/ir/ir.inc\<close> and \<open>opcodes.h\<close>, the argument and value types of
  \<open>ir_types.h\<close>, the meta table of \<open>ir_meta.cpp\<close> and the argument classes of \<open>args.h\<close>.
  An instruction is known by its address, a natural number; a \<open>Value\<close> is a pointer to the
  instruction that defines it, \<open>None\<close> when it is null.
\<close>

section \<open>Operation codes and their meta information\<close>

datatype OpCode =
    OpVoid | OpLoadLocal | OpStoreLocal | OpLoadUniform | OpStoreUniform | OpLoadMemory |
    OpStoreMemory | OpLoadMemoryTSO | OpStoreMemoryTSO | OpCompareAndSwap | OpCallLambda |
    OpCallLocation | OpCallDynamic | OpAddPhi | OpLoadImm | OpPushRSB | OpPopRSB | OpAdd |
    OpSub | OpAdc | OpSbb | OpMul | OpDiv | OpZeroExtend | OpSignExtend | OpAndImm | OpOrImm |
    OpAndValue | OpOrValue | OpXorValue | OpGetCarry | OpGetOverFlow | OpGetZero |
    OpGetNegate | OpGetNegZero | OpGetParity | OpGetNZCV | OpGetAllFlags | OpLslImm |
    OpLslValue | OpLsrImm | OpLsrValue | OpAsrImm | OpAsrValue | OpRorImm | OpRorValue |
    OpBitExtract | OpBitInsert | OpBitClear | OpTestBit | OpBASE_COUNT | OpSetLocation |
    OpCOUNT

text \<open>The enumeration order, which is also the order of the meta table.\<close>

fun op_index :: "OpCode \<Rightarrow> nat" where
  "op_index OpVoid = 0"
| "op_index OpLoadLocal = 1"
| "op_index OpStoreLocal = 2"
| "op_index OpLoadUniform = 3"
| "op_index OpStoreUniform = 4"
| "op_index OpLoadMemory = 5"
| "op_index OpStoreMemory = 6"
| "op_index OpLoadMemoryTSO = 7"
| "op_index OpStoreMemoryTSO = 8"
| "op_index OpCompareAndSwap = 9"
| "op_index OpCallLambda = 10"
| "op_index OpCallLocation = 11"
| "op_index OpCallDynamic = 12"
| "op_index OpAddPhi = 13"
| "op_index OpLoadImm = 14"
| "op_index OpPushRSB = 15"
| "op_index OpPopRSB = 16"
| "op_index OpAdd = 17"
| "op_index OpSub = 18"
| "op_index OpAdc = 19"
| "op_index OpSbb = 20"
| "op_index OpMul = 21"
| "op_index OpDiv = 22"
| "op_index OpZeroExtend = 23"
| "op_index OpSignExtend = 24"
| "op_index OpAndImm = 25"
| "op_index OpOrImm = 26"
| "op_index OpAndValue = 27"
| "op_index OpOrValue = 28"
| "op_index OpXorValue = 29"
| "op_index OpGetCarry = 30"
| "op_index OpGetOverFlow = 31"
| "op_index OpGetZero = 32"
| "op_index OpGetNegate = 33"
| "op_index OpGetNegZero = 34"
| "op_index OpGetParity = 35"
| "op_index OpGetNZCV = 36"
| "op_index OpGetAllFlags = 37"
| "op_index OpLslImm = 38"
| "op_index OpLslValue = 39"
| "op_index OpLsrImm = 40"
| "op_index OpLsrValue = 41"
| "op_index OpAsrImm = 42"
| "op_index OpAsrValue = 43"
| "op_index OpRorImm = 44"
| "op_index OpRorValue = 45"
| "op_index OpBitExtract = 46"
| "op_index OpBitInsert = 47"
| "op_index OpBitClear = 48"
| "op_index OpTestBit = 49"
| "op_index OpBASE_COUNT = 50"
| "op_index OpSetLocation = 51"
| "op_index OpCOUNT = 52"

datatype ArgType =
    ATVoid | ATValue | ATImm | ATUniform | ATLocal | ATCond | ATFlags | ATOperand | ATLambda

datatype ValueType =
    VT_VOID | VT_BOOL | VT_U8 | VT_U16 | VT_U32 | VT_U64 | VT_U128 | VT_S8 | VT_S16 | VT_S32 |
    VT_S64 | VT_S128 | VT_V8 | VT_V16 | VT_V32 | VT_V64 | VT_V128 | VT_V256

record IRMeta =
  meta_op :: OpCode
  meta_name :: string
  return_type :: ArgType
  arg_types :: "ArgType list"

definition meta :: "OpCode \<Rightarrow> string \<Rightarrow> ArgType \<Rightarrow> ArgType list \<Rightarrow> IRMeta" where
  "meta op name ret args = \<lparr>meta_op = op, meta_name = name, return_type = ret, arg_types = args\<rparr>"

definition ir_meta_infos :: "IRMeta list" where
  "ir_meta_infos =
    [meta OpVoid ''Void'' ATVoid [],
     meta OpLoadLocal ''LoadLocal'' ATValue [ATLocal],
     meta OpStoreLocal ''StoreLocal'' ATVoid [ATLocal, ATValue],
     meta OpLoadUniform ''LoadUniform'' ATValue [ATUniform],
     meta OpStoreUniform ''StoreUniform'' ATVoid [ATUniform, ATValue],
     meta OpLoadMemory ''LoadMemory'' ATValue [ATOperand],
     meta OpStoreMemory ''StoreMemory'' ATVoid [ATOperand, ATValue],
     meta OpLoadMemoryTSO ''LoadMemoryTSO'' ATValue [ATOperand],
     meta OpStoreMemoryTSO ''StoreMemoryTSO'' ATVoid [ATOperand, ATValue],
     meta OpCompareAndSwap ''CompareAndSwap'' ATValue [ATValue, ATValue, ATValue],
     meta OpCallLambda ''CallLambda'' ATValue [ATLambda, ATValue, ATValue, ATValue],
     meta OpCallLocation ''CallLocation'' ATValue [ATLambda],
     meta OpCallDynamic ''CallDynamic'' ATValue [ATLambda],
     meta OpAddPhi ''AddPhi'' ATValue [ATValue, ATValue, ATValue, ATValue],
     meta OpLoadImm ''LoadImm'' ATValue [ATImm],
     meta OpPushRSB ''PushRSB'' ATVoid [ATValue],
     meta OpPopRSB ''PopRSB'' ATVoid [],
     meta OpAdd ''Add'' ATValue [ATValue, ATOperand],
     meta OpSub ''Sub'' ATValue [ATValue, ATOperand],
     meta OpAdc ''Adc'' ATValue [ATValue, ATOperand],
     meta OpSbb ''Sbb'' ATValue [ATValue, ATOperand],
     meta OpMul ''Mul'' ATValue [ATValue, ATOperand],
     meta OpDiv ''Div'' ATValue [ATValue, ATOperand],
     meta OpZeroExtend ''ZeroExtend'' ATValue [ATValue, ATImm],
     meta OpSignExtend ''SignExtend'' ATValue [ATValue, ATImm],
     meta OpAndImm ''AndImm'' ATValue [ATValue, ATImm],
     meta OpOrImm ''OrImm'' ATValue [ATValue, ATImm],
     meta OpAndValue ''AndValue'' ATValue [ATValue, ATValue],
     meta OpOrValue ''OrValue'' ATValue [ATValue, ATValue],
     meta OpXorValue ''XorValue'' ATValue [ATValue, ATValue],
     meta OpGetCarry ''GetCarry'' ATValue [ATValue],
     meta OpGetOverFlow ''GetOverFlow'' ATValue [ATValue],
     meta OpGetZero ''GetZero'' ATValue [ATValue],
     meta OpGetNegate ''GetNegate'' ATValue [ATValue],
     meta OpGetNegZero ''GetNegZero'' ATValue [ATValue],
     meta OpGetParity ''GetParity'' ATValue [ATValue],
     meta OpGetNZCV ''GetNZCV'' ATValue [ATValue],
     meta OpGetAllFlags ''GetAllFlags'' ATValue [ATValue],
     meta OpLslImm ''LslImm'' ATValue [ATValue, ATImm],
     meta OpLslValue ''LslValue'' ATValue [ATValue, ATValue],
     meta OpLsrImm ''LsrImm'' ATValue [ATValue, ATImm],
     meta OpLsrValue ''LsrValue'' ATValue [ATValue, ATValue],
     meta OpAsrImm ''AsrImm'' ATValue [ATValue, ATImm],
     meta OpAsrValue ''AsrValue'' ATValue [ATValue, ATValue],
     meta OpRorImm ''RorImm'' ATValue [ATValue, ATImm],
     meta OpRorValue ''RorValue'' ATValue [ATValue, ATValue],
     meta OpBitExtract ''BitExtract'' ATValue [ATValue, ATImm, ATImm],
     meta OpBitInsert ''BitInsert'' ATValue [ATValue, ATValue, ATImm, ATImm],
     meta OpBitClear ''BitClear'' ATValue [ATValue, ATImm, ATImm],
     meta OpTestBit ''TestBit'' ATValue [ATValue, ATImm],
     meta OpBASE_COUNT ''BASE_COUNT'' ATVoid [],
     meta OpSetLocation ''SetLocation'' ATVoid [ATImm],
     meta OpCOUNT ''COUNT'' ATVoid []]"

definition GetIRMetaInfo :: "OpCode \<Rightarrow> IRMeta result" where
  "GetIRMetaInfo op =
     res_bind (ASSERT (op_index op < op_index OpCOUNT)) (\<lambda>_. vec_at ir_meta_infos (op_index op))"

section \<open>Arguments\<close>

type_synonym inst_ptr = nat
type_synonym ir_value = "inst_ptr option"

datatype Imm = ImmBool bool | ImmU8 u8 | ImmU16 u16 | ImmU32 u32 | ImmU64 u64

fun imm_type :: "Imm \<Rightarrow> ValueType" where
  "imm_type (ImmBool _) = VT_BOOL"
| "imm_type (ImmU8 _) = VT_U8"
| "imm_type (ImmU16 _) = VT_U16"
| "imm_type (ImmU32 _) = VT_U32"
| "imm_type (ImmU64 _) = VT_U64"

record Uniform =
  u_offset :: u32
  u_type :: ValueType

record Local =
  local_id :: u16
  local_type :: ValueType

datatype Cond =
    EQ | NE | CS | CC | MI | PL | VS | VC | HI | LS | GE | LT | GT | LE | AL | NV

text \<open>\<open>Flags\<close> is a bit set over \<open>u16\<close>.\<close>

type_synonym Flags = u16

definition flag_Carry :: Flags where "flag_Carry = push_bit 0 1"
definition flag_Overflow :: Flags where "flag_Overflow = push_bit 1 1"
definition flag_Zero :: Flags where "flag_Zero = push_bit 2 1"
definition flag_Negate :: Flags where "flag_Negate = push_bit 3 1"
definition flag_Parity :: Flags where "flag_Parity = push_bit 4 1"
definition flag_NegZero :: Flags where "flag_NegZero = flag_Zero OR flag_Negate"
definition flag_NZCV :: Flags where
  "flag_NZCV = flag_Carry OR flag_Overflow OR flag_Zero OR flag_Negate"
definition flag_All :: Flags where
  "flag_All = flag_Carry OR flag_Overflow OR flag_Zero OR flag_Negate OR flag_Parity"

text \<open>The address of a \<open>Lambda\<close>: nothing, a value or an immediate.\<close>

datatype Lambda = LambdaVoid | LambdaValue ir_value | LambdaImm Imm

definition lambda_IsValue :: "Lambda \<Rightarrow> bool" where
  "lambda_IsValue l = (case l of LambdaValue _ \<Rightarrow> True | _ \<Rightarrow> False)"

definition lambda_GetValue :: "Lambda \<Rightarrow> ir_value result" where
  "lambda_GetValue l = (case l of LambdaValue v \<Rightarrow> Inr v | _ \<Rightarrow> Inl AssertFailed)"

definition lambda_GetImm :: "Lambda \<Rightarrow> Imm result" where
  "lambda_GetImm l = (case l of LambdaImm i \<Rightarrow> Inr i | _ \<Rightarrow> Inl AssertFailed)"

datatype OperandType = Plus | Minus | LSL | LSR | EXT

record OperandOp =
  oo_type :: OperandType
  shift_ext :: u8

text \<open>\<open>ArgClass\<close>, a tagged union, and its wrapper \<open>Arg\<close>.\<close>

datatype Arg =
    ArgVoid
  | ArgValue ir_value
  | ArgImm Imm
  | ArgCond Cond
  | ArgOperand OperandOp
  | ArgLocal Local
  | ArgUniform Uniform
  | ArgLambda Lambda
  | ArgFlags Flags

fun GetType :: "Arg \<Rightarrow> ArgType" where
  "GetType ArgVoid = ATVoid"
| "GetType (ArgValue _) = ATValue"
| "GetType (ArgImm _) = ATImm"
| "GetType (ArgCond _) = ATCond"
| "GetType (ArgOperand _) = ATOperand"
| "GetType (ArgLocal _) = ATLocal"
| "GetType (ArgUniform _) = ATUniform"
| "GetType (ArgLambda _) = ATLambda"
| "GetType (ArgFlags _) = ATFlags"

definition IsValue :: "Arg \<Rightarrow> bool" where "IsValue a \<longleftrightarrow> GetType a = ATValue"
definition IsOperand :: "Arg \<Rightarrow> bool" where "IsOperand a \<longleftrightarrow> GetType a = ATOperand"
definition IsLambda :: "Arg \<Rightarrow> bool" where "IsLambda a \<longleftrightarrow> GetType a = ATLambda"

text \<open>\<open>Arg::Get<T>\<close> asserts the tag before it reads the member of the union.\<close>

definition Get_Value :: "Arg \<Rightarrow> ir_value result" where
  "Get_Value a = (case a of ArgValue v \<Rightarrow> Inr v | _ \<Rightarrow> Inl AssertFailed)"

definition Get_Local :: "Arg \<Rightarrow> Local result" where
  "Get_Local a = (case a of ArgLocal l \<Rightarrow> Inr l | _ \<Rightarrow> Inl AssertFailed)"

definition Get_Lambda :: "Arg \<Rightarrow> Lambda result" where
  "Get_Lambda a = (case a of ArgLambda l \<Rightarrow> Inr l | _ \<Rightarrow> Inl AssertFailed)"

definition Get_OperandOp :: "Arg \<Rightarrow> OperandOp result" where
  "Get_OperandOp a = (case a of ArgOperand oo \<Rightarrow> Inr oo | _ \<Rightarrow> Inl AssertFailed)"

text \<open>An operand occupies three argument slots: its operator, its left and its right side.\<close>

record Operand =
  od_op :: OperandOp
  od_left :: Arg
  od_right :: Arg

definition Operand_imm :: "ir_value \<Rightarrow> Imm \<Rightarrow> OperandOp \<Rightarrow> Operand" where
  "Operand_imm left right oo = \<lparr>od_op = oo, od_left = ArgValue left, od_right = ArgImm right\<rparr>"

definition Operand_value :: "ir_value \<Rightarrow> ir_value \<Rightarrow> OperandOp \<Rightarrow> Operand" where
  "Operand_value left right oo = \<lparr>od_op = oo, od_left = ArgValue left, od_right = ArgValue right\<rparr>"

section \<open>Facts\<close>

lemma op_index_less: "op_index op < length ir_meta_infos"
  by (cases op) (simp_all add: ir_meta_infos_def)

lemma meta_op_at_index: "meta_op (ir_meta_infos ! op_index op) = op"
  by (cases op) (simp_all add: ir_meta_infos_def meta_def)

lemma GetIRMetaInfo_total:
  assumes "op \<noteq> OpCOUNT"
  shows "GetIRMetaInfo op = Inr (ir_meta_infos ! op_index op)"
proof -
  have "op_index op < op_index OpCOUNT" using assms by (cases op) simp_all
  then show ?thesis by (simp add: GetIRMetaInfo_def op_index_less)
qed

lemma op_index_inj: "op_index a = op_index b \<Longrightarrow> a = b"
  by (metis meta_op_at_index)

end
