(* ===== verification/IR_Inst.thy ===== *)
theory IR_Inst
  imports IR_Types
begin

text \<open>
  Instructions (\<open>src/source/runtime/ir/instr.h\<close>, \<open>instr.cpp\<close> and the use counting of
  \<open>args.cpp\<close>).  Instructions live in an explicit store, a list of cells indexed by address:
  a live instruction is \<open>Some\<close> record, a deleted one is \<open>None\<close>.  Every operation that the
  source calls on \<open>this\<close> takes the address of the instruction.

  The chain of pseudo operations of a value starts at the defining instruction and is linked
  through \<open>next_pseudo_inst\<close>.  The two walks along it are bounded by the number of cells plus
  one: the store does not change during a walk, so a walk that visits more cells than there
  are has visited one twice and never ends.

  The lemmas show that the 8-bit use counter is, modulo 256, the number of arguments that
  refer to the instruction, that the chain of pseudo operations holds exactly the pseudo
  users of a value, and what \<open>Validate\<close> accepts.
\<close>

section \<open>State\<close>

record inst =
  next_pseudo_inst :: "inst_ptr option"
  arguments :: "Arg list"
  op_code :: OpCode
  num_use :: u8
  inst_id :: u16
  ret_type :: ValueType

type_synonym inst_heap = "inst option list"

definition max_args :: nat where "max_args = 4"

definition Inst :: "OpCode \<Rightarrow> inst" where
  "Inst code = \<lparr>next_pseudo_inst = None, arguments = replicate max_args ArgVoid, op_code = code,
     num_use = 0, inst_id = 0, ret_type = VT_VOID\<rparr>"

text \<open>Dereferencing an instruction pointer, and an update through it.\<close>

definition inst_at :: "inst_heap \<Rightarrow> inst_ptr \<Rightarrow> inst result" where
  "inst_at h p =
     (if p < length h then (case h ! p of Some i \<Rightarrow> Inr i | None \<Rightarrow> Inl NullDeref)
      else Inl NullDeref)"

definition inst_upd :: "inst_heap \<Rightarrow> inst_ptr \<Rightarrow> (inst \<Rightarrow> inst) \<Rightarrow> inst_heap result" where
  "inst_upd h p f = res_bind (inst_at h p) (\<lambda>i. Inr (h[p := Some (f i)]))"

section \<open>Operations\<close>

definition ArgAt :: "inst_heap \<Rightarrow> inst_ptr \<Rightarrow> nat \<Rightarrow> Arg result" where
  "ArgAt h this index = res_bind (inst_at h this) (\<lambda>i. vec_at (arguments i) index)"

definition GetArg_Value :: "inst_heap \<Rightarrow> inst_ptr \<Rightarrow> nat \<Rightarrow> ir_value result" where
  "GetArg_Value h this index = res_bind (ArgAt h this index) Get_Value"

definition GetArg_Local :: "inst_heap \<Rightarrow> inst_ptr \<Rightarrow> nat \<Rightarrow> Local result" where
  "GetArg_Local h this index = res_bind (ArgAt h this index) Get_Local"

definition GetArg_Operand :: "inst_heap \<Rightarrow> inst_ptr \<Rightarrow> nat \<Rightarrow> Operand result" where
  "GetArg_Operand h this index =
     res_bind (ArgAt h this index) (\<lambda>a.
     res_bind (ASSERT (IsOperand a)) (\<lambda>_.
     res_bind (Get_OperandOp a) (\<lambda>oo.
     res_bind (ArgAt h this (index + 1)) (\<lambda>l.
     res_bind (ArgAt h this (index + 2)) (\<lambda>r.
     Inr \<lparr>od_op = oo, od_left = l, od_right = r\<rparr>)))))"

definition IsPseudoOperation :: "inst \<Rightarrow> bool" where
  "IsPseudoOperation i =
     (case op_code i of
        OpGetCarry \<Rightarrow> True | OpGetOverFlow \<Rightarrow> True | OpGetNegate \<Rightarrow> True | OpGetZero \<Rightarrow> True
      | OpGetNZCV \<Rightarrow> True | OpGetNegZero \<Rightarrow> True | OpGetAllFlags \<Rightarrow> True | _ \<Rightarrow> False)"

definition HasValue :: "inst \<Rightarrow> bool result" where
  "HasValue i = res_bind (GetIRMetaInfo (op_code i)) (\<lambda>m. Inr (return_type m = ATValue))"

definition SetReturn :: "inst_heap \<Rightarrow> inst_ptr \<Rightarrow> ValueType \<Rightarrow> inst_heap result" where
  "SetReturn h this ty = inst_upd h this (ret_type_update (\<lambda>_. ty))"

definition SetId :: "inst_heap \<Rightarrow> inst_ptr \<Rightarrow> u16 \<Rightarrow> inst_heap result" where
  "SetId h this ident = inst_upd h this (inst_id_update (\<lambda>_. ident))"

text \<open>\<open>Value::Use\<close>, \<open>Value::UnUse\<close>, \<open>Value::SetType\<close> and \<open>Value::Type\<close>.\<close>

definition Value_Use :: "inst_heap \<Rightarrow> ir_value \<Rightarrow> inst_heap result" where
  "Value_Use h v =
     (case v of None \<Rightarrow> Inl AssertFailed
      | Some def \<Rightarrow> inst_upd h def (num_use_update (\<lambda>n. n + 1)))"

definition Value_UnUse :: "inst_heap \<Rightarrow> ir_value \<Rightarrow> inst_heap result" where
  "Value_UnUse h v =
     (case v of None \<Rightarrow> Inl AssertFailed
      | Some def \<Rightarrow> inst_upd h def (num_use_update (\<lambda>n. n - 1)))"

definition Value_SetType :: "inst_heap \<Rightarrow> ir_value \<Rightarrow> ValueType \<Rightarrow> inst_heap result" where
  "Value_SetType h v ty = (case v of None \<Rightarrow> Inl AssertFailed | Some def \<Rightarrow> SetReturn h def ty)"

definition Value_Type :: "inst_heap \<Rightarrow> ir_value \<Rightarrow> ValueType result" where
  "Value_Type h v =
     (case v of None \<Rightarrow> Inl AssertFailed
      | Some def \<Rightarrow> res_bind (inst_at h def) (\<lambda>i. Inr (ret_type i)))"

text \<open>
  The loop of \<open>Inst::Use\<close>: to the last instruction of the chain, asserting on the way that
  every member has the used value as its first argument.
\<close>

fun use_walk :: "nat \<Rightarrow> inst_heap \<Rightarrow> inst_ptr \<Rightarrow> inst_ptr \<Rightarrow> inst_ptr result" where
  "use_walk 0 h def insert_point = Inl Diverges"
| "use_walk (Suc n) h def insert_point =
     res_bind (inst_at h insert_point) (\<lambda>i.
       case next_pseudo_inst i of
         None \<Rightarrow> Inr insert_point
       | Some q \<Rightarrow>
           res_bind (GetArg_Value h q 0) (\<lambda>v.
           res_bind (ASSERT (v = Some def)) (\<lambda>_. use_walk n h def q)))"

definition Use :: "inst_heap \<Rightarrow> inst_ptr \<Rightarrow> ir_value \<Rightarrow> inst_heap result" where
  "Use h this v =
     (case v of
        None \<Rightarrow> Inl AssertFailed
      | Some def \<Rightarrow>
          res_bind (inst_upd h def (num_use_update (\<lambda>n. n + 1))) (\<lambda>h1.
          res_bind (inst_at h1 this) (\<lambda>i.
            if IsPseudoOperation i then
              res_bind (use_walk (Suc (length h1)) h1 def def) (\<lambda>insert_point.
                inst_upd h1 insert_point (next_pseudo_inst_update (\<lambda>_. Some this)))
            else Inr h1)))"

text \<open>The loop of \<open>Inst::UnUse\<close>: to the predecessor of \<open>this\<close> in the chain.\<close>

fun unuse_walk :: "nat \<Rightarrow> inst_heap \<Rightarrow> inst_ptr \<Rightarrow> inst_ptr \<Rightarrow> inst_ptr \<Rightarrow> inst_ptr result" where
  "unuse_walk 0 h this def insert_point = Inl Diverges"
| "unuse_walk (Suc n) h this def insert_point =
     res_bind (inst_at h insert_point) (\<lambda>i.
       if next_pseudo_inst i = Some this then Inr insert_point
       else
         (case next_pseudo_inst i of
            None \<Rightarrow> Inl NullDeref
          | Some q \<Rightarrow>
              res_bind (GetArg_Value h q 0) (\<lambda>v.
              res_bind (ASSERT (v = Some def)) (\<lambda>_. unuse_walk n h this def q))))"

definition UnUse :: "inst_heap \<Rightarrow> inst_ptr \<Rightarrow> ir_value \<Rightarrow> inst_heap result" where
  "UnUse h this v =
     (case v of
        None \<Rightarrow> Inl AssertFailed
      | Some def \<Rightarrow>
          res_bind (inst_upd h def (num_use_update (\<lambda>n. n - 1))) (\<lambda>h1.
          res_bind (inst_at h1 this) (\<lambda>i.
            if IsPseudoOperation i then
              res_bind (unuse_walk (Suc (length h1)) h1 this def def) (\<lambda>insert_point.
              res_bind (inst_upd h1 insert_point
                          (next_pseudo_inst_update (\<lambda>_. next_pseudo_inst i))) (\<lambda>h2.
                inst_upd h2 this (next_pseudo_inst_update (\<lambda>_. None))))
            else Inr h1)))"

fun pseudo_search ::
  "nat \<Rightarrow> inst_heap \<Rightarrow> inst_ptr \<Rightarrow> OpCode \<Rightarrow> inst_ptr option \<Rightarrow> inst_ptr option result" where
  "pseudo_search 0 h this code p = Inl Diverges"
| "pseudo_search (Suc n) h this code p =
     (case p of
        None \<Rightarrow> Inr None
      | Some q \<Rightarrow>
          res_bind (inst_at h q) (\<lambda>i.
            if op_code i = code then
              res_bind (GetArg_Value h q 0) (\<lambda>v.
              res_bind (ASSERT (v = Some this)) (\<lambda>_. Inr (Some q)))
            else pseudo_search n h this code (next_pseudo_inst i)))"

definition GetPseudoOperation ::
  "inst_heap \<Rightarrow> inst_ptr \<Rightarrow> OpCode \<Rightarrow> inst_ptr option result" where
  "GetPseudoOperation h this code =
     res_bind (inst_at h this) (\<lambda>i.
       pseudo_search (Suc (length h)) h this code (next_pseudo_inst i))"

definition DestroyArg :: "inst_heap \<Rightarrow> inst_ptr \<Rightarrow> nat \<Rightarrow> inst_heap result" where
  "DestroyArg h this arg_idx =
     res_bind (ArgAt h this arg_idx) (\<lambda>a.
       if IsValue a then res_bind (Get_Value a) (\<lambda>v. UnUse h this v)
       else if IsLambda a then
         res_bind (Get_Lambda a) (\<lambda>l.
           if lambda_IsValue l then res_bind (lambda_GetValue l) (\<lambda>v. UnUse h this v)
           else Inr h)
       else Inr h)"

definition put_arg :: "inst_heap \<Rightarrow> inst_ptr \<Rightarrow> nat \<Rightarrow> Arg \<Rightarrow> inst_heap result" where
  "put_arg h this index a =
     res_bind (inst_at h this) (\<lambda>i.
     res_bind (vec_set (arguments i) index a) (\<lambda>as.
       Inr (h[this := Some (i\<lparr>arguments := as\<rparr>)])))"

text \<open>\<open>SetArg\<close> for every single-slot argument class, and for an operand.\<close>

definition SetArg :: "inst_heap \<Rightarrow> inst_ptr \<Rightarrow> nat \<Rightarrow> Arg \<Rightarrow> inst_heap result" where
  "SetArg h this index a =
     res_bind (DestroyArg h this index) (\<lambda>h1.
     res_bind (put_arg h1 this index a) (\<lambda>h2.
       case a of
         ArgValue v \<Rightarrow> Use h2 this v
       | ArgLambda l \<Rightarrow>
           if lambda_IsValue l then res_bind (lambda_GetValue l) (\<lambda>v. Use h2 this v) else Inr h2
       | _ \<Rightarrow> Inr h2))"

definition use_if_value :: "inst_heap \<Rightarrow> inst_ptr \<Rightarrow> Arg \<Rightarrow> inst_heap result" where
  "use_if_value h this a = (case a of ArgValue v \<Rightarrow> Use h this v | _ \<Rightarrow> Inr h)"

definition SetArg_Operand :: "inst_heap \<Rightarrow> inst_ptr \<Rightarrow> nat \<Rightarrow> Operand \<Rightarrow> inst_heap result" where
  "SetArg_Operand h this index a =
     res_bind (DestroyArg h this index) (\<lambda>h1.
     res_bind (put_arg h1 this index (ArgOperand (od_op a))) (\<lambda>h2.
     res_bind (DestroyArg h2 this (index + 1)) (\<lambda>h3.
     res_bind (put_arg h3 this (index + 1) (od_left a)) (\<lambda>h4.
     res_bind (DestroyArg h4 this (index + 2)) (\<lambda>h5.
     res_bind (put_arg h5 this (index + 2) (od_right a)) (\<lambda>h6.
     res_bind (use_if_value h6 this (od_left a)) (\<lambda>h7.
       use_if_value h7 this (od_right a))))))))"

text \<open>The parameter pack of \<open>SetArgs\<close> and \<open>Create\<close>: single arguments and operands.\<close>

datatype ArgIn = InArg Arg | InOperand Operand

fun set_args_from :: "inst_heap \<Rightarrow> inst_ptr \<Rightarrow> nat \<Rightarrow> ArgIn list \<Rightarrow> inst_heap result" where
  "set_args_from h this index [] = Inr h"
| "set_args_from h this index (InArg a # as) =
     res_bind (SetArg h this index a) (\<lambda>h1.
       set_args_from h1 this (if IsOperand a then index + 3 else index + 1) as)"
| "set_args_from h this index (InOperand od # as) =
     res_bind (SetArg_Operand h this index od) (\<lambda>h1. set_args_from h1 this (index + 3) as)"

definition SetArgs :: "inst_heap \<Rightarrow> inst_ptr \<Rightarrow> ArgIn list \<Rightarrow> inst_heap result" where
  "SetArgs h this as = set_args_from h this 0 as"

definition Create :: "inst_heap \<Rightarrow> OpCode \<Rightarrow> ArgIn list \<Rightarrow> (inst_ptr \<times> inst_heap) result" where
  "Create h op as =
     (let this = length h in
      res_bind (SetArgs (h @ [Some (Inst op)]) this as) (\<lambda>h1. Inr (this, h1)))"

text \<open>
  \<open>Inst::~Inst\<close> gives up every argument; the cell is then returned to the allocator.
\<close>

fun destroy_args :: "inst_heap \<Rightarrow> inst_ptr \<Rightarrow> nat list \<Rightarrow> inst_heap result" where
  "destroy_args h this [] = Inr h"
| "destroy_args h this (i # is) =
     res_bind (DestroyArg h this i) (\<lambda>h1. destroy_args h1 this is)"

definition delete_inst :: "inst_heap \<Rightarrow> inst_ptr \<Rightarrow> inst_heap result" where
  "delete_inst h this =
     res_bind (destroy_args h this [0..<max_args]) (\<lambda>h1. Inr (h1[this := None]))"

text \<open>
  \<open>Inst::Validate\<close>.  The loop runs over all four argument slots and reads the next entry of
  \<open>arg_types\<close> for each, also when the operation has fewer arguments: \<open>oob op k\<close> is what such
  a read yields, the content of the memory \<open>k\<close> entries after the start of the vector of
  \<open>op\<close>, which the program does not determine.
\<close>

definition arg_type_read :: "(OpCode \<Rightarrow> nat \<Rightarrow> ArgType) \<Rightarrow> IRMeta \<Rightarrow> nat \<Rightarrow> ArgType" where
  "arg_type_read oob m k =
     (if k < length (arg_types m) then arg_types m ! k else oob (meta_op m) k)"

function validate_loop ::
  "(OpCode \<Rightarrow> nat \<Rightarrow> ArgType) \<Rightarrow> IRMeta \<Rightarrow> Arg list \<Rightarrow> nat \<Rightarrow> nat \<Rightarrow> unit result" where
  "validate_loop oob m args inner_arg_index arg_index =
     (if inner_arg_index < max_args then
        res_bind (vec_at args inner_arg_index) (\<lambda>inst_arg.
        let arg_type = arg_type_read oob m arg_index in
        res_bind (ASSERT (GetType inst_arg = arg_type)) (\<lambda>_.
          validate_loop oob m args
            (if arg_type = ATOperand then inner_arg_index + 3 else inner_arg_index + 1)
            (arg_index + 1)))
      else Inr ())"
  by pat_completeness auto
termination by (relation "measure (\<lambda>(oob, m, args, i, k). max_args - i)") auto

declare validate_loop.simps [simp del]

definition Validate :: "(OpCode \<Rightarrow> nat \<Rightarrow> ArgType) \<Rightarrow> inst_heap \<Rightarrow> inst_ptr \<Rightarrow> unit result" where
  "Validate oob h p =
     res_bind (inst_at h p) (\<lambda>i.
     res_bind (ASSERT (op_index OpVoid \<le> op_index (op_code i)
                        \<and> op_index (op_code i) < op_index OpCOUNT)) (\<lambda>_.
     if op_code i = OpCallLambda \<or> op_code i = OpCallLocation \<or> op_code i = OpCallDynamic then
       res_bind (vec_at (arguments i) 0) (\<lambda>a. ASSERT (IsLambda a))
     else if op_index OpVoid < op_index (op_code i)
             \<and> op_index (op_code i) < op_index OpBASE_COUNT then
       res_bind (GetIRMetaInfo (op_code i)) (\<lambda>m. validate_loop oob m (arguments i) 0 0)
     else if op_code i = OpSetLocation then
       res_bind (vec_at (arguments i) 0) (\<lambda>a. ASSERT (GetType a = ATImm))
     else ASSERT False))"

lemma inst_at_Inr_iff [ir_simps]: "inst_at h p = Inr i \<longleftrightarrow> p < length h \<and> h ! p = Some i"
  by (auto simp: inst_at_def split: option.splits)

lemma inst_at_some [simp]: "p < length h \<Longrightarrow> h ! p = Some i \<Longrightarrow> inst_at h p = Inr i"
  by (simp add: inst_at_def)

lemma inst_upd_Inr_iff [ir_simps]:
  "inst_upd h p f = Inr h' \<longleftrightarrow> (\<exists>i. p < length h \<and> h ! p = Some i \<and> h' = h[p := Some (f i)])"
  by (auto simp: inst_upd_def res_bind_Inr_iff ir_simps)

section \<open>Use counting\<close>

text \<open>The instruction an argument slot keeps in use.\<close>

fun ref_of :: "Arg \<Rightarrow> ir_value" where
  "ref_of (ArgValue v) = v"
| "ref_of (ArgLambda (LambdaValue v)) = v"
| "ref_of _ = None"

definition count_refs :: "inst_ptr \<Rightarrow> Arg list \<Rightarrow> nat" where
  "count_refs d as = sum_list (map (\<lambda>a. of_bool (ref_of a = Some d)) as)"

text \<open>The two projections of the store that use counting is about.\<close>

definition args_of :: "inst_heap \<Rightarrow> Arg list option list" where
  "args_of h = map (map_option arguments) h"

definition counts :: "inst_heap \<Rightarrow> u8 option list" where
  "counts h = map (map_option num_use) h"

definition uses :: "Arg list option list \<Rightarrow> inst_ptr \<Rightarrow> nat" where
  "uses A d = sum_list (map (\<lambda>c. case c of None \<Rightarrow> 0 | Some as \<Rightarrow> count_refs d as) A)"

definition counts_match :: "u8 option list \<Rightarrow> Arg list option list \<Rightarrow> bool" where
  "counts_match C A \<longleftrightarrow>
     (\<forall>d < length C. \<forall>n. C ! d = Some n \<longrightarrow> n = of_nat (uses A d))"

definition use_inv :: "inst_heap \<Rightarrow> bool" where
  "use_inv h \<longleftrightarrow> counts_match (counts h) (args_of h)"

text \<open>The counters after a reference to \<open>r\<close> was added (\<open>k = 1\<close>) or given up (\<open>k = -1\<close>).\<close>

definition shift :: "u8 option list \<Rightarrow> ir_value \<Rightarrow> u8 \<Rightarrow> u8 option list" where
  "shift C r k = (case r of None \<Rightarrow> C | Some d \<Rightarrow> C[d := map_option (\<lambda>n. n + k) (C ! d)])"

lemma length_args_of [simp]: "length (args_of h) = length h"
  and length_counts [simp]: "length (counts h) = length h"
  by (simp_all add: args_of_def counts_def)

lemma args_of_nth [simp]: "p < length h \<Longrightarrow> args_of h ! p = map_option arguments (h ! p)"
  and counts_nth [simp]: "p < length h \<Longrightarrow> counts h ! p = map_option num_use (h ! p)"
  by (simp_all add: args_of_def counts_def)

lemma args_of_update: "args_of (h[p := c]) = (args_of h)[p := map_option arguments c]"
  and counts_update: "counts (h[p := c]) = (counts h)[p := map_option num_use c]"
  by (simp_all add: args_of_def counts_def map_update)

lemma length_shift [simp]: "length (shift C r k) = length C"
  by (simp add: shift_def split: option.splits)

lemma sum_list_swap:
  fixes xs :: "nat list"
  assumes "i < length xs"
  shows "sum_list (xs[i := x]) + xs ! i = sum_list xs + x"
proof -
  have "xs ! i \<le> sum_list xs" using assms by (simp add: elem_le_sum_list)
  then show ?thesis using assms by (simp add: sum_list_update)
qed

lemma count_refs_swap:
  assumes "i < length as"
  shows "count_refs d (as[i := a]) + of_bool (ref_of (as ! i) = Some d) =
         count_refs d as + of_bool (ref_of a = Some d)"
  using sum_list_swap [of i "map (\<lambda>a. of_bool (ref_of a = Some d)) as"] assms
  by (simp add: count_refs_def map_update)

lemma uses_swap:
  assumes "p < length A" and "A ! p = Some as" and "i < length as"
  shows "uses (A[p := Some (as[i := a])]) d + of_bool (ref_of (as ! i) = Some d) =
         uses A d + of_bool (ref_of a = Some d)"
  using sum_list_swap [of p "map (\<lambda>c. case c of None \<Rightarrow> 0 | Some as \<Rightarrow> count_refs d as) A"
      "count_refs d (as[i := a])"] count_refs_swap [OF assms(3), of d a] assms
  by (simp add: uses_def map_update)

lemma shift_nth:
  "d < length C \<Longrightarrow> shift C r k ! d = map_option (\<lambda>n. if r = Some d then n + k else n) (C ! d)"
  by (cases r; cases "C ! d"; cases "r = Some d") (auto simp: shift_def)

text \<open>Replacing one slot keeps the counters right when both references are accounted for.\<close>

lemma counts_match_swap:
  assumes "counts_match C A" and "p < length A" and "A ! p = Some as" and "i < length as"
  shows "counts_match (shift (shift C (ref_of (as ! i)) (- 1)) (ref_of a) 1)
           (A[p := Some (as[i := a])])"
  unfolding counts_match_def
proof (intro allI impI)
  fix d n
  let ?C = "shift (shift C (ref_of (as ! i)) (- 1)) (ref_of a) 1"
  let ?A = "A[p := Some (as[i := a])]"
  assume d: "d < length ?C" and n: "?C ! d = Some n"
  then have dl: "d < length C" by simp
  then obtain m where m: "C ! d = Some m"
    and nm: "n = m - of_bool (ref_of (as ! i) = Some d) + of_bool (ref_of a = Some d)"
    using n by (auto simp: shift_nth)
  have "m = of_nat (uses A d)" using assms(1) m dl by (simp add: counts_match_def)
  moreover have "(of_nat (uses ?A d) :: u8) + of_bool (ref_of (as ! i) = Some d) =
      of_nat (uses A d) + of_bool (ref_of a = Some d)"
    using arg_cong [OF uses_swap [OF assms(2-4), of a d], of "of_nat :: nat \<Rightarrow> u8"] by simp
  ultimately have "n + of_bool (ref_of (as ! i) = Some d) =
      of_nat (uses ?A d) + of_bool (ref_of (as ! i) = Some d)"
    using nm by simp
  then show "n = of_nat (uses ?A d)" by simp
qed

lemma num_use_step:
  assumes "inst_upd h d (num_use_update (\<lambda>n. n + k)) = Inr h'"
  shows "args_of h' = args_of h \<and> counts h' = shift (counts h) (Some d) k"
  using assms by (auto simp: ir_simps args_of_update counts_update shift_def list_update_same_conv)

lemma next_pseudo_step:
  assumes "inst_upd h d (next_pseudo_inst_update f) = Inr h'"
  shows "args_of h' = args_of h \<and> counts h' = counts h"
  using assms by (auto simp: ir_simps args_of_update counts_update list_update_same_conv)

lemma Use_counts:
  assumes "Use h this v = Inr h'"
  shows "v \<noteq> None \<and> args_of h' = args_of h \<and> counts h' = shift (counts h) v 1"
  using assms
  by (auto simp: Use_def split: option.splits if_splits
      dest!: num_use_step next_pseudo_step elim!: res_bind_InrE)

lemma UnUse_counts:
  assumes "UnUse h this v = Inr h'"
  shows "v \<noteq> None \<and> args_of h' = args_of h \<and> counts h' = shift (counts h) v (- 1)"
  using assms
  by (auto simp: UnUse_def split: option.splits if_splits
      dest!: num_use_step [where k = "- 1", simplified] next_pseudo_step elim!: res_bind_InrE)

lemma DestroyArg_counts:
  assumes "DestroyArg h this i = Inr h'"
  shows "\<exists>as. this < length h \<and> args_of h ! this = Some as \<and> i < length as \<and>
           args_of h' = args_of h \<and> counts h' = shift (counts h) (ref_of (as ! i)) (- 1)"
proof -
  from assms obtain a where a: "ArgAt h this i = Inr a"
    by (auto simp: DestroyArg_def)
  then obtain c where c: "this < length h" "h ! this = Some c" "i < length (arguments c)"
      "arguments c ! i = a"
    by (auto simp: ArgAt_def ir_simps)
  have "args_of h' = args_of h \<and> counts h' = shift (counts h) (ref_of a) (- 1)"
    using assms a
    by (cases a; cases "case a of ArgLambda l \<Rightarrow> l | _ \<Rightarrow> LambdaVoid")
       (auto simp: DestroyArg_def IsValue_def IsLambda_def Get_Value_def Get_Lambda_def
          lambda_IsValue_def lambda_GetValue_def shift_def dest!: UnUse_counts)
  then show ?thesis using c by (intro exI [of _ "arguments c"]) simp
qed

lemma put_arg_effect:
  assumes "put_arg h this i a = Inr h'"
  shows "\<exists>as. this < length h \<and> args_of h ! this = Some as \<and> i < length as \<and>
           args_of h' = (args_of h)[this := Some (as[i := a])] \<and> counts h' = counts h"
  using assms
  by (auto simp: put_arg_def res_bind_Inr_iff ir_simps args_of_update counts_update list_update_same_conv)

lemma SetArg_counts:
  assumes "SetArg h this i a = Inr h'"
  shows "\<exists>as. this < length h \<and> args_of h ! this = Some as \<and> i < length as \<and>
           args_of h' = (args_of h)[this := Some (as[i := a])] \<and>
           counts h' = shift (shift (counts h) (ref_of (as ! i)) (- 1)) (ref_of a) 1"
proof -
  from assms obtain h1 h2 where d: "DestroyArg h this i = Inr h1"
      and pa: "put_arg h1 this i a = Inr h2"
      and u: "(case a of ArgValue v \<Rightarrow> Use h2 this v
        | ArgLambda l \<Rightarrow>
            if lambda_IsValue l then res_bind (lambda_GetValue l) (\<lambda>v. Use h2 this v) else Inr h2
        | _ \<Rightarrow> Inr h2) = Inr h'"
    unfolding SetArg_def by (elim res_bind_InrE)
  have "args_of h' = args_of h2 \<and> counts h' = shift (counts h2) (ref_of a) 1"
    using u by (cases a; cases "case a of ArgLambda l \<Rightarrow> l | _ \<Rightarrow> LambdaVoid")
      (auto simp: lambda_IsValue_def lambda_GetValue_def shift_def dest!: Use_counts)
  then show ?thesis using DestroyArg_counts [OF d] put_arg_effect [OF pa] by auto
qed

lemma use_if_value_counts:
  assumes "use_if_value h this a = Inr h'" and "\<not> IsLambda a"
  shows "args_of h' = args_of h \<and> counts h' = shift (counts h) (ref_of a) 1"
  using assms
  by (cases a) (auto simp: use_if_value_def shift_def IsLambda_def dest!: Use_counts)

lemma shift_commute: "shift (shift C r k) s l = shift (shift C s l) r k"
proof (rule nth_equalityI)
  fix d assume "d < length (shift (shift C r k) s l)"
  then show "shift (shift C r k) s l ! d = shift (shift C s l) r k ! d"
    by (cases "C ! d") (simp_all add: shift_nth)
qed simp

text \<open>
  The invariant of the store: every counter is the number of referring slots modulo 256,
  no slot refers to an address that was never allocated, every instruction has four slots.
\<close>

definition refs_in_range :: "Arg list option list \<Rightarrow> bool" where
  "refs_in_range A \<longleftrightarrow>
     (\<forall>as d. Some as \<in> set A \<longrightarrow> Some d \<in> ref_of ` set as \<longrightarrow> d < length A)"

definition slots_ok :: "Arg list option list \<Rightarrow> bool" where
  "slots_ok A \<longleftrightarrow> (\<forall>as. Some as \<in> set A \<longrightarrow> length as = max_args)"

definition store_inv :: "inst_heap \<Rightarrow> bool" where
  "store_inv h \<longleftrightarrow>
     counts_match (counts h) (args_of h) \<and> refs_in_range (args_of h) \<and> slots_ok (args_of h)"

lemma refs_in_range_swap:
  assumes "refs_in_range A" and "p < length A" and "A ! p = Some as"
    and "\<And>d. ref_of a = Some d \<Longrightarrow> d < length A"
  shows "refs_in_range (A[p := Some (as[i := a])])"
  unfolding refs_in_range_def
proof (intro allI impI)
  fix bs d
  assume bs: "Some bs \<in> set (A[p := Some (as[i := a])])" and d: "Some d \<in> ref_of ` set bs"
  have A: "Some as \<in> set A" using assms(2,3) by (metis nth_mem)
  from d obtain b where b: "b \<in> set bs" "ref_of b = Some d" by force
  have "d < length A"
  proof (cases "bs = as[i := a]")
    case True
    then have "b = a \<or> b \<in> set as" using b(1) set_update_subset_insert [of as i a] by auto
    then show ?thesis
    proof
      assume "b \<in> set as"
      then have "Some d \<in> ref_of ` set as" using b(2) by force
      then show ?thesis using A assms(1) unfolding refs_in_range_def by blast
    qed (use b(2) assms(4) in simp)
  next
    case False
    then have "Some bs \<in> set A"
      using bs set_update_subset_insert [of A p "Some (as[i := a])"] by auto
    then show ?thesis using d assms(1) unfolding refs_in_range_def by blast
  qed
  then show "d < length (A[p := Some (as[i := a])])" by simp
qed

lemma slots_ok_swap:
  assumes "slots_ok A" and "p < length A" and "A ! p = Some as"
  shows "slots_ok (A[p := Some (as[i := a])])"
  using assms set_update_subset_insert [of A p "Some (as[i := a])"]
  by (fastforce simp: slots_ok_def dest: nth_mem)

lemma Use_live: "Use h this (Some d) = Inr h' \<Longrightarrow> d < length h"
  by (auto simp: Use_def ir_simps elim!: res_bind_InrE)

lemma SetArg_live:
  assumes "SetArg h this i a = Inr h'" and "ref_of a = Some d"
  shows "d < length h"
proof -
  from assms(1) obtain h1 h2 where d: "DestroyArg h this i = Inr h1"
      and pa: "put_arg h1 this i a = Inr h2"
      and u: "(case a of ArgValue v \<Rightarrow> Use h2 this v
        | ArgLambda l \<Rightarrow>
            if lambda_IsValue l then res_bind (lambda_GetValue l) (\<lambda>v. Use h2 this v) else Inr h2
        | _ \<Rightarrow> Inr h2) = Inr h'"
    unfolding SetArg_def by (elim res_bind_InrE)
  have "length h2 = length h"
    using DestroyArg_counts [OF d] put_arg_effect [OF pa] by (metis length_args_of length_list_update)
  moreover have "d < length h2"
    using u assms(2)
    by (cases a; cases "case a of ArgLambda l \<Rightarrow> l | _ \<Rightarrow> LambdaVoid")
       (auto simp: lambda_IsValue_def lambda_GetValue_def dest: Use_live)
  ultimately show ?thesis by simp
qed

lemma SetArg_store_inv:
  assumes "store_inv h" and "SetArg h this i a = Inr h'"
  shows "store_inv h'"
proof -
  from SetArg_counts [OF assms(2)] obtain as where as: "this < length (args_of h)"
      "args_of h ! this = Some as" "i < length as"
      "args_of h' = (args_of h)[this := Some (as[i := a])]"
      "counts h' = shift (shift (counts h) (ref_of (as ! i)) (- 1)) (ref_of a) 1"
    by auto
  show ?thesis
    using assms(1) counts_match_swap [OF _ as(1-3), of "counts h" a] slots_ok_swap [OF _ as(1,2)]
      refs_in_range_swap [OF _ as(1,2), of a i] SetArg_live [OF assms(2)] as(4,5)
    by (simp add: store_inv_def)
qed

lemma shift_None [simp]: "shift C None k = C"
  by (simp add: shift_def)

definition operand_wf :: "Operand \<Rightarrow> bool" where
  "operand_wf od \<longleftrightarrow> \<not> IsLambda (od_left od) \<and> \<not> IsLambda (od_right od)"

lemma use_if_value_live:
  assumes "use_if_value h this a = Inr h'" and "\<not> IsLambda a" and "ref_of a = Some d"
  shows "d < length h"
  using assms by (cases a) (auto simp: use_if_value_def IsLambda_def dest: Use_live)

text \<open>
  The state between the two halves of an operand: giving up the old slot and storing the
  new one leaves the counters short of exactly the new reference.
\<close>

lemma slot_replaced:
  assumes "DestroyArg h this i = Inr h1" and "put_arg h1 this i a = Inr h2"
  shows "\<exists>as. this < length (args_of h) \<and> args_of h ! this = Some as \<and> i < length as \<and>
           args_of h2 = (args_of h)[this := Some (as[i := a])] \<and>
           counts h2 = shift (counts h) (ref_of (as ! i)) (- 1)"
  using DestroyArg_counts [OF assms(1)] put_arg_effect [OF assms(2)] by auto

lemma slot_replaced_match:
  assumes "DestroyArg h this i = Inr h1" and "put_arg h1 this i a = Inr h2"
    and "counts_match (shift (shift (counts h) r 1) s 1) (args_of h)"
    and "slots_ok (args_of h)"
  shows "counts_match (shift (shift (shift (counts h2) r 1) s 1) (ref_of a) 1) (args_of h2)
         \<and> slots_ok (args_of h2)"
proof -
  from slot_replaced [OF assms(1,2)] obtain as where as: "this < length (args_of h)"
      "args_of h ! this = Some as" "i < length as"
      "args_of h2 = (args_of h)[this := Some (as[i := a])]"
      "counts h2 = shift (counts h) (ref_of (as ! i)) (- 1)"
    by auto
  have "shift (shift (shift (counts h2) r 1) s 1) (ref_of a) 1 =
        shift (shift (shift (shift (counts h) r 1) s 1) (ref_of (as ! i)) (- 1)) (ref_of a) 1"
    unfolding as(5) by (metis shift_commute)
  then show ?thesis
    using counts_match_swap [OF assms(3) as(1-3), of a] slots_ok_swap [OF assms(4) as(1,2)] as(4)
    by simp
qed

lemma SetArg_Operand_store_inv:
  assumes "store_inv h" and "SetArg_Operand h this i od = Inr h'" and "operand_wf od"
  shows "store_inv h'"
proof -
  let ?l = "od_left od" and ?r = "od_right od"
  from assms(2) obtain h1 h2 h3 h4 h5 h6 h7 where
      s1: "DestroyArg h this i = Inr h1" "put_arg h1 this i (ArgOperand (od_op od)) = Inr h2"
    and s2: "DestroyArg h2 this (i + 1) = Inr h3" "put_arg h3 this (i + 1) ?l = Inr h4"
    and s3: "DestroyArg h4 this (i + 2) = Inr h5" "put_arg h5 this (i + 2) ?r = Inr h6"
    and u: "use_if_value h6 this ?l = Inr h7" "use_if_value h7 this ?r = Inr h'"
    unfolding SetArg_Operand_def by (elim res_bind_InrE)
  have wl: "\<not> IsLambda ?l" and wr: "\<not> IsLambda ?r" using assms(3) by (simp_all add: operand_wf_def)
  note a7 = use_if_value_counts [OF u(1) wl] and a8 = use_if_value_counts [OF u(2) wr]
  have len: "length h2 = length h" "length h4 = length h" "length h6 = length h"
      "length h7 = length h"
    using slot_replaced [OF s1] slot_replaced [OF s2] slot_replaced [OF s3] a7
    by (metis length_args_of length_list_update)+
  have live: "ref_of ?l = Some d \<Longrightarrow> d < length h" "ref_of ?r = Some d \<Longrightarrow> d < length h" for d
    using use_if_value_live [OF u(1) wl] use_if_value_live [OF u(2) wr] len by auto
  have "counts_match (shift (shift (counts h) None 1) None 1) (args_of h)" "slots_ok (args_of h)"
    using assms(1) by (simp_all add: store_inv_def)
  from slot_replaced_match [OF s1 this]
  have "counts_match (shift (shift (counts h2) None 1) None 1) (args_of h2)" "slots_ok (args_of h2)"
    by simp_all
  from slot_replaced_match [OF s2 this]
  have "counts_match (shift (shift (counts h4) None 1) (ref_of ?l) 1) (args_of h4)"
      "slots_ok (args_of h4)"
    by simp_all
  from slot_replaced_match [OF s3 this]
  have "counts_match (counts h') (args_of h')" "slots_ok (args_of h')"
    using a7 a8 by simp_all
  moreover have "refs_in_range (args_of h2)"
    using slot_replaced [OF s1] assms(1) refs_in_range_swap by (fastforce simp: store_inv_def)
  then have "refs_in_range (args_of h4)"
    using slot_replaced [OF s2] refs_in_range_swap [of "args_of h2"] live len by fastforce
  then have "refs_in_range (args_of h6)"
    using slot_replaced [OF s3] refs_in_range_swap [of "args_of h4"] live len by fastforce
  ultimately show ?thesis using a7 a8 by (simp add: store_inv_def)
qed

fun arg_in_wf :: "ArgIn \<Rightarrow> bool" where
  "arg_in_wf (InArg _) = True"
| "arg_in_wf (InOperand od) = operand_wf od"

lemma set_args_from_store_inv:
  "store_inv h \<Longrightarrow> set_args_from h this i as = Inr h' \<Longrightarrow> list_all arg_in_wf as \<Longrightarrow> store_inv h'"
  by (induction h this i as rule: set_args_from.induct)
     (auto intro: SetArg_store_inv SetArg_Operand_store_inv elim!: res_bind_InrE)

lemma uses_append: "uses (A @ [Some (replicate n ArgVoid)]) d = uses A d"
  by (simp add: uses_def count_refs_def sum_list_replicate)

lemma count_refs_none: "(\<And>a. a \<in> set as \<Longrightarrow> ref_of a \<noteq> Some d) \<Longrightarrow> count_refs d as = 0"
  by (induction as) (auto simp: count_refs_def)

lemma uses_out_of_range:
  assumes "refs_in_range A" shows "uses A (length A) = 0"
proof -
  have "(case c of None \<Rightarrow> 0 | Some as \<Rightarrow> count_refs (length A) as) = 0" if "c \<in> set A" for c
  proof (cases c)
    case (Some as)
    have "ref_of a \<noteq> Some (length A)" if "a \<in> set as" for a
      using assms \<open>c \<in> set A\<close> Some that unfolding refs_in_range_def
      by (metis imageI less_irrefl)
    then show ?thesis using Some by (simp add: count_refs_none)
  qed simp
  then show ?thesis unfolding uses_def by (simp add: sum_list_eq_0_iff)
qed

lemma store_inv_new:
  assumes "store_inv h" shows "store_inv (h @ [Some (Inst op)])"
proof -
  have A: "args_of (h @ [Some (Inst op)]) = args_of h @ [Some (replicate max_args ArgVoid)]"
    and C: "counts (h @ [Some (Inst op)]) = counts h @ [Some 0]"
    by (simp_all add: args_of_def counts_def Inst_def)
  have u: "uses (args_of h) (length h) = 0"
    using uses_out_of_range [of "args_of h"] assms by (simp add: store_inv_def)
  have "counts_match (counts h @ [Some 0]) (args_of h @ [Some (replicate max_args ArgVoid)])"
    using assms u unfolding counts_match_def store_inv_def
    by (auto simp: uses_append nth_append less_Suc_eq)
  moreover have "refs_in_range (args_of h @ [Some (replicate max_args ArgVoid)])"
    using assms unfolding store_inv_def refs_in_range_def by (fastforce intro: less_SucI)
  moreover have "slots_ok (args_of h @ [Some (replicate max_args ArgVoid)])"
    using assms unfolding store_inv_def slots_ok_def by auto
  ultimately show ?thesis by (simp add: store_inv_def A C)
qed

lemma Create_store_inv:
  assumes "store_inv h" and "Create h op as = Inr (p, h')" and "list_all arg_in_wf as"
  shows "store_inv h'"
  using assms(2) set_args_from_store_inv [OF store_inv_new [OF assms(1)] _ assms(3)]
  by (auto simp: Create_def SetArgs_def Let_def elim!: res_bind_InrE)

text \<open>Giving up slots one after the other is, for the counters, storing \<open>Void\<close> in them.\<close>

lemma destroy_args_match:
  assumes "destroy_args h this is = Inr h'" and "distinct is"
    and "args_of h ! this = Some as" and "this < length h" and "length bs = length as"
    and "\<And>i. i \<in> set is \<Longrightarrow> bs ! i = as ! i"
    and "counts_match (counts h) ((args_of h)[this := Some bs])"
  shows "args_of h' = args_of h \<and>
         counts_match (counts h')
           ((args_of h)[this := Some (fold (\<lambda>i bs. bs[i := ArgVoid]) is bs)])"
  using assms
proof (induction "is" arbitrary: h bs)
  case (Cons i "is")
  from Cons.prems(1) obtain h1 where d: "DestroyArg h this i = Inr h1"
      and r: "destroy_args h1 this is = Inr h'"
    by auto
  have i: "i < length bs" and A: "args_of h1 = args_of h"
    and C: "counts h1 = shift (counts h) (ref_of (bs ! i)) (- 1)"
    using DestroyArg_counts [OF d] Cons.prems(3,5,6) by auto
  have "counts_match (counts h1) ((args_of h1)[this := Some (bs[i := ArgVoid])])"
    using counts_match_swap [OF Cons.prems(7), of this bs i ArgVoid] Cons.prems(4) i A C by simp
  moreover have "length h1 = length h" using A by (metis length_args_of)
  moreover have "bs[i := ArgVoid] ! k = as ! k" if "k \<in> set is" for k
    using that Cons.prems(2,6) by (metis distinct.simps(2) list.set_intros(2) nth_list_update_neq)
  ultimately show ?case
    using Cons.IH [OF r, of "bs[i := ArgVoid]"] Cons.prems(2-5) A by simp
qed simp

lemma fold_void:
  "length bs = 4 \<Longrightarrow> fold (\<lambda>i bs. bs[i := ArgVoid]) [0..<4] bs = replicate 4 ArgVoid"
  by (rule nth_equalityI) (auto simp: upt_rec [of _ 4] numeral_eq_Suc less_Suc_eq nth_list_update)

lemma uses_void_slot:
  assumes "p < length A"
  shows "uses (A[p := Some (replicate n ArgVoid)]) d = uses (A[p := None]) d"
  using assms by (simp add: uses_def map_update count_refs_def sum_list_replicate)

lemma delete_inst_store_inv:
  assumes "store_inv h" and "delete_inst h p = Inr h'"
  shows "store_inv h'"
proof -
  from assms(2) obtain h1 where d: "destroy_args h p [0..<max_args] = Inr h1"
      and h': "h' = h1[p := None]"
    by (auto simp: delete_inst_def)
  have "[0..<max_args] = 0 # [1..<4]" by (simp add: max_args_def upt_rec)
  then obtain g where "DestroyArg h p 0 = Inr g" using d by auto
  from DestroyArg_counts [OF this] obtain as where as: "p < length h" "args_of h ! p = Some as" by auto
  then have "Some as \<in> set (args_of h)" by (metis length_args_of nth_mem)
  then have l4: "length as = 4" using assms(1)
    by (simp add: store_inv_def slots_ok_def max_args_def)
  have same: "(args_of h)[p := Some as] = args_of h" using as(2) by (metis list_update_id)
  have A: "args_of h1 = args_of h"
    and M: "counts_match (counts h1) ((args_of h)[p := Some (replicate 4 ArgVoid)])"
    using destroy_args_match [OF d _ as(2,1), of as] assms(1) fold_void [OF l4] same
    by (simp_all add: store_inv_def max_args_def)
  have "p < length h1" using A as(1) by (metis length_args_of)
  then have "counts_match (counts h') (args_of h')"
    using M as(1) A unfolding counts_match_def h'
    by (simp add: args_of_update counts_update uses_void_slot nth_list_update)
  moreover have "set (args_of h') \<subseteq> insert None (set (args_of h))" "length h' = length h"
    unfolding h' args_of_update A [symmetric]
    using set_update_subset_insert [of "args_of h1" p None] A by (auto dest: arg_cong [of _ _ length])
  ultimately show ?thesis using assms(1)
    unfolding store_inv_def refs_in_range_def slots_ok_def by auto
qed

section \<open>Laying out arguments\<close>

text \<open>The operation codes and the liveness of the cells, which no argument update changes.\<close>

definition ops_of :: "inst_heap \<Rightarrow> OpCode option list" where
  "ops_of h = map (map_option op_code) h"

lemma length_ops_of [simp]: "length (ops_of h) = length h"
  by (simp add: ops_of_def)

lemma ops_of_nth [simp]: "p < length h \<Longrightarrow> ops_of h ! p = map_option op_code (h ! p)"
  by (simp add: ops_of_def)

lemma ops_of_update: "ops_of (h[p := c]) = (ops_of h)[p := map_option op_code c]"
  by (simp add: ops_of_def map_update)

definition live :: "OpCode option list \<Rightarrow> ir_value \<Rightarrow> bool" where
  "live ops v \<longleftrightarrow> (\<exists>d < length ops. v = Some d \<and> ops ! d \<noteq> None)"

definition is_pseudo_op :: "OpCode \<Rightarrow> bool" where
  "is_pseudo_op op \<longleftrightarrow> IsPseudoOperation (Inst op)"

lemma IsPseudoOperation_op: "IsPseudoOperation i = is_pseudo_op (op_code i)"
  by (simp add: is_pseudo_op_def IsPseudoOperation_def Inst_def)

fun arg_live :: "OpCode option list \<Rightarrow> Arg \<Rightarrow> bool" where
  "arg_live ops (ArgValue v) = live ops v"
| "arg_live ops (ArgLambda (LambdaValue v)) = live ops v"
| "arg_live ops _ = True"

lemma inst_upd_ops:
  "inst_upd h p f = Inr h' \<Longrightarrow> (\<And>i. op_code (f i) = op_code i) \<Longrightarrow> ops_of h' = ops_of h"
  by (auto simp: ir_simps ops_of_update list_update_same_conv)

lemma Use_ops: "Use h this v = Inr h' \<Longrightarrow> ops_of h' = ops_of h"
  by (auto simp: Use_def dest!: inst_upd_ops split: option.splits if_splits elim!: res_bind_InrE)

lemma UnUse_ops: "UnUse h this v = Inr h' \<Longrightarrow> ops_of h' = ops_of h"
  by (auto simp: UnUse_def dest!: inst_upd_ops split: option.splits if_splits elim!: res_bind_InrE)

lemma Use_total:
  assumes "this < length h" and "ops_of h ! this = Some op" and "\<not> is_pseudo_op op"
    and "live (ops_of h) v"
  shows "\<exists>h'. Use h this v = Inr h'"
proof -
  from assms(4) obtain d i where d: "v = Some d" "d < length h" "h ! d = Some i"
    by (auto simp: live_def)
  from assms(1,2) obtain j where j: "h ! this = Some j" "op_code j = op" by auto
  let ?h = "h[d := Some (num_use_update (\<lambda>n. n + 1) i)]"
  have u: "inst_upd h d (num_use_update (\<lambda>n. n + 1)) = Inr ?h"
    using d by (auto simp: ir_simps)
  have "\<exists>k. inst_at ?h this = Inr k \<and> op_code k = op"
    using j d assms(1) by (cases "d = this") (auto simp: ir_simps)
  then obtain k where "inst_at ?h this = Inr k" "op_code k = op" by blast
  then show ?thesis using u d(1) assms(3) by (simp add: Use_def IsPseudoOperation_op)
qed

text \<open>Storing an argument in an empty slot succeeds and changes nothing but that slot.\<close>

lemma SetArg_fresh:
  assumes "this < length h" and "ops_of h ! this = Some op" and "\<not> is_pseudo_op op"
    and "args_of h ! this = Some as" and "i < length as" and "as ! i = ArgVoid"
    and "arg_live (ops_of h) a"
  shows "\<exists>h'. SetArg h this i a = Inr h' \<and> ops_of h' = ops_of h \<and>
              args_of h' = (args_of h)[this := Some (as[i := a])]"
proof -
  from assms(1,4) obtain c where c: "h ! this = Some c" "arguments c = as" by auto
  have D: "DestroyArg h this i = Inr h"
    using assms(1,5,6) c
    by (simp add: DestroyArg_def ArgAt_def IsValue_def IsLambda_def)
  let ?h = "h[this := Some (c\<lparr>arguments := as[i := a]\<rparr>)]"
  have P: "put_arg h this i a = Inr ?h"
    using assms(1,5) c by (simp add: put_arg_def)
  have O: "ops_of ?h = ops_of h"
    using c assms(1) by (simp add: ops_of_update list_update_same_conv)
  have "\<exists>h'. SetArg h this i a = Inr h' \<and> ops_of h' = ops_of h"
  proof (cases "case a of ArgValue v \<Rightarrow> v | ArgLambda (LambdaValue v) \<Rightarrow> v | _ \<Rightarrow> None")
    case None
    then show ?thesis
      using D P O assms(7)
      by (cases a; cases "case a of ArgLambda l \<Rightarrow> l | _ \<Rightarrow> LambdaVoid")
         (auto simp: SetArg_def lambda_IsValue_def live_def)
  next
    case (Some d)
    have "live (ops_of ?h) (Some d)"
      using Some assms(7) O by (cases a; cases "case a of ArgLambda l \<Rightarrow> l | _ \<Rightarrow> LambdaVoid") auto
    then obtain h' where "Use ?h this (Some d) = Inr h'"
      using Use_total [of this ?h op "Some d"] assms(1,2,3) O by auto
    moreover from this have "ops_of h' = ops_of h" using Use_ops O by metis
    ultimately show ?thesis
      using D P Some by (cases a; cases "case a of ArgLambda l \<Rightarrow> l | _ \<Rightarrow> LambdaVoid")
        (auto simp: SetArg_def lambda_IsValue_def lambda_GetValue_def)
  qed
  then show ?thesis using SetArg_counts assms(4) by fastforce
qed

lemma slot_fresh:
  assumes "this < length h" and "args_of h ! this = Some as" and "i < length as"
    and "as ! i = ArgVoid"
  shows "DestroyArg h this i = Inr h \<and>
         (\<exists>h2. put_arg h this i a = Inr h2 \<and> ops_of h2 = ops_of h \<and>
               args_of h2 = (args_of h)[this := Some (as[i := a])])"
proof -
  from assms(1,2) obtain c where c: "h ! this = Some c" "arguments c = as" by auto
  then show ?thesis
    using assms by (simp add: DestroyArg_def ArgAt_def IsValue_def IsLambda_def put_arg_def
        ops_of_update args_of_update list_update_same_conv)
qed

lemma use_if_value_total:
  assumes "this < length h" and "ops_of h ! this = Some op" and "\<not> is_pseudo_op op"
    and "arg_live (ops_of h) a"
  shows "\<exists>h'. use_if_value h this a = Inr h' \<and> ops_of h' = ops_of h \<and> args_of h' = args_of h"
  using assms Use_total [OF assms(1-3)] Use_ops Use_counts
  by (cases a) (fastforce simp: use_if_value_def)+

lemma SetArg_Operand_fresh:
  assumes th: "this < length h" "ops_of h ! this = Some op" "\<not> is_pseudo_op op"
    and as: "args_of h ! this = Some as" "i + 2 < length as"
    and void: "as ! i = ArgVoid" "as ! (i + 1) = ArgVoid" "as ! (i + 2) = ArgVoid"
    and live: "arg_live (ops_of h) (od_left od)" "arg_live (ops_of h) (od_right od)"
  shows "\<exists>h'. SetArg_Operand h this i od = Inr h' \<and> ops_of h' = ops_of h \<and>
              args_of h' = (args_of h)[this := Some (as[i := ArgOperand (od_op od),
                                        i + 1 := od_left od, i + 2 := od_right od])]"
proof -
  obtain h2 where h2: "DestroyArg h this i = Inr h"
      "put_arg h this i (ArgOperand (od_op od)) = Inr h2" "ops_of h2 = ops_of h"
      "args_of h2 = (args_of h)[this := Some (as[i := ArgOperand (od_op od)])]"
    using slot_fresh [OF th(1) as(1), of i] as(2) void(1) by auto
  have l2: "length h2 = length h" using h2(3) by (metis length_ops_of)
  obtain h4 where h4: "DestroyArg h2 this (i + 1) = Inr h2"
      "put_arg h2 this (i + 1) (od_left od) = Inr h4" "ops_of h4 = ops_of h"
      "args_of h4 = (args_of h)[this := Some (as[i := ArgOperand (od_op od), i + 1 := od_left od])]"
    using slot_fresh [of this h2 "as[i := ArgOperand (od_op od)]" "i + 1"] th(1) as(2) void(2) h2 l2
    by auto
  have l4: "length h4 = length h" using h4(3) by (metis length_ops_of)
  obtain h6 where h6: "DestroyArg h4 this (i + 2) = Inr h4"
      "put_arg h4 this (i + 2) (od_right od) = Inr h6" "ops_of h6 = ops_of h"
      "args_of h6 = (args_of h)[this := Some (as[i := ArgOperand (od_op od), i + 1 := od_left od,
                                              i + 2 := od_right od])]"
    using slot_fresh [of this h4 "as[i := ArgOperand (od_op od), i + 1 := od_left od]" "i + 2"]
      th(1) as(2) void(3) h4 l4
    by auto
  have l6: "length h6 = length h" using h6(3) by (metis length_ops_of)
  obtain h7 where h7: "use_if_value h6 this (od_left od) = Inr h7" "ops_of h7 = ops_of h"
      "args_of h7 = args_of h6"
    using use_if_value_total [of this h6 op "od_left od"] th live l6 h6(3) by auto
  have l7: "length h7 = length h" using h7(2) by (metis length_ops_of)
  obtain h8 where "use_if_value h7 this (od_right od) = Inr h8" "ops_of h8 = ops_of h"
      "args_of h8 = args_of h6"
    using use_if_value_total [of this h7 op "od_right od"] th live l7 h7(2,3) by auto
  then show ?thesis using h2 h4 h6 h7 by (simp add: SetArg_Operand_def)
qed

text \<open>The slots a parameter pack fills.\<close>

fun slots_of :: "ArgIn list \<Rightarrow> Arg list" where
  "slots_of [] = []"
| "slots_of (InArg a # as) = a # slots_of as"
| "slots_of (InOperand od # as) = ArgOperand (od_op od) # od_left od # od_right od # slots_of as"

fun plain_arg :: "ArgIn \<Rightarrow> bool" where
  "plain_arg (InArg a) = (\<not> IsOperand a)"
| "plain_arg (InOperand od) = True"

lemma set_args_from_fresh:
  assumes "this < length h" and "ops_of h ! this = Some op" and "\<not> is_pseudo_op op"
    and "args_of h ! this = Some (ps @ replicate n ArgVoid)" and "i = length ps"
    and "length (slots_of as) \<le> n" and "list_all plain_arg as"
    and "list_all (arg_live (ops_of h)) (slots_of as)"
  shows "\<exists>h'. set_args_from h this i as = Inr h' \<and> ops_of h' = ops_of h \<and>
              args_of h' = (args_of h)[this :=
                Some (ps @ slots_of as @ replicate (n - length (slots_of as)) ArgVoid)]"
  using assms
proof (induction as arbitrary: h i ps n)
  case Nil
  then have "(args_of h)[this := Some (ps @ replicate n ArgVoid)] = args_of h"
    by (metis list_update_id)
  then show ?case by simp
next
  case (Cons x xs)
  show ?case
  proof (cases x)
    case (InArg a)
    from Cons.prems InArg obtain m where n: "n = Suc m" by (cases n) auto
    have up: "(ps @ replicate n ArgVoid)[i := a] = (ps @ [a]) @ replicate m ArgVoid"
      using Cons.prems(5) n by (simp add: list_update_append)
    obtain h1 where h1: "SetArg h this i a = Inr h1" "ops_of h1 = ops_of h"
        "args_of h1 = (args_of h)[this := Some ((ps @ [a]) @ replicate m ArgVoid)]"
      using SetArg_fresh [OF Cons.prems(1-4), of i a] Cons.prems(5,8) InArg n up
      by (auto simp: nth_append)
    have "length h1 = length h" using h1(2) by (metis length_ops_of)
    then show ?thesis
      using Cons.IH [of h1 "ps @ [a]" m "Suc i"] Cons.prems InArg n h1 by auto
  next
    case (InOperand od)
    from Cons.prems InOperand obtain m where n: "n = Suc (Suc (Suc m))"
      by (metis add_diff_inverse_nat length_Cons not_less_eq_eq plus_nat.simps(2) Suc_le_D
          Suc_le_mono slots_of.simps(3))
    let ?ops = "[ArgOperand (od_op od), od_left od, od_right od]"
    have up: "(ps @ replicate n ArgVoid)[i := ArgOperand (od_op od), i + 1 := od_left od,
        i + 2 := od_right od] = (ps @ ?ops) @ replicate m ArgVoid"
      using Cons.prems(5) n by (simp add: list_update_append)
    obtain h1 where h1: "SetArg_Operand h this i od = Inr h1" "ops_of h1 = ops_of h"
        "args_of h1 = (args_of h)[this := Some ((ps @ ?ops) @ replicate m ArgVoid)]"
      using SetArg_Operand_fresh [OF Cons.prems(1-4), of i od] Cons.prems(5,8) InOperand n up
      by (auto simp: nth_append)
    have "length h1 = length h" using h1(2) by (metis length_ops_of)
    then show ?thesis
      using Cons.IH [of h1 "ps @ ?ops" m "i + 3"] Cons.prems InOperand n h1 by auto
  qed
qed

lemma live_append: "live ops v \<Longrightarrow> live (ops @ xs) v"
  by (auto simp: live_def nth_append)

lemma arg_live_append: "arg_live ops a \<Longrightarrow> arg_live (ops @ xs) a"
  by (cases a; cases "case a of ArgLambda l \<Rightarrow> l | _ \<Rightarrow> LambdaVoid") (auto intro: live_append)

lemma GetArg_Operand_slots:
  assumes "p < length h" and "args_of h ! p = Some (xs @ ArgOperand (od_op od) # od_left od #
      od_right od # ys)"
  shows "GetArg_Operand h p (length xs) = Inr (od :: Operand)"
  using assms
  by (auto simp: GetArg_Operand_def ArgAt_def IsOperand_def Get_OperandOp_def nth_append)

text \<open>Creation of an ordinary operation succeeds and lays out the arguments.\<close>

lemma Create_layout:
  assumes "\<not> is_pseudo_op op" and "length (slots_of as) \<le> 4"
    and "list_all plain_arg as" and "list_all (arg_live (ops_of h)) (slots_of as)"
  shows "\<exists>h'. Create h op as = Inr (length h, h') \<and> ops_of h' = ops_of h @ [Some op] \<and>
              args_of h' =
                args_of h @ [Some (slots_of as @ replicate (4 - length (slots_of as)) ArgVoid)]"
proof -
  let ?h = "h @ [Some (Inst op)]"
  have o: "ops_of ?h = ops_of h @ [Some op]"
    and a: "args_of ?h = args_of h @ [Some (replicate 4 ArgVoid)]"
    by (simp_all add: ops_of_def args_of_def Inst_def max_args_def)
  have "list_all (arg_live (ops_of ?h)) (slots_of as)"
    using assms(4) unfolding o by (auto simp: list_all_iff intro: arg_live_append)
  moreover have "ops_of ?h ! length h = Some op"
      "args_of ?h ! length h = Some ([] @ replicate 4 ArgVoid)"
    unfolding o a by (simp_all add: nth_append)
  ultimately obtain h' where "set_args_from ?h (length h) 0 as = Inr h'" "ops_of h' = ops_of ?h"
      "args_of h' = (args_of ?h)[length h :=
         Some ([] @ slots_of as @ replicate (4 - length (slots_of as)) ArgVoid)]"
    using set_args_from_fresh [of "length h" ?h op "[]" 4 0 as] assms(1-3) by auto
  then show ?thesis by (simp add: Create_def SetArgs_def o a list_update_append)
qed

section \<open>The chain of pseudo operations\<close>

definition nexts :: "inst_heap \<Rightarrow> inst_ptr option option list" where
  "nexts h = map (map_option next_pseudo_inst) h"

fun chain :: "inst_ptr option option list \<Rightarrow> inst_ptr \<Rightarrow> inst_ptr list \<Rightarrow> bool" where
  "chain N p [] \<longleftrightarrow> p < length N \<and> N ! p = Some None"
| "chain N p (q # qs) \<longleftrightarrow> p < length N \<and> N ! p = Some (Some q) \<and> chain N q qs"

text \<open>The pseudo operations whose first argument is the value of \<open>d\<close>.\<close>

definition users :: "Arg list option list \<Rightarrow> OpCode option list \<Rightarrow> inst_ptr \<Rightarrow> inst_ptr set" where
  "users A Ops d =
     {q. q < length Ops \<and> (\<exists>op. Ops ! q = Some op \<and> is_pseudo_op op) \<and>
         (\<exists>as. A ! q = Some (ArgValue (Some d) # as))}"

text \<open>
  Every instruction that is not a pseudo operation heads the chain of exactly its pseudo
  users; a pseudo operation has one argument, the value of an instruction that is not a
  pseudo operation.
\<close>

definition pseudo_cell ::
  "inst_ptr option option list \<Rightarrow> Arg list option list \<Rightarrow> OpCode option list \<Rightarrow> inst_ptr \<Rightarrow> bool" where
  "pseudo_cell N A Ops d \<longleftrightarrow>
     (A ! d = Some (replicate 4 ArgVoid) \<and> N ! d = Some None) \<or>
     (\<exists>e op. A ! d = Some (ArgValue (Some e) # replicate 3 ArgVoid) \<and>
             e < length Ops \<and> Ops ! e = Some op \<and> \<not> is_pseudo_op op)"

definition head_cell ::
  "inst_ptr option option list \<Rightarrow> Arg list option list \<Rightarrow> OpCode option list \<Rightarrow> inst_ptr \<Rightarrow> bool" where
  "head_cell N A Ops d \<longleftrightarrow> (\<exists>qs. chain N d qs \<and> distinct qs \<and> set qs = users A Ops d)"

definition chain_ok ::
  "inst_ptr option option list \<Rightarrow> Arg list option list \<Rightarrow> OpCode option list \<Rightarrow> bool" where
  "chain_ok N A Ops \<longleftrightarrow>
     (\<forall>d < length Ops. \<forall>op. Ops ! d = Some op \<longrightarrow>
        (if is_pseudo_op op then pseudo_cell N A Ops d else head_cell N A Ops d))"

definition chain_inv :: "inst_heap \<Rightarrow> bool" where
  "chain_inv h \<longleftrightarrow> chain_ok (nexts h) (args_of h) (ops_of h)"

lemma length_nexts [simp]: "length (nexts h) = length h"
  by (simp add: nexts_def)

lemma nexts_nth [simp]: "p < length h \<Longrightarrow> nexts h ! p = map_option next_pseudo_inst (h ! p)"
  by (simp add: nexts_def)

lemma nexts_update: "nexts (h[p := c]) = (nexts h)[p := map_option next_pseudo_inst c]"
  by (simp add: nexts_def map_update)

lemma chain_frame: "x \<notin> set (p # qs) \<Longrightarrow> chain (N[x := v]) p qs \<longleftrightarrow> chain N p qs"
  by (induction qs arbitrary: p) auto

lemma chain_append:
  "chain N p qs \<Longrightarrow> x = Some None \<Longrightarrow> distinct (p # qs) \<Longrightarrow>
   chain ((N @ [x])[last (p # qs) := Some (Some (length N))]) p (qs @ [length N])"
proof (induction qs arbitrary: p)
  case (Cons q qs)
  have "last (q # qs) \<noteq> p" using Cons.prems(3) last_in_set [of "q # qs"] by auto
  moreover have "last (p # q # qs) = last (q # qs)" by simp
  ultimately show ?case using Cons by (auto simp: nth_append simp del: last.simps)
qed (simp add: nth_append)

lemma chain_extend: "chain N p qs \<Longrightarrow> chain (N @ [x]) p qs"
  by (induction qs arbitrary: p) (auto simp: nth_append)

text \<open>Unlinking a member: its predecessor takes over its successor.\<close>

lemma chain_unlink:
  assumes "chain N p (as @ t # bs)" and "distinct (p # as @ t # bs)" and "N ! t = Some n"
  shows "chain (N[last (p # as) := Some n, t := v]) p (as @ bs)"
  using assms
proof (induction as arbitrary: p)
  case Nil
  then have "chain (N[t := v, p := Some n]) p bs"
    by (cases bs) (auto simp: chain_frame)
  then show ?case using Nil by (simp add: list_update_swap)
next
  case (Cons q as)
  have "last (q # as) \<noteq> p" using Cons.prems(2) last_in_set [of "q # as"] by auto
  then show ?case using Cons by (auto simp del: last.simps simp: last_ConsR)
qed

lemma use_walk_chain:
  assumes "chain (nexts h) p qs" and "length qs < n"
    and "\<And>q. q \<in> set qs \<Longrightarrow> GetArg_Value h q 0 = Inr (Some d)"
  shows "use_walk n h d p = Inr (last (p # qs))"
  using assms
proof (induction qs arbitrary: n p)
  case Nil
  then show ?case by (cases n) (auto simp: nexts_def)
next
  case (Cons q qs)
  then obtain m where n: "n = Suc m" by (cases n) auto
  have "inst_at h p \<noteq> Inl e" for e using Cons.prems(1) by auto
  then show ?case using Cons n by auto
qed

lemma unuse_walk_chain:
  assumes "chain (nexts h) p (as @ t # bs)" and "length as < n"
    and "\<And>q. q \<in> set as \<Longrightarrow> GetArg_Value h q 0 = Inr (Some d)" and "t \<notin> set as"
  shows "unuse_walk n h t d p = Inr (last (p # as))"
  using assms
proof (induction as arbitrary: n p)
  case Nil
  then show ?case by (cases n) (auto simp: nexts_def)
next
  case (Cons q as)
  then obtain m where n: "n = Suc m" by (cases n) auto
  show ?case using Cons n by auto
qed

lemma pseudo_search_chain:
  assumes "chain (nexts h) p qs" and "length qs < n"
    and "\<And>q. q \<in> set qs \<Longrightarrow> GetArg_Value h q 0 = Inr (Some d)"
    and "p < length h" and "h ! p = Some i"
  shows "pseudo_search n h d code (next_pseudo_inst i) =
         Inr (List.find (\<lambda>q. ops_of h ! q = Some code) qs)"
  using assms
proof (induction qs arbitrary: n p i)
  case Nil
  then show ?case by (cases n) auto
next
  case (Cons q qs)
  then obtain m where n: "n = Suc m" by (cases n) auto
  have "q < length h" "nexts h ! q \<noteq> None" using Cons.prems(1) by (cases qs; auto)+
  then obtain j where j: "q < length h" "h ! q = Some j" by auto
  then show ?case using Cons n by (auto simp: Cons.IH [of q m j])
qed

lemma users_GetArg:
  assumes "q \<in> users (args_of h) (ops_of h) d"
  shows "GetArg_Value h q 0 = Inr (Some d)"
  using assms by (auto simp: users_def GetArg_Value_def ArgAt_def Get_Value_def)

lemma users_card:
  assumes "set qs = users A Ops d" and "distinct qs"
  shows "length qs \<le> length Ops"
proof -
  have "set qs \<subseteq> {..<length Ops}" using assms(1) by (auto simp: users_def)
  then have "card (set qs) \<le> length Ops" using card_mono [of "{..<length Ops}"] by fastforce
  then show ?thesis using assms(2) by (simp add: distinct_card)
qed

lemma head_not_user:
  "Ops ! d = Some op \<Longrightarrow> \<not> is_pseudo_op op \<Longrightarrow> d \<notin> users A Ops e"
  by (auto simp: users_def)

lemma users_disjoint: "q \<in> users A Ops d \<Longrightarrow> q \<in> users A Ops e \<Longrightarrow> d = e"
  by (auto simp: users_def)

lemma chain_ok_head:
  assumes "chain_ok N A Ops" and "d < length Ops" and "Ops ! d = Some op" and "\<not> is_pseudo_op op"
  obtains qs where "chain N d qs" and "distinct (d # qs)" and "set qs = users A Ops d"
  using assms head_not_user [OF assms(3,4)]
  by (fastforce simp: chain_ok_def head_cell_def)

lemma chain_last: "chain N p qs \<Longrightarrow> last (p # qs) < length N \<and> N ! last (p # qs) = Some None"
  by (induction qs arbitrary: p) auto

lemma num_use_frame:
  "inst_upd h d (num_use_update f) = Inr h' \<Longrightarrow>
   nexts h' = nexts h \<and> ops_of h' = ops_of h \<and> args_of h' = args_of h"
  by (auto simp: ir_simps nexts_update ops_of_update args_of_update list_update_same_conv)

lemma next_pseudo_frame:
  "inst_upd h d (next_pseudo_inst_update (\<lambda>_. x)) = Inr h' \<Longrightarrow>
   nexts h' = (nexts h)[d := Some x] \<and> ops_of h' = ops_of h \<and> args_of h' = args_of h"
  by (auto simp: ir_simps nexts_update ops_of_update args_of_update list_update_same_conv)

lemma ops_of_live:
  "p < length h \<Longrightarrow> ops_of h ! p = Some op \<Longrightarrow> \<exists>i. inst_at h p = Inr i \<and> op_code i = op"
  by auto

lemma nexts_live:
  "p < length h \<Longrightarrow> nexts h ! p = Some n \<Longrightarrow> \<exists>h'. inst_upd h p f = Inr h'"
  by (auto simp: inst_upd_def)

text \<open>\<open>Use\<close> by a pseudo operation appends it to the chain of the value.\<close>

lemma Use_pseudo:
  assumes "chain (nexts h) d qs" and "distinct qs"
    and "set qs = users (args_of h) (ops_of h) d - {this}"
    and "this < length h" and "ops_of h ! this = Some op" and "is_pseudo_op op"
  shows "\<exists>h'. Use h this (Some d) = Inr h' \<and> ops_of h' = ops_of h \<and> args_of h' = args_of h \<and>
              nexts h' = (nexts h)[last (d # qs) := Some (Some this)]"
proof -
  have "nexts h ! d \<noteq> None" "d < length h" using assms(1) by (cases qs; auto)+
  then obtain i where i: "h ! d = Some i" by auto
  let ?h = "h[d := Some (num_use_update (\<lambda>n. n + 1) i)]"
  have u: "inst_upd h d (num_use_update (\<lambda>n. n + 1)) = Inr ?h"
    using i \<open>d < length h\<close> by (auto simp: ir_simps)
  note fr = num_use_frame [OF u]
  have "this < length ?h" "ops_of ?h ! this = Some op" using assms(4,5) fr by (metis length_ops_of)+
  then obtain k where k: "inst_at ?h this = Inr k" "op_code k = op" using ops_of_live by blast
  have "length qs \<le> length h"
  proof -
    have "set qs \<subseteq> {..<length h}" using assms(3) by (auto simp: users_def)
    then have "card (set qs) \<le> length h" using card_mono [of "{..<length h}"] by fastforce
    then show ?thesis using assms(2) by (simp add: distinct_card)
  qed
  moreover have "GetArg_Value ?h q 0 = Inr (Some d)" if "q \<in> set qs" for q
    using that assms(3) fr by (intro users_GetArg) auto
  ultimately have w: "use_walk (Suc (length ?h)) ?h d d = Inr (last (d # qs))"
    using assms(1) fr by (intro use_walk_chain) auto
  have "last (d # qs) < length ?h" "nexts ?h ! last (d # qs) = Some None"
    using chain_last [OF assms(1)] fr by (metis length_nexts)+
  then obtain h' where
    h': "inst_upd ?h (last (d # qs)) (next_pseudo_inst_update (\<lambda>_. Some this)) = Inr h'"
    using nexts_live by blast
  then have "Use h this (Some d) = Inr h'"
    using u k w assms(6) by (simp add: Use_def IsPseudoOperation_op del: last.simps use_walk.simps)
  then show ?thesis using next_pseudo_frame [OF h'] fr by auto
qed

lemma users_append:
  "length A = length Ops \<Longrightarrow>
   users (A @ [Some as]) (Ops @ [Some op]) d =
     users A Ops d \<union> (if is_pseudo_op op \<and> (\<exists>bs. as = ArgValue (Some d) # bs) then {length Ops} else {})"
  by (auto simp: users_def nth_append less_Suc_eq)

lemma Create_pseudo:
  assumes "chain_inv h" and "is_pseudo_op op"
    and "d < length h" and "ops_of h ! d = Some dop" and "\<not> is_pseudo_op dop"
    and "chain (nexts h) d qs" and "distinct (d # qs)" and "set qs = users (args_of h) (ops_of h) d"
  shows "\<exists>h'. Create h op [InArg (ArgValue (Some d))] = Inr (length h, h') \<and>
              ops_of h' = ops_of h @ [Some op] \<and>
              args_of h' = args_of h @ [Some (ArgValue (Some d) # replicate 3 ArgVoid)] \<and>
              nexts h' = (nexts h @ [Some None])[last (d # qs) := Some (Some (length h))]"
proof -
  let ?h0 = "h @ [Some (Inst op)]"
  let ?h1 = "h @ [Some ((Inst op)\<lparr>arguments := ArgValue (Some d) # replicate 3 ArgVoid\<rparr>)]"
  have D: "DestroyArg ?h0 (length h) 0 = Inr ?h0"
    by (simp add: DestroyArg_def ArgAt_def IsValue_def IsLambda_def inst_at_def Inst_def
        max_args_def nth_append)
  have P: "put_arg ?h0 (length h) 0 (ArgValue (Some d)) = Inr ?h1"
    by (simp add: put_arg_def inst_at_def Inst_def max_args_def nth_append numeral_eq_Suc)
  have proj: "ops_of ?h1 = ops_of h @ [Some op]" "nexts ?h1 = nexts h @ [Some None]"
      "args_of ?h1 = args_of h @ [Some (ArgValue (Some d) # replicate 3 ArgVoid)]"
    by (simp_all add: ops_of_def nexts_def args_of_def Inst_def)
  have "set qs = users (args_of ?h1) (ops_of ?h1) d - {length h}"
    unfolding proj using assms(2,8) by (auto simp: users_append) (auto simp: users_def)
  then obtain h' where "Use ?h1 (length h) (Some d) = Inr h'" "ops_of h' = ops_of ?h1"
      "args_of h' = args_of ?h1" "nexts h' = (nexts ?h1)[last (d # qs) := Some (Some (length h))]"
    using Use_pseudo [of ?h1 d qs "length h" op] assms(2,6,7)
    by (auto simp: proj chain_extend nth_append simp del: last.simps)
  then show ?thesis
    using D P by (simp add: Create_def SetArgs_def SetArg_def proj del: last.simps)
qed

lemma chain_ok_append_pseudo:
  assumes ok: "chain_ok N A Ops" and len: "length N = length Ops" "length A = length Ops"
    and op: "is_pseudo_op op" and d: "d < length Ops" "Ops ! d = Some dop" "\<not> is_pseudo_op dop"
    and qs: "chain N d qs" "distinct (d # qs)" "set qs = users A Ops d"
  shows "chain_ok ((N @ [Some None])[last (d # qs) := Some (Some (length Ops))])
           (A @ [Some (ArgValue (Some d) # replicate 3 ArgVoid)]) (Ops @ [Some op])"
    (is "chain_ok ?N ?A ?Ops")
  unfolding chain_ok_def
proof (intro allI impI)
  fix e eop
  assume e: "e < length ?Ops" "?Ops ! e = Some eop"
  have U: "users ?A ?Ops x = users A Ops x \<union> (if x = d then {length Ops} else {})" for x
    using op len by (auto simp: users_append)
  have last_in: "last (d # qs) \<in> insert d (users A Ops d)"
    using last_in_set [of "d # qs"] unfolding qs(3) [symmetric] by (simp del: last.simps)
  show "if is_pseudo_op eop then pseudo_cell ?N ?A ?Ops e else head_cell ?N ?A ?Ops e"
  proof (cases "e = length Ops")
    case True
    then show ?thesis
      using e op d len by (auto simp: pseudo_cell_def nth_append)
  next
    case False
    then have e': "e < length Ops" "Ops ! e = Some eop" using e by (auto simp: nth_append)
    show ?thesis
    proof (cases "is_pseudo_op eop")
      case True
      then have "pseudo_cell N A Ops e" using ok e' by (auto simp: chain_ok_def)
      then consider (void) "A ! e = Some (replicate 4 ArgVoid)" "N ! e = Some None"
        | (arg) x xop where "A ! e = Some (ArgValue (Some x) # replicate 3 ArgVoid)"
            "x < length Ops" "Ops ! x = Some xop" "\<not> is_pseudo_op xop"
        unfolding pseudo_cell_def by blast
      then have "pseudo_cell ?N ?A ?Ops e"
      proof cases
        case void
        have "last (d # qs) \<noteq> e"
          using last_in void d True e' by (auto simp: users_def numeral_eq_Suc)
        then have "?N ! e = Some None" using void e' len by (simp add: nth_append del: last.simps)
        then show ?thesis unfolding pseudo_cell_def using void e' len by (simp add: nth_append)
      next
        case arg
        then show ?thesis unfolding pseudo_cell_def using e' len
          by (intro disjI2 exI [of _ x] exI [of _ xop]) (simp add: nth_append)
      qed
      then show ?thesis using True by simp
    next
      case False
      from chain_ok_head [OF ok e' False] obtain rs where
        rs: "chain N e rs" "distinct (e # rs)" "set rs = users A Ops e" by blast
      have "head_cell ?N ?A ?Ops e"
      proof (cases "e = d")
        case True
        have "length Ops \<notin> users A Ops d" by (simp add: users_def)
        then show ?thesis
          unfolding head_cell_def
          using chain_append [OF qs(1) refl qs(2)] qs U True len
          by (intro exI [of _ "qs @ [length Ops]"]) auto
      next
        case ne: False
        have "last (d # qs) \<notin> set (e # rs)"
          using last_in rs(3) ne d e' False users_disjoint [of _ A Ops d e]
          by (auto simp: head_not_user simp del: last.simps)
        then have "chain ?N e rs" using chain_frame chain_extend [OF rs(1)] by blast
        then show ?thesis unfolding head_cell_def using rs U ne by auto
      qed
      then show ?thesis using False by simp
    qed
  qed
qed

lemma chain_pred:
  "chain N d (as @ t # bs) \<Longrightarrow> last (d # as) < length N \<and> N ! last (d # as) = Some (Some t)"
  by (induction as arbitrary: d) auto

text \<open>\<open>UnUse\<close> by a pseudo operation takes it out of the chain of the value.\<close>

lemma UnUse_pseudo:
  assumes "chain (nexts h) d (as @ this # bs)" and "distinct (d # as @ this # bs)"
    and "set (as @ this # bs) = users (args_of h) (ops_of h) d"
  shows "\<exists>h'. UnUse h this (Some d) = Inr h' \<and> ops_of h' = ops_of h \<and> args_of h' = args_of h \<and>
              nexts h' = (nexts h)[last (d # as) := nexts h ! this, this := Some None]"
proof -
  have "nexts h ! d \<noteq> None" "d < length h" using assms(1) by (cases as; auto)+
  then obtain i where i: "h ! d = Some i" by auto
  let ?h = "h[d := Some (num_use_update (\<lambda>n. n - 1) i)]"
  have u: "inst_upd h d (num_use_update (\<lambda>n. n - 1)) = Inr ?h"
    using i \<open>d < length h\<close> by (auto simp: ir_simps)
  note fr = num_use_frame [OF u]
  have user: "this \<in> users (args_of h) (ops_of h) d" using assms(3) by auto
  then obtain op where "this < length ?h" "ops_of ?h ! this = Some op" and op: "is_pseudo_op op"
    using fr by (auto simp: users_def)
  then obtain k where k: "inst_at ?h this = Inr k" "op_code k = op" using ops_of_live by blast
  then have nk: "nexts h ! this = Some (next_pseudo_inst k)"
    using fr by (metis inst_at_Inr_iff nexts_nth option.simps(9))
  have "length (as @ this # bs) \<le> length h"
    using users_card [OF assms(3)] assms(2) by simp
  moreover have "GetArg_Value ?h q 0 = Inr (Some d)" if "q \<in> set as" for q
    using that assms(3) fr by (intro users_GetArg) auto
  ultimately have w: "unuse_walk (Suc (length ?h)) ?h this d d = Inr (last (d # as))"
    using assms(1,2) fr by (intro unuse_walk_chain [of _ _ _ _ bs]) auto
  have "last (d # as) < length ?h" "nexts ?h ! last (d # as) = Some (Some this)"
    using chain_pred [OF assms(1)] fr by (metis length_nexts)+
  then obtain h2 where
    h2: "inst_upd ?h (last (d # as)) (next_pseudo_inst_update (\<lambda>_. next_pseudo_inst k)) = Inr h2"
    using nexts_live by blast
  note fr2 = next_pseudo_frame [OF h2]
  have "this < length h2" "ops_of h2 ! this = Some op"
    using fr2 fr user k \<open>ops_of ?h ! this = Some op\<close> \<open>this < length ?h\<close> by (metis length_ops_of)+
  then obtain h3 where
    h3: "inst_upd h2 this (next_pseudo_inst_update (\<lambda>_. None)) = Inr h3"
    using ops_of_live by (metis inst_upd_def res_bind_simps(2))
  then have "UnUse h this (Some d) = Inr h3"
    using u k w op h2
    by (simp add: UnUse_def IsPseudoOperation_op del: last.simps unuse_walk.simps)
  then show ?thesis using next_pseudo_frame [OF h3] fr2 fr nk by auto
qed

lemma DestroyArg_void:
  "p < length h \<Longrightarrow> args_of h ! p = Some as \<Longrightarrow> i < length as \<Longrightarrow> as ! i = ArgVoid \<Longrightarrow>
   DestroyArg h p i = Inr h"
  using slot_fresh by blast

lemma delete_pseudo:
  assumes "chain (nexts h) d (as @ this # bs)" and "distinct (d # as @ this # bs)"
    and "set (as @ this # bs) = users (args_of h) (ops_of h) d"
    and "args_of h ! this = Some (ArgValue (Some d) # replicate 3 ArgVoid)"
  shows "\<exists>h'. delete_inst h this = Inr h' \<and> ops_of h' = (ops_of h)[this := None] \<and>
              args_of h' = (args_of h)[this := None] \<and>
              nexts h' = (nexts h)[last (d # as) := nexts h ! this, this := None]"
proof -
  obtain h1 where h1: "UnUse h this (Some d) = Inr h1" "ops_of h1 = ops_of h" "args_of h1 = args_of h"
      "nexts h1 = (nexts h)[last (d # as) := nexts h ! this, this := Some None]"
    using UnUse_pseudo [OF assms(1-3)] by blast
  have l: "this < length h" using assms(3) by (auto simp: users_def)
  then have l1: "this < length h1" using h1(2) by (metis length_ops_of)
  obtain c where c: "h ! this = Some c" "arguments c = ArgValue (Some d) # replicate 3 ArgVoid"
    using assms(4) l by auto
  have D: "DestroyArg h this 0 = Inr h1"
    using l c h1(1) by (simp add: DestroyArg_def ArgAt_def IsValue_def Get_Value_def)
  have V: "DestroyArg h1 this i = Inr h1" if "i = 1 \<or> i = 2 \<or> i = 3" for i
    using that assms(4) h1(3) by (intro DestroyArg_void [OF l1]) (auto simp: nth_Cons')
  have "[0..<max_args] = [0, 1, 2, 3]" by (simp add: max_args_def upt_rec)
  then have "delete_inst h this = Inr (h1[this := None])"
    using D V by (simp add: delete_inst_def)
  then show ?thesis using h1 by (simp add: ops_of_update args_of_update nexts_update)
qed

lemma users_delete:
  "p < length Ops \<Longrightarrow> users (A[p := None]) (Ops[p := None]) d = users A Ops d - {p}"
  by (auto simp: users_def nth_list_update split: if_splits)

lemma chain_ok_delete_pseudo:
  assumes ok: "chain_ok N A Ops" and len: "length N = length Ops" "length A = length Ops"
    and d: "d < length Ops" "Ops ! d = Some dop" "\<not> is_pseudo_op dop"
    and qs: "chain N d (as @ t # bs)" "distinct (d # as @ t # bs)" "set (as @ t # bs) = users A Ops d"
  shows "chain_ok (N[last (d # as) := N ! t, t := None]) (A[t := None]) (Ops[t := None])"
    (is "chain_ok ?N ?A ?Ops")
  unfolding chain_ok_def
proof (intro allI impI)
  fix e eop
  assume e: "e < length ?Ops" "?Ops ! e = Some eop"
  have tu: "t \<in> users A Ops d" using qs(3) by auto
  then obtain top where t: "t < length Ops" "Ops ! t = Some top" "is_pseudo_op top"
    by (auto simp: users_def)
  have et: "e \<noteq> t" using e t(1) by auto
  then have e': "e < length Ops" "Ops ! e = Some eop" using e by auto
  have "set (d # as) \<subseteq> insert d (users A Ops d)" unfolding qs(3) [symmetric] by auto
  then have last_in: "last (d # as) \<in> insert d (users A Ops d)"
    using last_in_set [of "d # as"] by blast
  show "if is_pseudo_op eop then pseudo_cell ?N ?A ?Ops e else head_cell ?N ?A ?Ops e"
  proof (cases "is_pseudo_op eop")
    case True
    then have "pseudo_cell N A Ops e" using ok e' by (auto simp: chain_ok_def)
    then consider (void) "A ! e = Some (replicate 4 ArgVoid)" "N ! e = Some None"
      | (arg) x xop where "A ! e = Some (ArgValue (Some x) # replicate 3 ArgVoid)"
          "x < length Ops" "Ops ! x = Some xop" "\<not> is_pseudo_op xop"
      unfolding pseudo_cell_def by blast
    then have "pseudo_cell ?N ?A ?Ops e"
    proof cases
      case void
      have "last (d # as) \<noteq> e"
        using last_in void d True e' by (auto simp: users_def numeral_eq_Suc)
      then show ?thesis unfolding pseudo_cell_def using void et by (simp del: last.simps)
    next
      case arg
      then have "x \<noteq> t" using t by auto
      then show ?thesis unfolding pseudo_cell_def using et arg
        by (intro disjI2 exI [of _ x] exI [of _ xop]) simp
    qed
    then show ?thesis using True by simp
  next
    case False
    from chain_ok_head [OF ok e' False] obtain rs where
      rs: "chain N e rs" "distinct (e # rs)" "set rs = users A Ops e" by blast
    have "head_cell ?N ?A ?Ops e"
    proof (cases "e = d")
      case True
      obtain n where "N ! t = Some n" using qs(1) by (induction as arbitrary: d) (cases bs; auto)+
      then have "chain ?N d (as @ bs)" using chain_unlink [OF qs(1,2), of n None] by simp
      moreover have "set (as @ bs) = users ?A ?Ops d"
        unfolding users_delete [OF t(1)] qs(3) [symmetric] using qs(2) by auto
      ultimately show ?thesis unfolding head_cell_def using qs(2) True by auto
    next
      case ne: False
      have "last (d # as) \<notin> set (e # rs)" "t \<notin> set (e # rs)"
        using last_in tu rs(3) ne d e' False et users_disjoint [of _ A Ops d e]
        by (auto simp: head_not_user simp del: last.simps)
      then have "chain ?N e rs" using chain_frame rs(1) by blast
      moreover have "set rs = users ?A ?Ops e"
        unfolding users_delete [OF t(1)] rs(3) using \<open>t \<notin> set (e # rs)\<close> rs(3) by auto
      ultimately show ?thesis unfolding head_cell_def using rs by auto
    qed
    then show ?thesis using False by simp
  qed
qed

section \<open>Validation\<close>

fun in_type :: "ArgIn \<Rightarrow> ArgType" where
  "in_type (InArg a) = GetType a"
| "in_type (InOperand _) = ATOperand"

lemma validate_loop_args:
  assumes "length (ps @ slots_of as @ zs) = max_args" and "list_all plain_arg as"
    and "arg_types m = ts @ map in_type as"
  shows "validate_loop oob m (ps @ slots_of as @ zs) (length ps) (length ts) =
         validate_loop oob m (ps @ slots_of as @ zs)
           (length ps + length (slots_of as)) (length ts + length as)"
  using assms
proof (induction as arbitrary: ps ts)
  case (Cons x xs)
  have r: "arg_type_read oob m (length ts) = in_type x"
    using Cons.prems(3) by (simp add: arg_type_read_def)
  show ?case
  proof (cases x)
    case (InArg a)
    then show ?thesis
      using Cons.IH [of "ps @ [a]" "ts @ [in_type x]"] Cons.prems r
      by (simp add: validate_loop.simps [of _ _ _ "length ps"] vec_at_def IsOperand_def)
  next
    case (InOperand od)
    then show ?thesis
      using Cons.IH [of "ps @ [ArgOperand (od_op od), od_left od, od_right od]" "ts @ [in_type x]"]
        Cons.prems r
      by (simp add: validate_loop.simps [of _ _ _ "length ps"] vec_at_def numeral_3_eq_3)
  qed
qed simp

lemma validate_loop_past_end:
  assumes "length ps + r = max_args" and "length (arg_types m) \<le> k"
  shows "validate_loop oob m (ps @ replicate r ArgVoid) (length ps) k = Inr () \<longleftrightarrow>
         (\<forall>j < r. oob (meta_op m) (k + j) = ATVoid)"
  using assms
proof (induction r arbitrary: ps k)
  case 0
  then show ?case by (simp add: validate_loop.simps)
next
  case (Suc r)
  have rd: "arg_type_read oob m k = oob (meta_op m) k"
    using Suc.prems(2) by (simp add: arg_type_read_def)
  have "validate_loop oob m (ps @ replicate (Suc r) ArgVoid) (length ps) k = Inr () \<longleftrightarrow>
      oob (meta_op m) k = ATVoid \<and>
      validate_loop oob m ((ps @ [ArgVoid]) @ replicate r ArgVoid) (length (ps @ [ArgVoid])) (Suc k)
        = Inr ()"
    using Suc.prems(1) rd
    by (auto simp: validate_loop.simps [of _ _ _ "length ps"] vec_at_def Let_def ASSERT_def
        split: if_splits)
  also have "\<dots> \<longleftrightarrow> oob (meta_op m) k = ATVoid \<and> (\<forall>j < r. oob (meta_op m) (Suc k + j) = ATVoid)"
    using Suc.IH [of "ps @ [ArgVoid]" "Suc k"] Suc.prems by simp
  also have "\<dots> \<longleftrightarrow> (\<forall>j < Suc r. oob (meta_op m) (k + j) = ATVoid)"
    by (simp add: All_less_Suc2)
  finally show ?case .
qed

definition base_op :: "OpCode \<Rightarrow> bool" where
  "base_op op \<longleftrightarrow> op_index OpVoid < op_index op \<and> op_index op < op_index OpBASE_COUNT \<and>
     op \<notin> {OpCallLambda, OpCallLocation, OpCallDynamic}"

lemma Validate_base_op:
  assumes "base_op op" and "p < length h" and "ops_of h ! p = Some op"
    and "args_of h ! p = Some (slots_of as @ replicate r ArgVoid)"
    and "length (slots_of as) + r = 4" and "list_all plain_arg as"
    and "arg_types (ir_meta_infos ! op_index op) = map in_type as"
  shows "Validate oob h p = Inr () \<longleftrightarrow> (\<forall>j < r. oob op (length as + j) = ATVoid)"
proof -
  obtain i where i: "h ! p = Some i" "op_code i = op"
      "arguments i = slots_of as @ replicate r ArgVoid"
    using assms(2-4) by auto
  have "op \<noteq> OpCOUNT" using assms(1) by (auto simp: base_op_def)
  note m = GetIRMetaInfo_total [OF this]
  have "op_index op < op_index OpCOUNT" using assms(1) by (simp add: base_op_def)
  then have "Validate oob h p =
      validate_loop oob (ir_meta_infos ! op_index op) (slots_of as @ replicate r ArgVoid) 0 0"
    using assms(1,2) i m by (simp add: Validate_def base_op_def)
  also have "\<dots> = validate_loop oob (ir_meta_infos ! op_index op)
      (slots_of as @ replicate r ArgVoid) (length (slots_of as)) (length as)"
    using validate_loop_args [of "[]" as "replicate r ArgVoid" "ir_meta_infos ! op_index op" "[]" oob]
      assms(5-7) by (simp add: max_args_def)
  finally show ?thesis
    using validate_loop_past_end [of "slots_of as" r "ir_meta_infos ! op_index op" "length as" oob]
      assms(5,7) by (simp add: max_args_def meta_op_at_index)
qed

section \<open>Properties\<close>

definition add_args :: "ArgIn list" where
  "add_args = [InArg (ArgValue (Some 0)),
     InOperand (Operand_imm (Some 0) (ImmU8 1) \<lparr>oo_type = Plus, shift_ext = 0\<rparr>)]"

lemmas store_simps = store_inv_def counts_match_def counts_def args_of_def ops_of_def uses_def
  count_refs_def refs_in_range_def slots_ok_def Inst_def max_args_def
  sum_list_replicate

lemma store_inv_one: "store_inv [Some (Inst OpLoadImm)]"
  by (auto simp: store_simps)

lemma add_args_ok:
  "length (slots_of add_args) = 4" "list_all plain_arg add_args" "list_all arg_in_wf add_args"
  "list_all (arg_live (ops_of [Some (Inst OpLoadImm)])) (slots_of add_args)"
  by (simp_all add: add_args_def Operand_imm_def IsOperand_def operand_wf_def IsLambda_def
      live_def ops_of_def)

text \<open>
  C8: \<open>Inst::Create\<close> of an operation that is not a pseudo operation, with arguments that
  fill at most four slots and refer to live instructions, always succeeds: it returns a new
  instruction whose slots hold the arguments in order (three slots for an operand), the
  remaining slots being void; the arguments and operation codes of all other instructions
  are unchanged, and the use counters remain the numbers of referring slots.
\<close>

theorem Create_correct:
  assumes "store_inv h" and "\<not> is_pseudo_op op" and "length (slots_of as) \<le> 4"
    and "list_all plain_arg as" and "list_all arg_in_wf as"
    and "list_all (arg_live (ops_of h)) (slots_of as)"
  shows "\<exists>h'. Create h op as = Inr (length h, h') \<and> store_inv h' \<and>
              ops_of h' = ops_of h @ [Some op] \<and>
              args_of h' =
                args_of h @ [Some (slots_of as @ replicate (4 - length (slots_of as)) ArgVoid)]"
  using Create_layout [OF assms(2-4,6)] Create_store_inv [OF assms(1) _ assms(5)] by blast

theorem Create_correct_witness:
  "\<exists>h'. Create [Some (Inst OpLoadImm)] OpAdd add_args = Inr (1, h') \<and> store_inv h' \<and>
        args_of h' = [Some (replicate 4 ArgVoid), Some (slots_of add_args)]"
proof -
  have "\<not> is_pseudo_op OpAdd" by (simp add: is_pseudo_op_def IsPseudoOperation_def Inst_def)
  from Create_correct [OF store_inv_one this _ add_args_ok(2-4)]
  show ?thesis by (auto simp: add_args_ok(1) args_of_def Inst_def max_args_def)
qed

text \<open>
  C9: every update of an argument slot and the deletion of an instruction keep the use
  counters right: the 8-bit counter of a live instruction is, modulo 256, the number of
  slots in the store that refer to it (as a value, a lambda value or a side of an operand).
\<close>

theorem updates_keep_use_counts:
  assumes "store_inv h"
  shows "(\<forall>h'. SetArg h p i a = Inr h' \<longrightarrow> store_inv h') \<and>
         (\<forall>h'. operand_wf od \<longrightarrow> SetArg_Operand h p i od = Inr h' \<longrightarrow> store_inv h') \<and>
         (\<forall>h'. delete_inst h p = Inr h' \<longrightarrow> store_inv h')"
  using SetArg_store_inv [OF assms] SetArg_Operand_store_inv [OF assms]
    delete_inst_store_inv [OF assms] by blast

definition two_insts :: inst_heap where
  "two_insts = [Some ((Inst OpLoadImm)\<lparr>num_use := 1\<rparr>),
     Some ((Inst OpZeroExtend)\<lparr>arguments := [ArgValue (Some 0), ArgImm (ImmU8 3), ArgVoid, ArgVoid]\<rparr>)]"

lemma store_inv_two: "store_inv two_insts"
  by (auto simp: store_simps two_insts_def less_Suc_eq numeral_2_eq_2)

theorem updates_keep_use_counts_witness:
  "store_inv [Some (Inst OpLoadImm), None]"
proof -
  have "delete_inst two_insts 1 = Inr [Some (Inst OpLoadImm), None]" by code_simp
  then show ?thesis
    using updates_keep_use_counts [OF store_inv_two, of 1 0 ArgVoid
        "Operand_imm None (ImmU8 0) \<lparr>oo_type = Plus, shift_ext = 0\<rparr>"] by blast
qed

text \<open>
  C10: a pseudo operation (a read of the flags of a result) that is created on an instruction
  which is not itself a pseudo operation is always linked into the chain of that instruction,
  and deleting any member of the chain always succeeds and takes exactly that member out:
  the chain keeps holding exactly the pseudo users of its head.
\<close>

theorem pseudo_chain_maintained:
  assumes "chain_inv h" and "d < length h" and "ops_of h ! d = Some dop" and "\<not> is_pseudo_op dop"
  shows "(is_pseudo_op op \<longrightarrow>
            (\<exists>h'. Create h op [InArg (ArgValue (Some d))] = Inr (length h, h') \<and> chain_inv h' \<and>
                  users (args_of h') (ops_of h') d =
                    insert (length h) (users (args_of h) (ops_of h) d))) \<and>
         (q \<in> users (args_of h) (ops_of h) d \<longrightarrow>
            (\<exists>h'. delete_inst h q = Inr h' \<and> chain_inv h' \<and>
                  users (args_of h') (ops_of h') d = users (args_of h) (ops_of h) d - {q}))"
proof (intro conjI impI)
  have ok: "chain_ok (nexts h) (args_of h) (ops_of h)" using assms(1) by (simp add: chain_inv_def)
  obtain qs where qs: "chain (nexts h) d qs" "distinct (d # qs)"
      "set qs = users (args_of h) (ops_of h) d"
    using chain_ok_head [OF ok, of d] assms(2-4) by auto
  {
    assume op: "is_pseudo_op op"
    show "\<exists>h'. Create h op [InArg (ArgValue (Some d))] = Inr (length h, h') \<and> chain_inv h' \<and>
        users (args_of h') (ops_of h') d = insert (length h) (users (args_of h) (ops_of h) d)"
      using Create_pseudo [OF assms(1) op assms(2-4) qs]
        chain_ok_append_pseudo [OF ok _ _ op _ assms(3,4) qs] assms(2) op
      by (fastforce simp: chain_inv_def users_append simp del: last.simps)
  next
    assume q: "q \<in> users (args_of h) (ops_of h) d"
    then have ql: "q < length h" by (simp add: users_def)
    obtain as bs where s: "qs = as @ q # bs" using q qs(3) by (metis split_list)
    obtain qop where "ops_of h ! q = Some qop" "is_pseudo_op qop" using q by (auto simp: users_def)
    then have "pseudo_cell (nexts h) (args_of h) (ops_of h) q"
      using ok ql by (auto simp: chain_ok_def)
    then have a: "args_of h ! q = Some (ArgValue (Some d) # replicate 3 ArgVoid)"
      using q unfolding pseudo_cell_def users_def by (auto simp: numeral_eq_Suc)
    show "\<exists>h'. delete_inst h q = Inr h' \<and> chain_inv h' \<and>
        users (args_of h') (ops_of h') d = users (args_of h) (ops_of h) d - {q}"
      using delete_pseudo [OF qs(1-3) [unfolded s] a]
        chain_ok_delete_pseudo [OF ok _ _ _ assms(3,4) qs [unfolded s]] assms(2) ql
      by (fastforce simp: chain_inv_def users_delete simp del: last.simps)
  }
qed

text \<open>
  C11: \<open>GetPseudoOperation\<close> on an instruction that is not a pseudo operation always returns: a
  pseudo user of the instruction with the requested operation code if there is one, and null
  otherwise.
\<close>

theorem GetPseudoOperation_correct:
  assumes "chain_inv h" and "d < length h" and "ops_of h ! d = Some dop" and "\<not> is_pseudo_op dop"
  shows "\<exists>r. GetPseudoOperation h d code = Inr r \<and>
             (case r of
                None \<Rightarrow> (\<nexists>q. q \<in> users (args_of h) (ops_of h) d \<and> ops_of h ! q = Some code)
              | Some q \<Rightarrow> q \<in> users (args_of h) (ops_of h) d \<and> ops_of h ! q = Some code)"
proof -
  have ok: "chain_ok (nexts h) (args_of h) (ops_of h)" using assms(1) by (simp add: chain_inv_def)
  obtain qs where qs: "chain (nexts h) d qs" "distinct (d # qs)"
      "set qs = users (args_of h) (ops_of h) d"
    using chain_ok_head [OF ok, of d] assms(2-4) by auto
  obtain i where i: "h ! d = Some i" using assms(2,3) by auto
  have "length qs \<le> length h" using users_card [OF qs(3)] qs(2) by simp
  then have "GetPseudoOperation h d code = Inr (List.find (\<lambda>q. ops_of h ! q = Some code) qs)"
    using pseudo_search_chain [OF qs(1), of "Suc (length h)" d i code] users_GetArg qs(3) assms(2) i
    by (simp add: GetPseudoOperation_def del: pseudo_search.simps)
  then show ?thesis
    using qs(3) by (auto simp: find_None_iff find_Some_iff split: option.splits)
qed

text \<open>An addition with two readers of its flags.\<close>

definition flag_readers :: inst_heap where
  "flag_readers =
     [Some ((Inst OpAdd)\<lparr>next_pseudo_inst := Some 1, num_use := 2\<rparr>),
      Some ((Inst OpGetCarry)\<lparr>next_pseudo_inst := Some 2,
              arguments := ArgValue (Some 0) # replicate 3 ArgVoid\<rparr>),
      Some ((Inst OpGetZero)\<lparr>arguments := ArgValue (Some 0) # replicate 3 ArgVoid\<rparr>)]"

lemma flag_readers_users: "users (args_of flag_readers) (ops_of flag_readers) 0 = {1, 2}"
  by (auto simp: users_def flag_readers_def args_of_def ops_of_def Inst_def max_args_def
      is_pseudo_op_def IsPseudoOperation_def less_Suc_eq numeral_eq_Suc)

lemma flag_readers_inv: "chain_inv flag_readers"
proof -
  have "head_cell (nexts flag_readers) (args_of flag_readers) (ops_of flag_readers) 0"
    unfolding head_cell_def flag_readers_users
    by (intro exI [of _ "[1, 2]"]) (simp add: nexts_def flag_readers_def Inst_def)
  then show ?thesis
    unfolding chain_inv_def chain_ok_def pseudo_cell_def
    by (auto simp: less_Suc_eq flag_readers_def ops_of_def args_of_def Inst_def is_pseudo_op_def
        IsPseudoOperation_def)
qed

lemma flag_readers_add: "0 < length flag_readers" "ops_of flag_readers ! 0 = Some OpAdd"
    "\<not> is_pseudo_op OpAdd" "is_pseudo_op OpGetNZCV"
  by (simp_all add: flag_readers_def ops_of_def Inst_def is_pseudo_op_def IsPseudoOperation_def)

theorem pseudo_chain_maintained_witness:
  "(\<exists>h'. Create flag_readers OpGetNZCV [InArg (ArgValue (Some 0))] = Inr (3, h') \<and> chain_inv h') \<and>
   (\<exists>h'. delete_inst flag_readers 1 = Inr h' \<and> chain_inv h')"
  using pseudo_chain_maintained [OF flag_readers_inv flag_readers_add(1-3), of OpGetNZCV 1]
    flag_readers_add(4) flag_readers_users
  by (auto simp: flag_readers_def)

theorem GetPseudoOperation_correct_witness:
  "GetPseudoOperation flag_readers 0 OpGetZero = Inr (Some 2) \<and>
   ops_of flag_readers ! 2 = Some OpGetZero"
proof -
  have r: "GetPseudoOperation flag_readers 0 OpGetZero = Inr (Some 2)" by code_simp
  then show ?thesis
    using GetPseudoOperation_correct [OF flag_readers_inv flag_readers_add(1-3), of OpGetZero]
    by simp
qed

text \<open>
  C12: \<open>Inst::Validate\<close> on a freshly created instruction whose arguments have exactly the types
  that the meta table declares: it accepts if and only if every read past the end of the
  declared argument types happens to yield \<open>Void\<close>, one read for each of the unused slots.
  Only instructions that fill all four slots are validated without such a read.
\<close>

theorem Validate_reads_past_end:
  assumes "base_op op" and "\<not> is_pseudo_op op" and "length (slots_of as) \<le> 4"
    and "list_all plain_arg as" and "list_all (arg_live (ops_of h)) (slots_of as)"
    and "arg_types (ir_meta_infos ! op_index op) = map in_type as"
  shows "\<exists>h'. Create h op as = Inr (length h, h') \<and>
              (Validate oob h' (length h) = Inr () \<longleftrightarrow>
                 (\<forall>j < 4 - length (slots_of as). oob op (length as + j) = ATVoid))"
proof -
  obtain h' where h': "Create h op as = Inr (length h, h')" "ops_of h' = ops_of h @ [Some op]"
      "args_of h' = args_of h @ [Some (slots_of as @ replicate (4 - length (slots_of as)) ArgVoid)]"
    using Create_layout [OF assms(2-5)] by blast
  have "length h' = Suc (length h)" using h'(2) by (metis length_append_singleton length_ops_of)
  then show ?thesis
    using Validate_base_op [OF assms(1), of "length h" h' as "4 - length (slots_of as)" oob]
      h' assms(3,4,6) by (simp add: nth_append)
qed

theorem Validate_reads_past_end_witness:
  "\<exists>h'. Create [] OpLoadLocal [InArg (ArgLocal \<lparr>local_id = 7, local_type = VT_U64\<rparr>)] = Inr (0, h') \<and>
        Validate (\<lambda>_ _. ATVoid) h' 0 = Inr () \<and> Validate (\<lambda>_ _. ATImm) h' 0 \<noteq> Inr ()"
proof -
  let ?as = "[InArg (ArgLocal \<lparr>local_id = 7, local_type = VT_U64\<rparr>)]"
  have "arg_types (ir_meta_infos ! op_index OpLoadLocal) = map in_type ?as"
    by (simp add: ir_meta_infos_def meta_def)
  moreover have "base_op OpLoadLocal" "\<not> is_pseudo_op OpLoadLocal"
    by (simp_all add: base_op_def is_pseudo_op_def IsPseudoOperation_def Inst_def)
  ultimately show ?thesis
    using Validate_reads_past_end [of OpLoadLocal ?as "[]" "\<lambda>_ _. ATVoid"]
      Validate_reads_past_end [of OpLoadLocal ?as "[]" "\<lambda>_ _. ATImm"]
    by (auto simp: IsOperand_def dest: spec [of _ 0])
qed

end
