(* ===== verification/Intrusive_List.thy ===== *)
theory Intrusive_List
  imports Prelude
begin

text \<open>
  The intrusive doubly linked list of
  \<open>src/source/externals/libvapours/include/vapours/util/util_intrusive_list.hpp\<close>, on which all
  lists of the intermediate representation are built.  A node is a pair of links inside its
  owner; the links of all nodes form an explicit store indexed by node address, so that
  sharing a node between two lists can be expressed.  A list is the ring through its root
  node.

  The assertions of the header (\<open>AMS_ASSERT\<close>) are compiled out in this program.

  The lemmas show that every operation implements the corresponding operation on sequences
  when the node that is linked in is unlinked, and what linking a node that already belongs
  to a list does to both lists.
\<close>

section \<open>Nodes and operations\<close>

type_synonym node = nat

record links =
  m_prev :: "node \<Rightarrow> node"
  m_next :: "node \<Rightarrow> node"

definition set_prev :: "links \<Rightarrow> node \<Rightarrow> node \<Rightarrow> links" where
  "set_prev s n v = s\<lparr>m_prev := (m_prev s)(n := v)\<rparr>"

definition set_next :: "links \<Rightarrow> node \<Rightarrow> node \<Rightarrow> links" where
  "set_next s n v = s\<lparr>m_next := (m_next s)(n := v)\<rparr>"

text \<open>The constructor links a node to itself.\<close>

definition IntrusiveListNode :: "links \<Rightarrow> node \<Rightarrow> links" where
  "IntrusiveListNode s this = set_next (set_prev s this this) this this"

definition IsLinked :: "links \<Rightarrow> node \<Rightarrow> bool" where
  "IsLinked s this \<longleftrightarrow> m_next s this \<noteq> this"

definition SplicePrev :: "links \<Rightarrow> node \<Rightarrow> node \<Rightarrow> node \<Rightarrow> links" where
  "SplicePrev s this first lst =
     (let last_prev = m_prev s lst;
          s1 = set_prev s first (m_prev s this);
          s2 = set_next s1 last_prev this;
          s3 = set_next s2 (m_prev s2 this) first
      in set_prev s3 this last_prev)"

definition SpliceNext :: "links \<Rightarrow> node \<Rightarrow> node \<Rightarrow> node \<Rightarrow> links" where
  "SpliceNext s this first lst =
     (let last_prev = m_prev s lst;
          s1 = set_prev s first this;
          s2 = set_next s1 last_prev (m_next s1 this);
          s3 = set_prev s2 (m_next s2 this) last_prev
      in set_next s3 this first)"

definition LinkPrev :: "links \<Rightarrow> node \<Rightarrow> node \<Rightarrow> links" where
  "LinkPrev s this n = SplicePrev s this n n"

definition LinkNext :: "links \<Rightarrow> node \<Rightarrow> node \<Rightarrow> links" where
  "LinkNext s this n = SpliceNext s this n n"

definition Unlink_until :: "links \<Rightarrow> node \<Rightarrow> node \<Rightarrow> links" where
  "Unlink_until s this lst =
     (let last_prev = m_prev s lst;
          s1 = set_next s (m_prev s this) lst;
          s2 = set_prev s1 lst (m_prev s1 this);
          s3 = set_next s2 last_prev this
      in set_prev s3 this last_prev)"

definition Unlink :: "links \<Rightarrow> node \<Rightarrow> links" where
  "Unlink s this = Unlink_until s this (m_next s this)"

text \<open>\<open>IntrusiveListImpl\<close>: a list is the address of its root node.\<close>

definition list_empty :: "links \<Rightarrow> node \<Rightarrow> bool" where
  "list_empty s root \<longleftrightarrow> \<not> IsLinked s root"

definition push_back :: "links \<Rightarrow> node \<Rightarrow> node \<Rightarrow> links" where
  "push_back s root n = LinkPrev s root n"

definition push_front :: "links \<Rightarrow> node \<Rightarrow> node \<Rightarrow> links" where
  "push_front s root n = LinkNext s root n"

definition pop_back :: "links \<Rightarrow> node \<Rightarrow> links" where
  "pop_back s root = Unlink s (m_prev s root)"

definition pop_front :: "links \<Rightarrow> node \<Rightarrow> links" where
  "pop_front s root = Unlink s (m_next s root)"

definition list_insert :: "links \<Rightarrow> node \<Rightarrow> node \<Rightarrow> links" where
  "list_insert s pos n = LinkPrev s pos n"

text \<open>\<open>erase\<close> returns the iterator behind the erased node together with the new links.\<close>

definition list_erase :: "links \<Rightarrow> node \<Rightarrow> node \<Rightarrow> links \<times> node" where
  "list_erase s root pos = (if pos = root then (s, root) else (Unlink s pos, m_next s pos))"

definition splice_impl :: "links \<Rightarrow> node \<Rightarrow> node \<Rightarrow> node \<Rightarrow> links" where
  "splice_impl s pos first lst =
     (if first = lst then s
      else (let s1 = Unlink_until s first lst in SplicePrev s1 pos first first))"

text \<open>
  A traversal \<open>for (it = begin(); it != end(); ++it)\<close>, with a bound on the number of steps;
  \<open>None\<close> when the end was not reached within the bound.
\<close>

fun walk :: "nat \<Rightarrow> links \<Rightarrow> node \<Rightarrow> node \<Rightarrow> node list option" where
  "walk 0 s root it = (if it = root then Some [] else None)"
| "walk (Suc k) s root it =
     (if it = root then Some [] else map_option (Cons it) (walk k s root (m_next s it)))"

definition elements :: "nat \<Rightarrow> links \<Rightarrow> node \<Rightarrow> node list option" where
  "elements k s root = walk k s root (m_next s root)"

fun list_clear :: "nat \<Rightarrow> links \<Rightarrow> node \<Rightarrow> links option" where
  "list_clear 0 s root = (if list_empty s root then Some s else None)"
| "list_clear (Suc k) s root =
     (if list_empty s root then Some s else list_clear k (pop_front s root) root)"

section \<open>Rings\<close>

text \<open>\<open>seg s x ys z\<close>: the links lead from \<open>x\<close> over \<open>ys\<close> to \<open>z\<close>, in both directions.\<close>

fun seg :: "links \<Rightarrow> node \<Rightarrow> node list \<Rightarrow> node \<Rightarrow> bool" where
  "seg s x [] z \<longleftrightarrow> m_next s x = z \<and> m_prev s z = x"
| "seg s x (y # ys) z \<longleftrightarrow> m_next s x = y \<and> m_prev s y = x \<and> seg s y ys z"

definition is_ring :: "links \<Rightarrow> node \<Rightarrow> node list \<Rightarrow> bool" where
  "is_ring s root xs \<longleftrightarrow> distinct (root # xs) \<and> seg s root xs root"

lemmas link_simps = set_prev_def set_next_def

lemma seg_append: "seg s x (as @ n # bs) z \<longleftrightarrow> seg s x as n \<and> seg s n bs z"
  by (induction as arbitrary: x) auto

lemma seg_last: "seg s x ys z \<Longrightarrow> m_prev s z = last (x # ys)"
  by (induction ys arbitrary: x) auto

lemma seg_first: "seg s x ys z \<Longrightarrow> m_next s x = hd (ys @ [z])"
  by (cases ys) auto

lemma seg_cong:
  assumes "\<And>n. n \<in> set (x # ys) \<Longrightarrow> m_next s' n = m_next s n"
    and "\<And>n. n \<in> set (ys @ [z]) \<Longrightarrow> m_prev s' n = m_prev s n"
  shows "seg s' x ys z \<longleftrightarrow> seg s x ys z"
  using assms by (induction ys arbitrary: x) auto

text \<open>A ring can be read from any of its members.\<close>

lemma is_ring_rotate: "is_ring s root (as @ n # bs) \<longleftrightarrow> is_ring s n (bs @ root # as)"
  unfolding is_ring_def seg_append by auto

lemma is_ring_links:
  assumes "is_ring s root xs"
  shows "m_prev s root = last (root # xs)" and "m_next s root = hd (xs @ [root])"
  using assms seg_last seg_first unfolding is_ring_def by blast+

lemma is_ring_frame:
  assumes "is_ring s root xs"
    and "\<And>n. n \<in> set (root # xs) \<Longrightarrow> m_next s' n = m_next s n \<and> m_prev s' n = m_prev s n"
  shows "is_ring s' root xs"
  using assms seg_cong [of root xs s' s root] unfolding is_ring_def by auto

text \<open>
  Replacing the way from \<open>last (x # ys)\<close> to \<open>z\<close>: the segment now ends in \<open>w\<close>.
\<close>

lemma seg_redirect:
  assumes "seg s x ys z" and "distinct (x # ys)" and "w \<notin> set ys"
    and "\<And>n. n \<in> set (x # ys) \<Longrightarrow> n \<noteq> last (x # ys) \<Longrightarrow> m_next s' n = m_next s n"
    and "\<And>n. n \<in> set ys \<Longrightarrow> m_prev s' n = m_prev s n"
    and "m_next s' (last (x # ys)) = w" and "m_prev s' w = last (x # ys)"
  shows "seg s' x ys w"
  using assms
proof (induction ys arbitrary: x)
  case (Cons y ys)
  have ne: "x \<noteq> last (y # ys)" using Cons.prems(2) last_in_set [of "y # ys"] by auto
  have l: "last (x # y # ys) = last (y # ys)" by simp
  have n: "m_next s' x = m_next s x" using Cons.prems(4) [of x] ne l by simp
  have "seg s' y ys w"
  proof (rule Cons.IH)
    show "m_next s' n = m_next s n" if "n \<in> set (y # ys)" "n \<noteq> last (y # ys)" for n
      using Cons.prems(4) [of n] that l by simp
  qed (use Cons.prems l in auto)
  then show ?case using Cons.prems n by simp
qed simp

text \<open>Two disjoint rings are joined into one.\<close>

lemma SplicePrev_joins:
  assumes "is_ring s this xs" and "is_ring s f ys" and "set (this # xs) \<inter> set (f # ys) = {}"
  shows "is_ring (SplicePrev s this f f) this (xs @ f # ys)"
proof -
  let ?p = "last (this # xs)" and ?q = "last (f # ys)"
  let ?s = "SplicePrev s this f f"
  have p: "m_prev s this = ?p" and q: "m_prev s f = ?q"
    using is_ring_links [OF assms(1)] is_ring_links [OF assms(2)] by auto
  have pin: "?p \<in> set (this # xs)" and qin: "?q \<in> set (f # ys)" by (rule last_in_set, simp)+
  then have ne: "?p \<noteq> ?q" "this \<noteq> f" "this \<noteq> ?q" "f \<noteq> ?p" using assms(3) by auto
  have nx: "m_next ?s = (m_next s)(?q := this, ?p := f)"
    using ne p q by (simp add: SplicePrev_def Let_def link_simps del: last.simps)
  have pv: "m_prev ?s = (m_prev s)(f := ?p, this := ?q)"
    using ne p q by (simp add: SplicePrev_def Let_def link_simps del: last.simps)
  have d: "distinct (this # xs)" "distinct (f # ys)" using assms(1,2) by (auto simp: is_ring_def)
  have "seg ?s this xs f"
  proof (rule seg_redirect [where s = s and z = this])
    show "seg s this xs this" using assms(1) by (simp add: is_ring_def)
    show "m_next ?s n = m_next s n" if "n \<in> set (this # xs)" "n \<noteq> ?p" for n
      using that nx qin assms(3) by auto
    show "m_prev ?s n = m_prev s n" if "n \<in> set xs" for n using that pv assms(3) d by auto
    show "m_next ?s ?p = f" using nx by simp
    show "m_prev ?s f = ?p" using pv ne by (simp del: last.simps)
  qed (use d assms(3) in auto)
  moreover have "seg ?s f ys this"
  proof (rule seg_redirect [where s = s and z = f])
    show "seg s f ys f" using assms(2) by (simp add: is_ring_def)
    show "m_next ?s n = m_next s n" if "n \<in> set (f # ys)" "n \<noteq> ?q" for n
      using that nx pin assms(3) by auto
    show "m_prev ?s n = m_prev s n" if "n \<in> set ys" for n using that pv assms(3) d by auto
    show "m_next ?s ?q = this" using nx ne by (simp del: last.simps)
    show "m_prev ?s this = ?q" using pv by simp
  qed (use d assms(3) in auto)
  ultimately show ?thesis using assms by (auto simp: is_ring_def seg_append)
qed

text \<open>
  Linking in a member of the same ring splits the ring in two.
\<close>

lemma SplicePrev_splits:
  assumes "is_ring s this (xs @ f # ys)"
  shows "is_ring (SplicePrev s this f f) this xs \<and> is_ring (SplicePrev s this f f) f ys"
proof -
  let ?p = "last (this # xs)" and ?q = "last (f # ys)"
  let ?s = "SplicePrev s this f f"
  have segs: "seg s this xs f" "seg s f ys this" using assms by (auto simp: is_ring_def seg_append)
  have d: "distinct (this # xs)" "distinct (f # ys)" "set (this # xs) \<inter> set (f # ys) = {}"
    using assms by (auto simp: is_ring_def)
  have q: "m_prev s this = ?q" and p: "m_prev s f = ?p" using segs seg_last by blast+
  have pin: "?p \<in> set (this # xs)" and qin: "?q \<in> set (f # ys)" by (rule last_in_set, simp)+
  then have ne: "?p \<noteq> ?q" "this \<noteq> f" "this \<noteq> ?q" "f \<noteq> ?p" using d by auto
  have nx: "m_next ?s = (m_next s)(?p := this, ?q := f)"
    using ne p q by (simp add: SplicePrev_def Let_def link_simps del: last.simps)
  have pv: "m_prev ?s = (m_prev s)(f := ?q, this := ?p)"
    using ne p q by (simp add: SplicePrev_def Let_def link_simps del: last.simps)
  have "seg ?s this xs this"
  proof (rule seg_redirect [OF segs(1) d(1)])
    show "m_next ?s n = m_next s n" if "n \<in> set (this # xs)" "n \<noteq> ?p" for n
      using that nx qin d by auto
    show "m_prev ?s n = m_prev s n" if "n \<in> set xs" for n using that pv d by auto
    show "m_next ?s ?p = this" using nx ne by (simp del: last.simps)
    show "m_prev ?s this = ?p" using pv by simp
  qed (use d in auto)
  moreover have "seg ?s f ys f"
  proof (rule seg_redirect [OF segs(2) d(2)])
    show "m_next ?s n = m_next s n" if "n \<in> set (f # ys)" "n \<noteq> ?q" for n
      using that nx pin d by auto
    show "m_prev ?s n = m_prev s n" if "n \<in> set ys" for n using that pv d by auto
    show "m_next ?s ?q = f" using nx by simp
    show "m_prev ?s f = ?q" using pv ne by (simp del: last.simps)
  qed (use d in auto)
  ultimately show ?thesis using d by (auto simp: is_ring_def)
qed


text \<open>The other primitives are instances of \<open>SplicePrev\<close>.\<close>

lemma Unlink_until_SplicePrev:
  assumes "this \<noteq> lst" and "m_prev s this \<noteq> m_prev s lst"
  shows "Unlink_until s this lst = SplicePrev s lst this this"
  using assms
  by (auto simp: Unlink_until_def SplicePrev_def Let_def link_simps fun_eq_iff intro!: links.equality)

lemma SpliceNext_SplicePrev:
  assumes "m_prev s (m_next s this) = this" and "this \<noteq> m_prev s f" and "m_next s this \<noteq> f"
    and "this \<noteq> f"
  shows "SpliceNext s this f f = SplicePrev s (m_next s this) f f"
  using assms
  by (auto simp: SpliceNext_def SplicePrev_def Let_def link_simps fun_eq_iff intro!: links.equality)

lemma single_ring: "m_next s n = n \<Longrightarrow> m_prev s n = n \<Longrightarrow> is_ring s n []"
  by (simp add: is_ring_def)

lemma push_back_ring:
  assumes "is_ring s root xs" and "is_ring s n []" and "n \<notin> set (root # xs)"
  shows "is_ring (push_back s root n) root (xs @ [n])"
  using SplicePrev_joins [OF assms(1,2)] assms(3) by (auto simp: push_back_def LinkPrev_def)

lemma insert_ring:
  assumes "is_ring s root (xs @ pos # ys)" and "is_ring s n []" and "n \<notin> set (root # xs @ pos # ys)"
  shows "is_ring (list_insert s pos n) root (xs @ n # pos # ys)"
proof -
  have "is_ring s pos (ys @ root # xs)" using assms(1) is_ring_rotate by blast
  then have "is_ring (list_insert s pos n) pos ((ys @ root # xs) @ [n])"
    using SplicePrev_joins [of s pos "ys @ root # xs" n "[]"] assms(2,3)
    by (auto simp: list_insert_def LinkPrev_def)
  then show ?thesis using is_ring_rotate [of _ root "xs @ [n]" pos ys] by simp
qed

lemma push_front_ring:
  assumes "is_ring s root xs" and "is_ring s n []" and "n \<notin> set (root # xs)"
  shows "is_ring (push_front s root n) root (n # xs)"
proof (cases xs)
  case Nil
  then show ?thesis
    using assms push_back_ring [OF assms] SpliceNext_SplicePrev [of s root n]
    by (auto simp: is_ring_def push_front_def LinkNext_def push_back_def LinkPrev_def)
next
  case (Cons x ys)
  then have "SpliceNext s root n n = SplicePrev s x n n"
    using assms SpliceNext_SplicePrev [of s root n] by (auto simp: is_ring_def)
  then show ?thesis
    using insert_ring [of s root "[]" x ys n] assms Cons
    by (simp add: push_front_def LinkNext_def list_insert_def LinkPrev_def)
qed

lemma Unlink_ring:
  assumes "is_ring s root (as @ n # bs)"
  shows "is_ring (Unlink s n) root (as @ bs) \<and> is_ring (Unlink s n) n []"
proof -
  let ?l = "hd (bs @ [root])"
  have r: "is_ring s n (bs @ root # as)" using assms is_ring_rotate by blast
  have nx: "m_next s n = ?l" using is_ring_links(2) [OF r] by (cases bs) auto
  obtain cs where cs: "bs @ root # as = ?l # cs" by (cases bs) auto
  have pn: "m_prev s n = last (?l # cs)" using is_ring_links(1) [OF r] cs by simp
  have pl: "m_prev s ?l = n" using r cs by (simp add: is_ring_def)
  have d: "distinct (n # ?l # cs)" using r cs by (simp add: is_ring_def)
  then have "n \<noteq> last (?l # cs)" using last_in_set [of "?l # cs"] by auto
  then have u: "Unlink s n = SplicePrev s ?l n n"
    unfolding Unlink_def nx using Unlink_until_SplicePrev [of n ?l s] pn pl d by auto
  have "is_ring s n ([] @ ?l # cs)" using r cs by simp
  then have "is_ring s ?l (cs @ n # [])" by (simp only: is_ring_rotate append_Nil)
  from SplicePrev_splits [OF this] have "is_ring (Unlink s n) ?l cs" "is_ring (Unlink s n) n []"
    unfolding u by auto
  moreover have "is_ring t ?l cs \<longleftrightarrow> is_ring t root (as @ bs)" for t
  proof (cases bs)
    case Nil
    then show ?thesis using cs by simp
  next
    case (Cons b bs')
    then have "cs = bs' @ root # as" "?l = b" using cs by auto
    then show ?thesis using is_ring_rotate [of t root as b bs'] Cons by simp
  qed
  ultimately show ?thesis by blast
qed

lemma walk_seg:
  "seg s x ys root \<Longrightarrow> root \<notin> set ys \<Longrightarrow> length ys \<le> k \<Longrightarrow> walk k s root (m_next s x) = Some ys"
proof (induction ys arbitrary: x k)
  case Nil
  then show ?case by (cases k) auto
next
  case (Cons y ys)
  then obtain k' where "k = Suc k'" by (cases k) auto
  then show ?case using Cons by auto
qed

lemma elements_ring: "is_ring s root xs \<Longrightarrow> length xs \<le> k \<Longrightarrow> elements k s root = Some xs"
  unfolding elements_def is_ring_def by (intro walk_seg) auto

lemma list_clear_ring:
  "is_ring s root xs \<Longrightarrow> length xs \<le> k \<Longrightarrow> \<exists>s'. list_clear k s root = Some s' \<and> is_ring s' root []"
proof (induction xs arbitrary: s k)
  case Nil
  then have "list_empty s root" by (simp add: is_ring_def list_empty_def IsLinked_def)
  then show ?case using Nil by (cases k) auto
next
  case (Cons x xs)
  then obtain k' where k: "k = Suc k'" by (cases k) auto
  have n: "m_next s root = x" and "x \<noteq> root" using Cons.prems(1) by (auto simp: is_ring_def)
  moreover have "is_ring (pop_front s root) root xs"
    using Unlink_ring [of s root "[]" x xs] Cons.prems(1) n by (simp add: pop_front_def)
  ultimately show ?case
    using Cons.IH [of "pop_front s root" k'] Cons.prems(2) k by (simp add: list_empty_def IsLinked_def)
qed


section \<open>Lists as sequences\<close>

text \<open>
  What a client of a list relies on: the list under a root holds a sequence of nodes, linking
  in a fresh node appends it, and the traversal yields the sequence.
\<close>

locale node_sequence =
  fixes holds :: "'s \<Rightarrow> 'n \<Rightarrow> 'n list \<Rightarrow> bool"
    and fresh :: "'s \<Rightarrow> 'n \<Rightarrow> bool"
    and push :: "'s \<Rightarrow> 'n \<Rightarrow> 'n \<Rightarrow> 's"
    and traverse :: "nat \<Rightarrow> 's \<Rightarrow> 'n \<Rightarrow> 'n list option"
  assumes holds_push:
      "holds s r xs \<Longrightarrow> fresh s n \<Longrightarrow> n \<notin> set (r # xs) \<Longrightarrow> holds (push s r n) r (xs @ [n])"
    and fresh_push:
      "holds s r xs \<Longrightarrow> fresh s n \<Longrightarrow> n \<notin> set (r # xs) \<Longrightarrow> fresh s m \<Longrightarrow> m \<notin> set (n # r # xs) \<Longrightarrow>
       fresh (push s r n) m"
    and holds_traverse: "holds s r xs \<Longrightarrow> length xs \<le> k \<Longrightarrow> traverse k s r = Some xs"
begin

lemma push_all:
  "holds s r xs \<Longrightarrow> \<forall>n \<in> set ns. fresh s n \<Longrightarrow> distinct ns \<Longrightarrow> set ns \<inter> set (r # xs) = {} \<Longrightarrow>
   holds (fold (\<lambda>n s. push s r n) ns s) r (xs @ ns)"
proof (induction ns arbitrary: s xs)
  case (Cons n ns)
  have h: "holds (push s r n) r (xs @ [n])" using holds_push [of s r xs n] Cons.prems by auto
  moreover have "\<forall>m \<in> set ns. fresh (push s r n) m" using fresh_push Cons.prems by force
  ultimately show ?case using Cons.IH [of "push s r n" "xs @ [n]"] Cons.prems by simp
qed simp

lemma traverse_push_all:
  "holds s r [] \<Longrightarrow> \<forall>n \<in> set ns. fresh s n \<Longrightarrow> distinct ns \<Longrightarrow> r \<notin> set ns \<Longrightarrow> length ns \<le> k \<Longrightarrow>
   traverse k (fold (\<lambda>n s. push s r n) ns s) r = Some ns"
  using push_all [of s r "[]" ns] holds_traverse by simp

end

lemma push_back_untouched:
  assumes "is_ring s root xs" and "is_ring s n []" and "m \<notin> set (n # root # xs)"
  shows "m_next (push_back s root n) m = m_next s m \<and> m_prev (push_back s root n) m = m_prev s m"
proof -
  have "m_prev s root = last (root # xs)" "m_prev s n = n"
    using is_ring_links [OF assms(1)] is_ring_links [OF assms(2)] by simp_all
  moreover have "last (root # xs) \<in> set (root # xs)" by (rule last_in_set) simp
  ultimately show ?thesis
    using assms(3) by (auto simp: push_back_def LinkPrev_def SplicePrev_def Let_def link_simps)
qed

interpretation ilist: node_sequence is_ring "\<lambda>s n. is_ring s n []" push_back elements
proof unfold_locales
  show "is_ring (push_back s r n) m []"
    if "is_ring s r xs" "is_ring s n []" "n \<notin> set (r # xs)" "is_ring s m []" "m \<notin> set (n # r # xs)"
    for s r xs n m
    using that push_back_untouched [OF that(1,2,5)] by (auto simp: is_ring_def)
qed (auto intro: push_back_ring elements_ring)

text \<open>A store of nodes that are all unlinked, as their constructors leave them.\<close>

definition unlinked :: links where
  "unlinked = \<lparr>m_prev = (\<lambda>n. n), m_next = (\<lambda>n. n)\<rparr>"

definition link_all :: "node \<Rightarrow> node list \<Rightarrow> links" where
  "link_all root ns = fold (\<lambda>n s. push_back s root n) ns unlinked"

lemma unlinked_ring: "is_ring unlinked n []"
  by (simp add: is_ring_def unlinked_def)

lemma link_all_ring: "distinct (root # ns) \<Longrightarrow> is_ring (link_all root ns) root ns"
  using ilist.push_all [of unlinked root "[]" ns] by (simp add: link_all_def unlinked_ring)

text \<open>
  C18: the intrusive list implements a sequence.  For a list that holds \<open>xs\<close> and a node that is
  linked nowhere, \<open>push_back\<close>, \<open>push_front\<close> and \<open>insert\<close> put the node at the end, at the front
  and before the given member; \<open>erase\<close> removes exactly the given member, leaves it unlinked and
  returns the iterator behind it; a traversal visits the members in order and ends; \<open>clear\<close>
  ends and leaves the list empty.
\<close>

theorem list_operations_refine_sequences:
  assumes "is_ring s root (xs @ p # ys)" and "is_ring s n []" and "n \<notin> set (root # xs @ p # ys)"
    and "length (xs @ p # ys) \<le> k"
  shows "is_ring (push_back s root n) root (xs @ p # ys @ [n]) \<and>
         is_ring (push_front s root n) root (n # xs @ p # ys) \<and>
         is_ring (list_insert s p n) root (xs @ n # p # ys) \<and>
         (\<exists>s'. list_erase s root p = (s', hd (ys @ [root])) \<and> is_ring s' root (xs @ ys) \<and>
               is_ring s' p []) \<and>
         elements k s root = Some (xs @ p # ys) \<and>
         (\<exists>s'. list_clear k s root = Some s' \<and> is_ring s' root [])"
proof -
  have "p \<noteq> root" and "is_ring s p (ys @ root # xs)"
    using assms(1) is_ring_rotate by (auto simp: is_ring_def)
  then have "list_erase s root p = (Unlink s p, hd (ys @ [root]))"
    using is_ring_links(2) [of s p "ys @ root # xs"] by (cases ys) (auto simp: list_erase_def)
  then show ?thesis
    using push_back_ring [OF assms(1-3)] push_front_ring [OF assms(1-3)] insert_ring [OF assms(1-3)]
      Unlink_ring [OF assms(1)] elements_ring [OF assms(1,4)] list_clear_ring [OF assms(1,4)]
    by simp
qed

theorem list_operations_refine_sequences_witness:
  "is_ring (push_back (link_all 0 [1, 2, 3]) 0 4) 0 [1, 2, 3, 4] \<and>
   elements 5 (link_all 0 [1, 2, 3]) 0 = Some [1, 2, 3]"
proof -
  have "is_ring (link_all 0 [1, 2, 3]) 0 ([1] @ 2 # [3])" using link_all_ring [of 0 "[1, 2, 3]"] by simp
  moreover have "is_ring (link_all 0 [1, 2, 3]) 4 []" by (simp add: is_ring_def) code_simp
  ultimately show ?thesis
    using list_operations_refine_sequences [of "link_all 0 [1, 2, 3]" 0 "[1]" 2 "[3]" 4 5] by simp
qed

text \<open>
  C19: linking a node that already belongs to another list does not move it.  It joins the two
  rings: a traversal of the target list then runs through the rest of the other list, through
  the root node of the other list as if it were a member, and through the members before the
  node; and the other list now runs through the target's root node.
\<close>

theorem push_back_of_linked_node_joins_lists:
  assumes "is_ring s r1 xs" and "is_ring s r2 (as @ n # bs)"
    and "set (r1 # xs) \<inter> set (r2 # as @ n # bs) = {}"
  shows "is_ring (push_back s r1 n) r1 (xs @ n # bs @ r2 # as) \<and>
         is_ring (push_back s r1 n) r2 (as @ r1 # xs @ n # bs)"
proof -
  have "is_ring s n (bs @ r2 # as)" using assms(2) is_ring_rotate by blast
  then have j: "is_ring (push_back s r1 n) r1 (xs @ n # bs @ r2 # as)"
    using SplicePrev_joins [OF assms(1), of n "bs @ r2 # as"] assms(3)
    by (auto simp: push_back_def LinkPrev_def)
  then have "is_ring (push_back s r1 n) r2 (as @ r1 # xs @ n # bs)"
    using is_ring_rotate [of _ r1 "xs @ n # bs" r2 as] by simp
  then show ?thesis using j by blast
qed

theorem push_back_of_linked_node_joins_lists_witness:
  "is_ring (push_back (link_all 0 [1, 2, 3]) 9 2) 9 [2, 3, 0, 1]"
proof -
  have "is_ring (link_all 0 [1, 2, 3]) 0 ([1] @ 2 # [3])" using link_all_ring [of 0 "[1, 2, 3]"] by simp
  moreover have "is_ring (link_all 0 [1, 2, 3]) 9 []" by (simp add: is_ring_def) code_simp
  ultimately show ?thesis
    using push_back_of_linked_node_joins_lists [of "link_all 0 [1, 2, 3]" 9 "[]" 0 "[1]" 2 "[3]"] by simp
qed

end
