(* ===== verification/IR_Block.thy ===== *)
theory IR_Block
  imports IR_Inst Intrusive_List
begin

text \<open>
  Locations, terminals and basic blocks (\<open>src/source/runtime/ir/location.h\<close>, \<open>terminal.h\<close>,
  \<open>block.h\<close>, \<open>block.cpp\<close>).  The instruction list of a block is a sequence of addresses for the
  operations that append to it; the destructor, which erases while it iterates, is modelled on
  the links of the list nodes.
\<close>

section \<open>Locations and terminals\<close>

type_synonym Location = size_t

datatype Terminal =
    Invalid
  | ReturnToDispatch
  | LinkBlockT Location
  | LinkBlockFastT Location
  | PopRSBHint
  | IfT ir_value Terminal Terminal
  | SwitchT ir_value "(Imm \<times> Terminal) list"
  | CheckHaltT Terminal

text \<open>The constructors of \<open>If\<close> and \<open>Switch\<close> count a use of the value they test.\<close>

definition make_If :: "inst_heap \<Rightarrow> ir_value \<Rightarrow> Terminal \<Rightarrow> Terminal \<Rightarrow> (inst_heap \<times> Terminal) result" where
  "make_If h cond then_t else_t = res_bind (Value_Use h cond) (\<lambda>h1. Inr (h1, IfT cond then_t else_t))"

definition make_Switch ::
  "inst_heap \<Rightarrow> ir_value \<Rightarrow> (Imm \<times> Terminal) list \<Rightarrow> (inst_heap \<times> Terminal) result" where
  "make_Switch h val cases = res_bind (Value_Use h val) (\<lambda>h1. Inr (h1, SwitchT val cases))"

section \<open>Blocks\<close>

record Block =
  block_id :: u32
  location :: Location
  end_location :: Location
  inst_list :: "inst_ptr list"
  block_term :: Terminal

definition new_Block :: "Location \<Rightarrow> Block" where
  "new_Block loc = \<lparr>block_id = 0, location = loc, end_location = 0, inst_list = [],
     block_term = Invalid\<rparr>"

definition SetTerminal :: "Block \<Rightarrow> Terminal \<Rightarrow> Block" where
  "SetTerminal b term = b\<lparr>block_term := term\<rparr>"

definition SetEndLocation :: "Block \<Rightarrow> Location \<Rightarrow> Block" where
  "SetEndLocation b loc = b\<lparr>end_location := loc\<rparr>"

text \<open>\<open>boost::variant::empty\<close> is always false.\<close>

definition variant_empty :: "Terminal \<Rightarrow> bool" where
  "variant_empty t = False"

definition HasTerminal :: "Block \<Rightarrow> bool" where
  "HasTerminal b = (\<not> variant_empty (block_term b))"

definition Block_Compare :: "Block \<Rightarrow> Block \<Rightarrow> int" where
  "Block_Compare lhs rhs =
     (if location rhs > location lhs then 1 else if location rhs < location lhs then - 1 else 0)"

definition Block_AppendInst ::
  "(OpCode \<Rightarrow> nat \<Rightarrow> ArgType) \<Rightarrow> inst_heap \<Rightarrow> Block \<Rightarrow> inst_ptr \<Rightarrow> Block result" where
  "Block_AppendInst oob h b p =
     res_bind (Validate oob h p) (\<lambda>_. Inr (b\<lparr>inst_list := inst_list b @ [p]\<rparr>))"

definition DestroyInst ::
  "inst_heap \<Rightarrow> links \<Rightarrow> node \<Rightarrow> inst_ptr \<Rightarrow> (inst_heap \<times> links) result" where
  "DestroyInst h s root p =
     (let (s1, _) = list_erase s root p in
      res_bind (delete_inst h p) (\<lambda>h1. Inr (h1, s1)))"

text \<open>
  \<open>Block::~Block\<close>: the range-based loop keeps an iterator on the instruction that it destroys
  and advances it afterwards.  Deleting an instruction that was deleted before is the failure
  \<open>NullDeref\<close>.
\<close>

fun destroy_loop ::
  "nat \<Rightarrow> inst_heap \<Rightarrow> links \<Rightarrow> node \<Rightarrow> node \<Rightarrow> (inst_heap \<times> links) result" where
  "destroy_loop 0 h s root it = Inl Diverges"
| "destroy_loop (Suc k) h s root it =
     (if it = root then Inr (h, s)
      else res_bind (DestroyInst h s root it) (\<lambda>(h1, s1).
             destroy_loop k h1 s1 root (m_next s1 it)))"

definition Block_destructor :: "nat \<Rightarrow> inst_heap \<Rightarrow> links \<Rightarrow> node \<Rightarrow> (inst_heap \<times> links) result" where
  "Block_destructor k h s root = destroy_loop k h s root (m_next s root)"

section \<open>Properties\<close>

lemma delete_inst_dead:
  assumes "h ! p = None" and "p < length h"
  shows "delete_inst h p = Inl NullDeref"
proof -
  have "[0..<max_args] = 0 # [1..<4]" by (simp add: max_args_def upt_rec)
  then show ?thesis
    using assms by (simp add: delete_inst_def DestroyArg_def ArgAt_def inst_at_def)
qed

lemma delete_inst_kills:
  assumes "delete_inst h p = Inr h'"
  shows "p < length h' \<and> h' ! p = None"
proof -
  from assms obtain h1 where d: "destroy_args h p [0..<max_args] = Inr h1" and h': "h' = h1[p := None]"
    by (auto simp: delete_inst_def)
  have "[0..<max_args] = 0 # [1..<4]" by (simp add: max_args_def upt_rec)
  then obtain g where "DestroyArg h p 0 = Inr g" using d by auto
  then have p: "p < length h" by (auto simp: DestroyArg_def ArgAt_def ir_simps elim!: res_bind_InrE)
  have "destroy_args h p is = Inr h1 \<Longrightarrow> length h1 = length h" for "is"
  proof (induction "is" arbitrary: h)
    case (Cons i "is")
    then obtain h2 where "DestroyArg h p i = Inr h2" "destroy_args h2 p is = Inr h1" by auto
    then show ?case using Cons.IH [of h2] DestroyArg_counts by (metis length_args_of)
  qed simp
  then show ?thesis using d h' p by auto
qed

text \<open>
  C20: \<open>Block::~Block\<close> of a block with at least one instruction whose first instruction can be
  deleted never completes: erasing the current instruction unlinks its node from the list and
  links it to itself, so that advancing the iterator yields the same, already deleted
  instruction, which is then deleted a second time.
\<close>

theorem Block_destructor_deletes_twice:
  assumes "is_ring s root (p # ps)" and "delete_inst h p = Inr h1"
  shows "Block_destructor (Suc (Suc k)) h s root = Inl NullDeref"
proof -
  have pr: "p \<noteq> root" and nx: "m_next s root = p" using assms(1) by (auto simp: is_ring_def)
  have "is_ring (Unlink s p) p []" using Unlink_ring [of s root "[]" p ps] assms(1) by simp
  then have self: "m_next (Unlink s p) p = p" by (simp add: is_ring_def)
  have "delete_inst h1 p = Inl NullDeref" using delete_inst_kills [OF assms(2)] delete_inst_dead by blast
  then show ?thesis
    using assms(2) pr nx self by (simp add: Block_destructor_def DestroyInst_def list_erase_def)
qed

theorem Block_destructor_deletes_twice_witness:
  "Block_destructor 100 [Some (Inst OpPopRSB)] (link_all 1 [0]) 1 = Inl NullDeref"
proof -
  have "is_ring (link_all 1 [0]) 1 [0]" by (rule link_all_ring) simp
  moreover have "delete_inst [Some (Inst OpPopRSB)] 0 = Inr [None]" by code_simp
  ultimately show ?thesis
    using Block_destructor_deletes_twice [of "link_all 1 [0]" 1 0 "[]" _ _ 98] by simp
qed

end
