(* ===== verification/HIR_Builder.thy ===== *)
theory HIR_Builder
  imports IR_Block
begin

text \<open>
  The function builder (\<open>src/source/runtime/ir/hir_builder.h\<close>, \<open>hir_builder.cpp\<close>).  A function
  owns pools of blocks, edges and values; a pointer is the index of the object in its pool.
  The instructions of a function form its own store.

  The map of values (\<open>IntrusiveMap\<close>, a search tree ordered by the id of the defining
  instruction) is its in-order sequence: \<open>Compare(lhs, rhs)\<close> is positive when the id of \<open>rhs\<close> is
  greater, so a traversal meets the ids in descending order.  Vectors allocated from the arena
  are not initialised: an entry that was not written is \<open>None\<close>.

  The theories \<open>HIR_Graph\<close> and \<open>HIR_Values\<close> hold the lemmas.
\<close>

section \<open>State\<close>

type_synonym block_ptr = nat
type_synonym edge_ptr = nat
type_synonym value_ptr = nat

record Edge =
  src_block :: block_ptr
  dest_block :: block_ptr
  eflags :: u8

definition CONDITIONAL :: u8 where "CONDITIONAL = push_bit 0 1"
definition DOMINATES :: u8 where "DOMINATES = push_bit 1 1"

definition new_Edge :: "block_ptr \<Rightarrow> block_ptr \<Rightarrow> Edge" where
  "new_Edge src dest = \<lparr>src_block = src, dest_block = dest, eflags = 0\<rparr>"

datatype ValueAllocated = ANone | AGPR u16 | AFPR u16 | AMEM u16

definition Allocated :: "ValueAllocated \<Rightarrow> bool" where
  "Allocated a \<longleftrightarrow> a \<noteq> ANone"

record HIRUse =
  use_inst :: inst_ptr
  use_arg_idx :: u8

definition USE_PHI :: u8 where "USE_PHI = 254"

record HIRValue =
  hv_inst :: inst_ptr
  hv_block :: block_ptr
  hv_allocated :: ValueAllocated
  hv_uses :: "HIRUse list"

text \<open>A phi: its value and its inputs.\<close>

record HIRPhi =
  phi_value :: value_ptr
  phi_inputs :: "value_ptr list"

record HIRBlock =
  order_id :: u16
  block :: Block
  outgoing_edges :: "edge_ptr list"
  incoming_edges :: "edge_ptr list"
  predecessors :: "block_ptr option list"
  successors :: "block_ptr option list"
  back_edges :: "block_ptr list"
  phis :: "HIRPhi list"
  dominator :: "block_ptr option"

record HIRFunction =
  insts :: inst_heap
  pool_blocks :: "HIRBlock list"
  pool_edges :: "Edge list"
  pool_values :: "HIRValue list"
  max_local_id :: u16
  fn_begin :: Location
  fn_end :: Location
  block_order_id :: u16
  value_order_id :: u16
  blocks :: "block_ptr option list"
  block_list :: "block_ptr list"
  blocks_rpo :: "block_ptr list"
  hvalues :: "value_ptr list"
  current_block :: "block_ptr option"

definition upd_block :: "HIRFunction \<Rightarrow> block_ptr \<Rightarrow> (HIRBlock \<Rightarrow> HIRBlock) \<Rightarrow> HIRFunction result" where
  "upd_block f b g =
     res_bind (vec_at (pool_blocks f) b) (\<lambda>blk.
       Inr (f\<lparr>pool_blocks := (pool_blocks f)[b := g blk]\<rparr>))"

definition upd_value :: "HIRFunction \<Rightarrow> value_ptr \<Rightarrow> (HIRValue \<Rightarrow> HIRValue) \<Rightarrow> HIRFunction result" where
  "upd_value f v g =
     res_bind (vec_at (pool_values f) v) (\<lambda>x.
       Inr (f\<lparr>pool_values := (pool_values f)[v := g x]\<rparr>))"

definition deref_current :: "HIRFunction \<Rightarrow> block_ptr result" where
  "deref_current f = (case current_block f of None \<Rightarrow> Inl NullDeref | Some b \<Rightarrow> Inr b)"

section \<open>Values\<close>

text \<open>The id by which the map orders a value.\<close>

definition value_id :: "HIRFunction \<Rightarrow> value_ptr \<Rightarrow> u16 result" where
  "value_id f v =
     res_bind (vec_at (pool_values f) v) (\<lambda>x.
     res_bind (inst_at (insts f) (hv_inst x)) (\<lambda>i. Inr (inst_id i)))"

fun values_find :: "HIRFunction \<Rightarrow> u16 \<Rightarrow> value_ptr list \<Rightarrow> value_ptr option result" where
  "values_find f ident [] = Inr None"
| "values_find f ident (v # vs) =
     res_bind (value_id f v) (\<lambda>k.
       if k = ident then Inr (Some v) else values_find f ident vs)"

fun values_insert :: "HIRFunction \<Rightarrow> value_ptr \<Rightarrow> value_ptr list \<Rightarrow> value_ptr list result" where
  "values_insert f v [] = Inr [v]"
| "values_insert f v (w # ws) =
     res_bind (value_id f v) (\<lambda>k.
     res_bind (value_id f w) (\<lambda>l.
       if l < k then Inr (v # w # ws)
       else if l = k then Inr (w # ws)
       else res_bind (values_insert f v ws) (\<lambda>ws'. Inr (w # ws'))))"

definition GetHIRValue :: "HIRFunction \<Rightarrow> ir_value \<Rightarrow> value_ptr option result" where
  "GetHIRValue f v =
     (case v of
        None \<Rightarrow> Inl NullDeref
      | Some d \<Rightarrow>
          res_bind (inst_at (insts f) d) (\<lambda>i. values_find f (inst_id i) (hvalues f)))"

definition HIRValue_Use :: "HIRFunction \<Rightarrow> value_ptr \<Rightarrow> inst_ptr \<Rightarrow> u8 \<Rightarrow> HIRFunction result" where
  "HIRValue_Use f v p idx =
     upd_value f v (hv_uses_update (\<lambda>us. us @ [\<lparr>use_inst = p, use_arg_idx = idx\<rparr>]))"

definition HIRValue_UnUse :: "HIRFunction \<Rightarrow> value_ptr \<Rightarrow> inst_ptr \<Rightarrow> u8 \<Rightarrow> HIRFunction result" where
  "HIRValue_UnUse f v p idx =
     upd_value f v (hv_uses_update (remove1 \<lparr>use_inst = p, use_arg_idx = idx\<rparr>))"

definition DestroyHIRValue :: "HIRFunction \<Rightarrow> value_ptr \<Rightarrow> HIRFunction" where
  "DestroyHIRValue f v = f\<lparr>hvalues := remove1 v (hvalues f)\<rparr>"

text \<open>
  The creation of a value: its constructor gives the defining instruction its id, then it is
  inserted into the map.
\<close>

definition create_value :: "HIRFunction \<Rightarrow> inst_ptr \<Rightarrow> block_ptr \<Rightarrow> (HIRFunction \<times> value_ptr) result" where
  "create_value f p b =
     (let v = length (pool_values f);
          ident = value_order_id f in
      res_bind (SetId (insts f) p ident) (\<lambda>h.
      (let f1 = f\<lparr>insts := h, value_order_id := ident + 1,
                   pool_values := pool_values f @
                     [\<lparr>hv_inst = p, hv_block = b, hv_allocated = ANone, hv_uses = []\<rparr>]\<rparr> in
       res_bind (values_insert f1 v (hvalues f1)) (\<lambda>vs. Inr (f1\<lparr>hvalues := vs\<rparr>, v)))))"

section \<open>Instructions\<close>

fun record_uses :: "HIRFunction \<Rightarrow> inst_ptr \<Rightarrow> nat list \<Rightarrow> HIRFunction result" where
  "record_uses f p [] = Inr f"
| "record_uses f p (i # is) =
     res_bind (ArgAt (insts f) p i) (\<lambda>a.
     res_bind (if IR_Types.IsValue a then res_bind (Get_Value a) (\<lambda>v. GetHIRValue f v)
               else if IsLambda a then
                 res_bind (Get_Lambda a) (\<lambda>l.
                   if lambda_IsValue l then res_bind (lambda_GetValue l) (\<lambda>v. GetHIRValue f v)
                   else Inr None)
               else Inr None) (\<lambda>hir_value.
     res_bind (case hir_value of
                 None \<Rightarrow> Inr f
               | Some v \<Rightarrow> HIRValue_Use f v p (of_nat i)) (\<lambda>f1.
       record_uses f1 p is)))"

definition note_local :: "HIRFunction \<Rightarrow> inst_ptr \<Rightarrow> HIRFunction result" where
  "note_local f p =
     res_bind (inst_at (insts f) p) (\<lambda>i.
       if op_code i = OpLoadLocal \<or> op_code i = OpStoreLocal then
         res_bind (GetArg_Local (insts f) p 0) (\<lambda>l.
           Inr (f\<lparr>max_local_id := max (local_id l) (max_local_id f)\<rparr>))
       else Inr f)"

definition AppendInst_ptr :: "(OpCode \<Rightarrow> nat \<Rightarrow> ArgType) \<Rightarrow> HIRFunction \<Rightarrow> inst_ptr \<Rightarrow> HIRFunction result" where
  "AppendInst_ptr oob f p =
     res_bind (deref_current f) (\<lambda>cur.
     res_bind (vec_at (pool_blocks f) cur) (\<lambda>hb.
     res_bind (Block_AppendInst oob (insts f) (block hb) p) (\<lambda>blk.
     res_bind (upd_block f cur (block_update (\<lambda>_. blk))) (\<lambda>f1.
     res_bind (inst_at (insts f1) p) (\<lambda>i.
     res_bind (HasValue i) (\<lambda>has.
     res_bind (if has then res_bind (create_value f1 p cur) (\<lambda>(f2, _). Inr f2) else Inr f1) (\<lambda>f2.
     res_bind (record_uses f2 p [0..<max_args]) (\<lambda>f3.
       note_local f3 p))))))))"

definition AppendInst ::
  "(OpCode \<Rightarrow> nat \<Rightarrow> ArgType) \<Rightarrow> HIRFunction \<Rightarrow> OpCode \<Rightarrow> ArgIn list \<Rightarrow> (HIRFunction \<times> inst_ptr) result" where
  "AppendInst oob f op as =
     res_bind (ASSERT (current_block f \<noteq> None)) (\<lambda>_.
     res_bind (Create (insts f) op as) (\<lambda>(p, h).
     res_bind (AppendInst_ptr oob (f\<lparr>insts := h\<rparr>) p) (\<lambda>f1. Inr (f1, p))))"

definition AppendPhi :: "(OpCode \<Rightarrow> nat \<Rightarrow> ArgType) \<Rightarrow> HIRFunction \<Rightarrow> block_ptr \<Rightarrow> (HIRFunction \<times> nat) result" where
  "AppendPhi oob f b =
     res_bind (vec_at (pool_blocks f) b) (\<lambda>hb.
     res_bind (Create (insts f) OpAddPhi []) (\<lambda>(p, h).
     res_bind (Block_AppendInst oob h (block hb) p) (\<lambda>blk.
     res_bind (upd_block (f\<lparr>insts := h\<rparr>) b (block_update (\<lambda>_. blk))) (\<lambda>f1.
     res_bind (create_value f1 p b) (\<lambda>(f2, v).
     res_bind (upd_block f2 b (phis_update (\<lambda>ps. ps @ [\<lparr>phi_value = v, phi_inputs = []\<rparr>]))) (\<lambda>f3.
       Inr (f3, length (phis hb))))))))"

definition AddInput :: "HIRFunction \<Rightarrow> block_ptr \<Rightarrow> nat \<Rightarrow> value_ptr \<Rightarrow> HIRFunction result" where
  "AddInput f b k input =
     res_bind (vec_at (pool_blocks f) b) (\<lambda>hb.
     res_bind (vec_at (phis hb) k) (\<lambda>phi.
     res_bind (upd_block f b (phis_update (\<lambda>ps.
                 ps[k := phi\<lparr>phi_inputs := phi_inputs phi @ [input]\<rparr>]))) (\<lambda>f1.
     res_bind (vec_at (pool_values f1) (phi_value phi)) (\<lambda>x.
       HIRValue_Use f1 input (hv_inst x) USE_PHI))))"

section \<open>Blocks and edges\<close>

definition new_HIRBlock :: "Location \<Rightarrow> u16 \<Rightarrow> HIRBlock" where
  "new_HIRBlock loc oid =
     \<lparr>order_id = oid, block = new_Block loc, outgoing_edges = [], incoming_edges = [],
      predecessors = [], successors = [], back_edges = [], phis = [], dominator = None\<rparr>"

fun find_block :: "HIRFunction \<Rightarrow> Location \<Rightarrow> block_ptr list \<Rightarrow> block_ptr option result" where
  "find_block f loc [] = Inr None"
| "find_block f loc (b # bs) =
     res_bind (vec_at (pool_blocks f) b) (\<lambda>hb.
       if location (block hb) = loc then Inr (Some b) else find_block f loc bs)"

definition CreateOrGetBlock :: "HIRFunction \<Rightarrow> Location \<Rightarrow> (HIRFunction \<times> block_ptr) result" where
  "CreateOrGetBlock f loc =
     res_bind (find_block f loc (block_list f)) (\<lambda>r.
       case r of
         Some b \<Rightarrow> Inr (f, b)
       | None \<Rightarrow>
           (let b = length (pool_blocks f) in
            Inr (f\<lparr>pool_blocks := pool_blocks f @ [new_HIRBlock loc (block_order_id f)],
                   block_order_id := block_order_id f + 1,
                   block_list := block_list f @ [b]\<rparr>, b)))"

definition AppendBlock :: "HIRFunction \<Rightarrow> Location \<Rightarrow> Location \<Rightarrow> (HIRFunction \<times> block_ptr) result" where
  "AppendBlock f start end_loc =
     res_bind (CreateOrGetBlock f start) (\<lambda>(f1, b).
     res_bind (upd_block f1 b (block_update (\<lambda>blk. SetEndLocation blk end_loc))) (\<lambda>f2.
       Inr (f2\<lparr>current_block := Some b\<rparr>, b)))"

definition new_HIRFunction :: "Location \<Rightarrow> Location \<Rightarrow> HIRFunction result" where
  "new_HIRFunction start end_loc =
     res_bind (AppendBlock
       \<lparr>insts = [], pool_blocks = [], pool_edges = [], pool_values = [], max_local_id = 0,
        fn_begin = start, fn_end = end_loc, block_order_id = 0, value_order_id = 0, blocks = [],
        block_list = [], blocks_rpo = [], hvalues = [], current_block = None\<rparr> start 0)
       (\<lambda>(f, _). Inr f)"

fun clear_dominates :: "Edge list \<Rightarrow> edge_ptr list \<Rightarrow> Edge list result" where
  "clear_dominates es [] = Inr es"
| "clear_dominates es (e # is) =
     res_bind (vec_at es e) (\<lambda>x.
       clear_dominates (es[e := x\<lparr>eflags := eflags x AND NOT DOMINATES\<rparr>]) is)"

definition AddEdge :: "HIRFunction \<Rightarrow> block_ptr option \<Rightarrow> block_ptr option \<Rightarrow> bool \<Rightarrow> HIRFunction result" where
  "AddEdge f src dest conditional =
     (case (src, dest) of
        (Some s, Some d) \<Rightarrow>
          res_bind (vec_at (pool_blocks f) d) (\<lambda>db.
          (let dest_was_dominated = incoming_edges db \<noteq> [];
               e = length (pool_edges f);
               edge = new_Edge s d;
               edge' = (if conditional then edge\<lparr>eflags := eflags edge OR CONDITIONAL\<rparr> else edge);
               f1 = f\<lparr>pool_edges := pool_edges f @ [edge']\<rparr> in
           res_bind (upd_block f1 s (outgoing_edges_update (\<lambda>es. es @ [e]))) (\<lambda>f2.
           res_bind (upd_block f2 d (incoming_edges_update (\<lambda>es. es @ [e]))) (\<lambda>f3.
             if dest_was_dominated then
               res_bind (vec_at (pool_blocks f3) d) (\<lambda>db3.
               res_bind (clear_dominates (pool_edges f3) (incoming_edges db3)) (\<lambda>es.
                 Inr (f3\<lparr>pool_edges := es\<rparr>)))
             else Inr f3))))
      | _ \<Rightarrow> Inl AssertFailed)"

definition EndBlock :: "HIRFunction \<Rightarrow> Terminal \<Rightarrow> HIRFunction result" where
  "EndBlock f term =
     res_bind (deref_current f) (\<lambda>cur.
     res_bind (upd_block f cur (block_update (\<lambda>blk. SetTerminal blk term))) (\<lambda>f1.
       Inr (f1\<lparr>current_block := None\<rparr>)))"

definition MaxBlockCount :: "HIRFunction \<Rightarrow> u16" where "MaxBlockCount f = block_order_id f"
definition MaxValueCount :: "HIRFunction \<Rightarrow> u16" where "MaxValueCount f = value_order_id f"
definition MaxLocalId :: "HIRFunction \<Rightarrow> u16" where "MaxLocalId f = max_local_id f"

text \<open>Filling a fresh vector through a 16-bit index.\<close>

fun fill_from :: "'a option list \<Rightarrow> u16 \<Rightarrow> 'a list \<Rightarrow> 'a option list result" where
  "fill_from vec i [] = Inr vec"
| "fill_from vec i (x # xs) =
     res_bind (vec_set vec (unat i) (Some x)) (\<lambda>vec1. fill_from vec1 (i + 1) xs)"

fun edge_ends :: "(Edge \<Rightarrow> block_ptr) \<Rightarrow> Edge list \<Rightarrow> edge_ptr list \<Rightarrow> block_ptr list result" where
  "edge_ends g es [] = Inr []"
| "edge_ends g es (e # is) =
     res_bind (vec_at es e) (\<lambda>x. res_bind (edge_ends g es is) (\<lambda>bs. Inr (g x # bs)))"

fun end_blocks :: "HIRFunction \<Rightarrow> block_ptr list \<Rightarrow> HIRFunction result" where
  "end_blocks f [] = Inr f"
| "end_blocks f (b # bs) =
     res_bind (vec_at (pool_blocks f) b) (\<lambda>hb.
     res_bind (vec_set (blocks f) (unat (order_id hb)) (Some b)) (\<lambda>vec.
     res_bind (edge_ends src_block (pool_edges f) (incoming_edges hb)) (\<lambda>ins.
     res_bind (edge_ends dest_block (pool_edges f) (outgoing_edges hb)) (\<lambda>outs.
     res_bind (fill_from (replicate (length (incoming_edges hb)) None) 0 ins) (\<lambda>preds.
     res_bind (fill_from (replicate (length (outgoing_edges hb)) None) 0 outs) (\<lambda>succs.
     res_bind (upd_block (f\<lparr>blocks := vec\<rparr>) b (\<lambda>x. x\<lparr>predecessors := preds, successors := succs\<rparr>))
       (\<lambda>f1. end_blocks f1 bs)))))))"

definition EndFunction :: "HIRFunction \<Rightarrow> HIRFunction result" where
  "EndFunction f =
     res_bind (EndBlock f PopRSBHint) (\<lambda>f1.
       end_blocks (f1\<lparr>blocks := replicate (unat (MaxBlockCount f1)) None\<rparr>) (block_list f1))"

text \<open>
  \<open>IdByRPO\<close>: for every block of the reverse post order, all values of the function are
  renumbered, since every block refers to the map of its function.
\<close>

fun renumber :: "HIRFunction \<Rightarrow> u32 \<Rightarrow> value_ptr list \<Rightarrow> (HIRFunction \<times> u32) result" where
  "renumber f cur [] = Inr (f, cur)"
| "renumber f cur (v # vs) =
     res_bind (vec_at (pool_values f) v) (\<lambda>x.
     res_bind (SetId (insts f) (hv_inst x) (ucast cur)) (\<lambda>h.
       renumber (f\<lparr>insts := h\<rparr>) (cur + 1) vs))"

fun id_by_rpo_loop :: "HIRFunction \<Rightarrow> u32 \<Rightarrow> block_ptr list \<Rightarrow> HIRFunction result" where
  "id_by_rpo_loop f cur [] = Inr f"
| "id_by_rpo_loop f cur (b # bs) =
     res_bind (renumber f cur (hvalues f)) (\<lambda>(f1, cur1). id_by_rpo_loop f1 cur1 bs)"

definition IdByRPO :: "HIRFunction \<Rightarrow> HIRFunction result" where
  "IdByRPO f = id_by_rpo_loop f 0 (blocks_rpo f)"

section \<open>The builder\<close>

record HIRBuilder =
  hir_functions :: "HIRFunction list"
  current_location :: Location
  current_function :: "nat option"

definition AppendFunction :: "HIRBuilder \<Rightarrow> Location \<Rightarrow> Location \<Rightarrow> (HIRBuilder \<times> nat) result" where
  "AppendFunction B start end_loc =
     res_bind (new_HIRFunction start end_loc) (\<lambda>f.
       Inr (B\<lparr>hir_functions := hir_functions B @ [f],
              current_function := Some (length (hir_functions B))\<rparr>, length (hir_functions B)))"

definition SetLocation :: "HIRBuilder \<Rightarrow> Location \<Rightarrow> HIRBuilder" where
  "SetLocation B loc = B\<lparr>current_location := loc\<rparr>"

fun GetNextLocation :: "Terminal \<Rightarrow> Location result" where
  "GetNextLocation (LinkBlockT next) = Inr next"
| "GetNextLocation (LinkBlockFastT next) = Inr next"
| "GetNextLocation _ = Inl AssertFailed"

text \<open>The function-level parts of \<open>If\<close>, \<open>Switch\<close> and \<open>LinkBlock\<close>.\<close>

definition fn_If :: "HIRFunction \<Rightarrow> ir_value \<Rightarrow> Terminal \<Rightarrow> Terminal \<Rightarrow>
    (HIRFunction \<times> block_ptr \<times> block_ptr) result" where
  "fn_If f cond then_t else_t =
     (let pre_block = current_block f in
      res_bind (EndBlock f (IfT cond then_t else_t)) (\<lambda>f1.
      res_bind (GetNextLocation else_t) (\<lambda>else_l.
      res_bind (GetNextLocation then_t) (\<lambda>then_l.
      res_bind (AppendBlock f1 else_l 0) (\<lambda>(f2, else_block).
      res_bind (AppendBlock f2 then_l 0) (\<lambda>(f3, then_block).
      res_bind (AddEdge f3 pre_block (Some then_block) True) (\<lambda>f4.
      res_bind (AddEdge f4 pre_block (Some else_block) True) (\<lambda>f5.
        Inr (f5, else_block, then_block)))))))))"

fun switch_cases :: "HIRFunction \<Rightarrow> block_ptr option \<Rightarrow> (Imm \<times> Terminal) list \<Rightarrow>
    (HIRFunction \<times> (Imm \<times> block_ptr) list) result" where
  "switch_cases f pre_block [] = Inr (f, [])"
| "switch_cases f pre_block ((imm, term) # cs) =
     res_bind (GetNextLocation term) (\<lambda>loc.
     res_bind (AppendBlock f loc 0) (\<lambda>(f1, b).
     res_bind (AddEdge f1 pre_block (Some b) True) (\<lambda>f2.
     res_bind (switch_cases f2 pre_block cs) (\<lambda>(f3, rs). Inr (f3, (imm, b) # rs)))))"

definition fn_Switch :: "HIRFunction \<Rightarrow> ir_value \<Rightarrow> (Imm \<times> Terminal) list \<Rightarrow>
    (HIRFunction \<times> (Imm \<times> block_ptr) list) result" where
  "fn_Switch f val cs =
     (let pre_block = current_block f in
      res_bind (EndBlock f (SwitchT val cs)) (\<lambda>f1. switch_cases f1 pre_block cs))"

definition fn_LinkBlock :: "HIRFunction \<Rightarrow> Location \<Rightarrow> (HIRFunction \<times> block_ptr) result" where
  "fn_LinkBlock f next =
     (let pre_block = current_block f in
      res_bind (EndBlock f (LinkBlockT next)) (\<lambda>f1.
      res_bind (AppendBlock f1 next 0) (\<lambda>(f2, next_block).
      res_bind (AddEdge f2 pre_block (Some next_block) False) (\<lambda>f3. Inr (f3, next_block)))))"

text \<open>Every builder operation asserts that a function is being built.\<close>

definition with_function :: "HIRBuilder \<Rightarrow> (HIRFunction \<Rightarrow> (HIRFunction \<times> 'a) result) \<Rightarrow>
    (HIRBuilder \<times> 'a) result" where
  "with_function B g =
     (case current_function B of
        None \<Rightarrow> Inl AssertFailed
      | Some k \<Rightarrow>
          res_bind (vec_at (hir_functions B) k) (\<lambda>f.
          res_bind (g f) (\<lambda>(f1, r).
            Inr (B\<lparr>hir_functions := (hir_functions B)[k := f1]\<rparr>, r))))"

definition Builder_If where
  "Builder_If B cond then_t else_t = with_function B (\<lambda>f. fn_If f cond then_t else_t)"

definition Builder_Switch where
  "Builder_Switch B val cs = with_function B (\<lambda>f. fn_Switch f val cs)"

definition Builder_LinkBlock where
  "Builder_LinkBlock B next = with_function B (\<lambda>f. fn_LinkBlock f next)"

definition Builder_Return :: "HIRBuilder \<Rightarrow> HIRBuilder result" where
  "Builder_Return B =
     res_bind (with_function B (\<lambda>f. res_bind (EndFunction f) (\<lambda>f1. Inr (f1, ())))) (\<lambda>(B1, _).
       Inr (B1\<lparr>current_function := None\<rparr>))"


text \<open>
  The generated methods, one per operation: append the instruction to the current function;
  an operation declared with result \<open>BOOL\<close> gives its instruction that return type.
\<close>

definition returns_bool :: "OpCode \<Rightarrow> bool" where
  "returns_bool op =
     (op \<in> set [OpGetCarry, OpGetOverFlow, OpGetZero, OpGetNegate, OpGetParity, OpTestBit])"

definition Builder_Inst :: "(OpCode \<Rightarrow> nat \<Rightarrow> ArgType) \<Rightarrow> HIRBuilder \<Rightarrow> OpCode \<Rightarrow> ArgIn list \<Rightarrow>
    (HIRBuilder \<times> inst_ptr) result" where
  "Builder_Inst oob B op as =
     (case current_function B of
        None \<Rightarrow> Inl NullDeref
      | Some _ \<Rightarrow> with_function B (\<lambda>f.
          res_bind (AppendInst oob f op as) (\<lambda>(f1, p).
            if returns_bool op then
              res_bind (Value_SetType (insts f1) (Some p) VT_BOOL) (\<lambda>h. Inr (f1\<lparr>insts := h\<rparr>, p))
            else Inr (f1, p))))"

end
