(* ===== verification/HIR_Graph.thy ===== *)
theory HIR_Graph
  imports HIR_Builder
begin

text \<open>
  The control flow graph that the function builder maintains: the invariant of a function under
  construction, the effect of every operation on blocks and edges, and the vectors that
  \<open>EndFunction\<close> hands to the analyses.
\<close>

section \<open>The control flow graph\<close>

text \<open>The arcs of a function in the order in which they were added.\<close>

definition arcs :: "HIRFunction \<Rightarrow> (block_ptr \<times> block_ptr) list" where
  "arcs f = map (\<lambda>e. (src_block e, dest_block e)) (pool_edges f)"

definition in_idx :: "(block_ptr \<times> block_ptr) list \<Rightarrow> block_ptr \<Rightarrow> edge_ptr list" where
  "in_idx A b = filter (\<lambda>e. snd (A ! e) = b) [0..<length A]"

definition out_idx :: "(block_ptr \<times> block_ptr) list \<Rightarrow> block_ptr \<Rightarrow> edge_ptr list" where
  "out_idx A b = filter (\<lambda>e. fst (A ! e) = b) [0..<length A]"

definition nblocks :: "HIRFunction \<Rightarrow> nat" where
  "nblocks f = length (pool_blocks f)"

definition locs :: "HIRFunction \<Rightarrow> Location list" where
  "locs f = map (\<lambda>hb. location (block hb)) (pool_blocks f)"

definition frame :: "HIRBlock \<Rightarrow> u16 \<times> Location \<times> edge_ptr list \<times> edge_ptr list \<times>
    block_ptr list \<times> block_ptr option" where
  "frame hb = (order_id hb, location (block hb), outgoing_edges hb, incoming_edges hb,
     back_edges hb, dominator hb)"

text \<open>
  The invariant of a function under construction: blocks are numbered in the order of their
  creation and listed in that order, no two blocks start at the same location, the edge lists
  of a block are exactly the edges that leave and enter it, no analysis result is stored yet,
  and the current block exists.
\<close>

definition blocks_ok :: "HIRFunction \<Rightarrow> bool" where
  "blocks_ok f \<longleftrightarrow>
     block_list f = [0..<nblocks f] \<and> block_order_id f = of_nat (nblocks f) \<and> distinct (locs f) \<and>
     (\<forall>b. current_block f = Some b \<longrightarrow> b < nblocks f)"

definition edges_ok :: "HIRFunction \<Rightarrow> bool" where
  "edges_ok f \<longleftrightarrow>
     (\<forall>b < nblocks f. \<exists>loc.
        frame (pool_blocks f ! b) = (of_nat b, loc, out_idx (arcs f) b, in_idx (arcs f) b, [], None)) \<and>
     set (arcs f) \<subseteq> {..<nblocks f} \<times> {..<nblocks f}"

definition graph_inv :: "HIRFunction \<Rightarrow> bool" where
  "graph_inv f \<longleftrightarrow> blocks_ok f \<and> edges_ok f"

lemma in_idx_append:
  "in_idx (A @ [a]) b = in_idx A b @ (if snd a = b then [length A] else [])"
proof -
  have "filter (\<lambda>e. snd ((A @ [a]) ! e) = b) [0..<length A] = in_idx A b"
    unfolding in_idx_def by (intro filter_cong) (auto simp: nth_append)
  then show ?thesis by (simp add: in_idx_def)
qed

lemma out_idx_append:
  "out_idx (A @ [a]) b = out_idx A b @ (if fst a = b then [length A] else [])"
proof -
  have "filter (\<lambda>e. fst ((A @ [a]) ! e) = b) [0..<length A] = out_idx A b"
    unfolding out_idx_def by (intro filter_cong) (auto simp: nth_append)
  then show ?thesis by (simp add: out_idx_def)
qed

lemma idx_fresh:
  assumes "set A \<subseteq> {..<n} \<times> {..<n}"
  shows "in_idx A n = []" and "out_idx A n = []"
proof -
  have "fst (A ! e) < n \<and> snd (A ! e) < n" if "e < length A" for e
    using assms nth_mem [OF that] by (auto simp: mem_Times_iff)
  then show "in_idx A n = []" "out_idx A n = []"
    by (fastforce simp: in_idx_def out_idx_def filter_empty_conv)+
qed

text \<open>Updates that do not touch the frame of a block keep the invariant.\<close>

lemma upd_block_total:
  "b < nblocks f \<Longrightarrow> upd_block f b g = Inr (f\<lparr>pool_blocks := (pool_blocks f)[b := g (pool_blocks f ! b)]\<rparr>)"
  by (simp add: upd_block_def nblocks_def)

lemma frame_update_inv:
  assumes "graph_inv f" and "frame (g (pool_blocks f ! b)) = frame (pool_blocks f ! b)"
  shows "graph_inv (f\<lparr>pool_blocks := (pool_blocks f)[b := g (pool_blocks f ! b)]\<rparr>)"
proof -
  let ?f = "f\<lparr>pool_blocks := (pool_blocks f)[b := g (pool_blocks f ! b)]\<rparr>"
  have fr: "map frame (pool_blocks ?f) = map frame (pool_blocks f)"
    using assms(2) by (cases "b < length (pool_blocks f)") (simp_all add: map_update list_update_same_conv list_update_beyond)
  then have "map (\<lambda>x. fst (snd x)) (map frame (pool_blocks ?f)) =
      map (\<lambda>x. fst (snd x)) (map frame (pool_blocks f))" by simp
  then have "locs ?f = locs f" by (simp add: locs_def frame_def comp_def)
  moreover have "nblocks ?f = nblocks f" "arcs ?f = arcs f" by (simp_all add: nblocks_def arcs_def)
  moreover have "frame (pool_blocks ?f ! k) = frame (pool_blocks f ! k)" if "k < nblocks f" for k
    using arg_cong [OF fr, of "\<lambda>xs. xs ! k"] that by (simp add: nblocks_def)
  ultimately show ?thesis
    using assms(1) by (simp add: graph_inv_def blocks_ok_def edges_ok_def)
qed

lemma graph_inv_irrelevant:
  "graph_inv (f\<lparr>insts := h\<rparr>) = graph_inv f"
  "graph_inv (f\<lparr>pool_values := pv\<rparr>) = graph_inv f"
  "graph_inv (f\<lparr>hvalues := vs\<rparr>) = graph_inv f"
  "graph_inv (f\<lparr>value_order_id := k\<rparr>) = graph_inv f"
  "graph_inv (f\<lparr>max_local_id := m\<rparr>) = graph_inv f"
  "graph_inv (f\<lparr>blocks := vec\<rparr>) = graph_inv f"
  by (simp_all add: graph_inv_def blocks_ok_def edges_ok_def nblocks_def locs_def arcs_def)

lemma graph_inv_current:
  "graph_inv f \<Longrightarrow> b < nblocks f \<Longrightarrow> graph_inv (f\<lparr>current_block := Some b\<rparr>)"
  "graph_inv f \<Longrightarrow> graph_inv (f\<lparr>current_block := None\<rparr>)"
  by (simp_all add: graph_inv_def blocks_ok_def edges_ok_def nblocks_def locs_def arcs_def)

text \<open>\<open>CreateOrGetBlock\<close> finds the block of the location, or creates it as the last block.\<close>

lemma find_block_spec:
  assumes "\<forall>b \<in> set bs. b < nblocks f"
  shows "find_block f loc bs = Inr (find (\<lambda>b. locs f ! b = loc) bs)"
  using assms by (induction bs) (auto simp: nblocks_def locs_def)

lemma CreateOrGetBlock_existing:
  assumes "graph_inv f" and "b < nblocks f" and "locs f ! b = loc"
  shows "CreateOrGetBlock f loc = Inr (f, b)"
proof -
  have d: "distinct (locs f)" and bl: "block_list f = [0..<nblocks f]"
    using assms(1) by (simp_all add: graph_inv_def blocks_ok_def)
  have len: "length (locs f) = nblocks f" by (simp add: locs_def nblocks_def)
  have "find (\<lambda>b. locs f ! b = loc) [0..<nblocks f] = Some b"
    unfolding find_Some_iff
    using assms d len by (intro exI [of _ b]) (auto simp: nth_eq_iff_index_eq)
  then show ?thesis using find_block_spec [of "[0..<nblocks f]" f loc] bl
    by (simp add: CreateOrGetBlock_def)
qed

lemma CreateOrGetBlock_new:
  assumes "graph_inv f" and "loc \<notin> set (locs f)"
  shows "CreateOrGetBlock f loc =
           Inr (f\<lparr>pool_blocks := pool_blocks f @ [new_HIRBlock loc (block_order_id f)],
                   block_order_id := block_order_id f + 1,
                   block_list := block_list f @ [nblocks f]\<rparr>, nblocks f)"
proof -
  have bl: "block_list f = [0..<nblocks f]"
    using assms(1) by (simp add: graph_inv_def blocks_ok_def)
  have len: "length (locs f) = nblocks f" by (simp add: locs_def nblocks_def)
  have "find (\<lambda>b. locs f ! b = loc) [0..<nblocks f] = None"
    unfolding find_None_iff using assms(2) len nth_mem [of _ "locs f"] by auto
  then show ?thesis using find_block_spec [of "[0..<nblocks f]" f loc] bl
    by (simp add: CreateOrGetBlock_def nblocks_def Let_def)
qed

lemma graph_inv_new_block:
  assumes "graph_inv f" and "loc \<notin> set (locs f)"
  shows "graph_inv (f\<lparr>pool_blocks := pool_blocks f @ [new_HIRBlock loc (block_order_id f)],
                   block_order_id := block_order_id f + 1,
                   block_list := block_list f @ [nblocks f]\<rparr>)" (is "graph_inv ?f")
proof -
  have n: "nblocks ?f = Suc (nblocks f)" and a: "arcs ?f = arcs f"
    and l: "locs ?f = locs f @ [loc]"
    by (simp_all add: nblocks_def arcs_def locs_def new_HIRBlock_def new_Block_def)
  have ok: "blocks_ok f" "edges_ok f" using assms(1) by (simp_all add: graph_inv_def)
  have "blocks_ok ?f" using ok(1) assms(2) n l by (auto simp: blocks_ok_def)
  moreover have "edges_ok ?f"
  proof -
    have sub: "set (arcs f) \<subseteq> {..<nblocks f} \<times> {..<nblocks f}" using ok(2) by (simp add: edges_ok_def)
    have "\<exists>loc. frame (pool_blocks ?f ! b) = (of_nat b, loc, out_idx (arcs f) b, in_idx (arcs f) b, [], None)"
      if "b < Suc (nblocks f)" for b
    proof (cases "b = nblocks f")
      case True
      then show ?thesis using ok(1) idx_fresh [OF sub]
        by (simp add: frame_def new_HIRBlock_def nth_append nblocks_def blocks_ok_def)
    next
      case False
      then show ?thesis using that ok(2) by (simp add: edges_ok_def nth_append nblocks_def)
    qed
    then show ?thesis using sub n a by (auto simp: edges_ok_def)
  qed
  ultimately show ?thesis by (simp add: graph_inv_def)
qed

text \<open>\<open>AppendBlock\<close> always succeeds: the result is the block of the location.\<close>

lemma AppendBlock_spec:
  assumes "graph_inv f"
  shows "\<exists>f' b. AppendBlock f loc e = Inr (f', b) \<and> graph_inv f' \<and> arcs f' = arcs f \<and>
           b < nblocks f' \<and> current_block f' = Some b \<and> locs f' ! b = loc \<and>
           (if loc \<in> set (locs f) then locs f' = locs f \<and> nblocks f' = nblocks f
            else locs f' = locs f @ [loc] \<and> nblocks f' = Suc (nblocks f) \<and> b = nblocks f)"
proof -
  have len: "length (locs g) = nblocks g" for g by (simp add: locs_def nblocks_def)
  obtain f1 b where f1: "CreateOrGetBlock f loc = Inr (f1, b)" "graph_inv f1" "arcs f1 = arcs f"
      "b < nblocks f1" "locs f1 ! b = loc"
      "if loc \<in> set (locs f) then locs f1 = locs f \<and> nblocks f1 = nblocks f
       else locs f1 = locs f @ [loc] \<and> nblocks f1 = Suc (nblocks f) \<and> b = nblocks f"
  proof (cases "loc \<in> set (locs f)")
    case True
    then obtain b where b: "b < nblocks f" "locs f ! b = loc" using len by (metis in_set_conv_nth)
    show thesis
      by (rule that [OF CreateOrGetBlock_existing [OF assms b]]) (use assms b True in simp_all)
  next
    case False
    show thesis
      by (rule that [OF CreateOrGetBlock_new [OF assms False] graph_inv_new_block [OF assms False]])
         (use False in \<open>simp_all add: arcs_def nblocks_def locs_def new_HIRBlock_def new_Block_def
            nth_append\<close>)
  qed
  let ?g = "block_update (\<lambda>blk. SetEndLocation blk e)"
  let ?f2 = "f1\<lparr>pool_blocks := (pool_blocks f1)[b := ?g (pool_blocks f1 ! b)]\<rparr>"
  have "graph_inv ?f2"
    using f1(2) by (intro frame_update_inv) (simp_all add: frame_def SetEndLocation_def)
  moreover have "locs ?f2 = locs f1"
    using f1(4) by (simp add: locs_def map_update SetEndLocation_def list_update_same_conv nblocks_def)
  moreover have "nblocks ?f2 = nblocks f1" "arcs ?f2 = arcs f1"
    by (simp_all add: nblocks_def arcs_def)
  moreover let ?f3 = "?f2\<lparr>current_block := Some b\<rparr>"
  have "nblocks ?f3 = nblocks ?f2" "arcs ?f3 = arcs ?f2" "locs ?f3 = locs ?f2"
    by (simp_all add: nblocks_def arcs_def locs_def)
  moreover have "AppendBlock f loc e = Inr (?f3, b)"
    by (simp add: AppendBlock_def f1(1) upd_block_total [OF f1(4)])
  moreover have "graph_inv ?f3" using calculation f1(4) by (intro graph_inv_current(1)) simp_all
  ultimately show ?thesis
    using f1(3-6) by (intro exI [of _ ?f3] exI [of _ b]) (simp split: if_splits)
qed

lemma clear_dominates_arcs:
  "\<forall>e \<in> set is. e < length es \<Longrightarrow>
   \<exists>es'. clear_dominates es is = Inr es' \<and>
         map (\<lambda>e. (src_block e, dest_block e)) es' = map (\<lambda>e. (src_block e, dest_block e)) es"
proof (induction "is" arbitrary: es)
  case (Cons i "is")
  let ?es = "es[i := (es ! i)\<lparr>eflags := eflags (es ! i) AND NOT DOMINATES\<rparr>]"
  have "map (\<lambda>e. (src_block e, dest_block e)) ?es = map (\<lambda>e. (src_block e, dest_block e)) es"
    using Cons.prems by (simp add: map_update list_update_same_conv)
  then show ?case using Cons.IH [of ?es] Cons.prems by simp
qed simp

lemma AddEdge_spec:
  assumes "graph_inv f" and "s < nblocks f" and "d < nblocks f"
  shows "\<exists>f'. AddEdge f (Some s) (Some d) c = Inr f' \<and> graph_inv f' \<and>
              arcs f' = arcs f @ [(s, d)] \<and> nblocks f' = nblocks f \<and> locs f' = locs f \<and>
              current_block f' = current_block f"
proof -
  let ?n = "length (pool_edges f)"
  let ?e = "if c then (new_Edge s d)\<lparr>eflags := eflags (new_Edge s d) OR CONDITIONAL\<rparr> else new_Edge s d"
  let ?b1 = "(pool_blocks f)[s := outgoing_edges_update (\<lambda>es. es @ [?n]) (pool_blocks f ! s)]"
  let ?b2 = "?b1[d := incoming_edges_update (\<lambda>es. es @ [?n]) (?b1 ! d)]"
  let ?f = "f\<lparr>pool_edges := pool_edges f @ [?e], pool_blocks := ?b2\<rparr>"
  have n: "nblocks ?f = nblocks f" and a: "arcs ?f = arcs f @ [(s, d)]"
    by (simp_all add: nblocks_def arcs_def new_Edge_def)
  have alen: "length (arcs f) = ?n" by (simp add: arcs_def)
  have l: "locs ?f = locs f"
    by (rule nth_equalityI) (use assms(2,3) in \<open>auto simp: locs_def nblocks_def nth_list_update\<close>)
  have ok: "blocks_ok f" "edges_ok f" using assms(1) by (simp_all add: graph_inv_def)
  have fr: "frame (?b2 ! k) = (case frame (pool_blocks f ! k) of (i, loc, os, is, r) \<Rightarrow>
      (i, loc, os @ (if s = k then [?n] else []), is @ (if d = k then [?n] else []), r))"
    if "k < nblocks f" for k
    using that assms(2,3) by (auto simp: frame_def nblocks_def nth_list_update)
  have "\<exists>loc. frame (?b2 ! k) = (of_nat k, loc, out_idx (arcs ?f) k, in_idx (arcs ?f) k, [], None)"
    if k: "k < nblocks f" for k
  proof -
    obtain loc where "frame (pool_blocks f ! k) = (of_nat k, loc, out_idx (arcs f) k, in_idx (arcs f) k, [], None)"
      using ok(2) k by (auto simp: edges_ok_def)
    then show ?thesis using fr [OF k] by (simp add: a in_idx_append out_idx_append alen)
  qed
  moreover have "set (arcs ?f) \<subseteq> {..<nblocks f} \<times> {..<nblocks f}"
    using ok(2) assms(2,3) unfolding a by (simp add: edges_ok_def)
  ultimately have "edges_ok ?f" unfolding edges_ok_def n by simp
  moreover have "blocks_ok ?f" using ok(1) n l by (simp add: blocks_ok_def)
  ultimately have gi: "graph_inv ?f" by (simp add: graph_inv_def)
  have s1: "upd_block (f\<lparr>pool_edges := pool_edges f @ [?e]\<rparr>) s (outgoing_edges_update (\<lambda>es. es @ [?n]))
      = Inr (f\<lparr>pool_edges := pool_edges f @ [?e], pool_blocks := ?b1\<rparr>)"
    using assms(2) by (simp add: upd_block_def nblocks_def)
  have s2: "upd_block (f\<lparr>pool_edges := pool_edges f @ [?e], pool_blocks := ?b1\<rparr>) d
      (incoming_edges_update (\<lambda>es. es @ [?n])) = Inr ?f"
    using assms(3) by (simp add: upd_block_def nblocks_def)
  have "incoming_edges (?b2 ! d) = in_idx (arcs ?f) d"
    using gi assms(3) n by (auto simp: graph_inv_def edges_ok_def frame_def)
  then have "\<forall>e \<in> set (incoming_edges (?b2 ! d)). e < length (pool_edges ?f)"
    by (simp add: in_idx_def arcs_def)
  then obtain es where es: "clear_dominates (pool_edges ?f) (incoming_edges (?b2 ! d)) = Inr es"
      "map (\<lambda>e. (src_block e, dest_block e)) es = arcs ?f"
    using clear_dominates_arcs unfolding arcs_def by blast
  have gi2: "graph_inv (?f\<lparr>pool_edges := es\<rparr>)" "arcs (?f\<lparr>pool_edges := es\<rparr>) = arcs ?f"
    using gi es(2) by (simp_all add: graph_inv_def blocks_ok_def edges_ok_def nblocks_def locs_def arcs_def)
  have rest: "nblocks (?f\<lparr>pool_edges := es\<rparr>) = nblocks f" "locs (?f\<lparr>pool_edges := es\<rparr>) = locs f"
    using n l by (simp_all add: nblocks_def locs_def)
  have "AddEdge f (Some s) (Some d) c =
      (if incoming_edges (pool_blocks f ! d) \<noteq> [] then Inr (?f\<lparr>pool_edges := es\<rparr>) else Inr ?f)"
    using assms(2,3) s1 s2 es(1) by (simp add: AddEdge_def nblocks_def Let_def)
  then show ?thesis using gi gi2 a n l rest by auto
qed

text \<open>A function that the builder has built: every block is reachable from the entry block.\<close>

definition build_inv :: "HIRFunction \<Rightarrow> bool" where
  "build_inv f \<longleftrightarrow> graph_inv f \<and> 0 < nblocks f \<and> (\<forall>b < nblocks f. (0, b) \<in> (set (arcs f))\<^sup>*)"

lemma EndBlock_spec:
  assumes "graph_inv f" and "current_block f = Some cur"
  shows "\<exists>f'. EndBlock f t = Inr f' \<and> graph_inv f' \<and> arcs f' = arcs f \<and> nblocks f' = nblocks f \<and>
              locs f' = locs f \<and> current_block f' = None \<and> block_list f' = block_list f"
proof -
  have cur: "cur < nblocks f" using assms by (simp add: graph_inv_def blocks_ok_def)
  let ?g = "block_update (\<lambda>blk. SetTerminal blk t)"
  let ?f = "f\<lparr>pool_blocks := (pool_blocks f)[cur := ?g (pool_blocks f ! cur)]\<rparr>"
  have "graph_inv ?f"
    using assms(1) by (intro frame_update_inv) (simp_all add: frame_def SetTerminal_def)
  then have "graph_inv (?f\<lparr>current_block := None\<rparr>)" by (rule graph_inv_current(2))
  moreover have "EndBlock f t = Inr (?f\<lparr>current_block := None\<rparr>)"
    using assms(2) by (simp add: EndBlock_def deref_current_def upd_block_total [OF cur])
  moreover have "locs (?f\<lparr>current_block := None\<rparr>) = locs f"
    using cur by (simp add: locs_def map_update SetTerminal_def list_update_same_conv nblocks_def)
  ultimately show ?thesis by (simp add: arcs_def nblocks_def)
qed

lemma AppendBlock_blocks:
  assumes "graph_inv f"
  obtains f' b where "AppendBlock f loc e = Inr (f', b)" and "graph_inv f'" and "arcs f' = arcs f"
    and "b < nblocks f'" and "current_block f' = Some b" and "locs f' ! b = loc"
    and "nblocks f \<le> nblocks f'" and "\<And>k. k < nblocks f' \<Longrightarrow> k < nblocks f \<or> k = b"
    and "\<And>k. k < nblocks f \<Longrightarrow> locs f' ! k = locs f ! k"
proof -
  from AppendBlock_spec [OF assms, of loc e] obtain f' b where
    r: "AppendBlock f loc e = Inr (f', b)" "graph_inv f'" "arcs f' = arcs f" "b < nblocks f'"
      "current_block f' = Some b" "locs f' ! b = loc"
      "if loc \<in> set (locs f) then locs f' = locs f \<and> nblocks f' = nblocks f
       else locs f' = locs f @ [loc] \<and> nblocks f' = Suc (nblocks f) \<and> b = nblocks f" by blast
  have "length (locs f) = nblocks f" by (simp add: locs_def nblocks_def)
  then show thesis
    using r(7) by (intro that [OF r(1-6)]) (auto simp: nth_append split: if_splits)
qed

lemma reach_new:
  assumes "\<forall>b < n. (0, b) \<in> R\<^sup>*" and "R \<subseteq> S" and "cur < n" and "(cur, k) \<in> S"
  shows "(0, k) \<in> S\<^sup>*"
proof -
  have "(0, cur) \<in> S\<^sup>*" using assms(1-3) rtrancl_mono by blast
  then show ?thesis using assms(4) by (rule rtrancl_into_rtrancl)
qed

lemma reach_old: "(0, k) \<in> R\<^sup>* \<Longrightarrow> R \<subseteq> S \<Longrightarrow> (0, k) \<in> S\<^sup>*"
  using rtrancl_mono by blast

text \<open>Appending a block and linking it from a known block.\<close>

lemma append_and_link:
  assumes "build_inv f" and "cur < nblocks f"
  shows "\<exists>f1 b f2. AppendBlock f loc e = Inr (f1, b) \<and> AddEdge f1 (Some cur) (Some b) c = Inr f2 \<and>
           build_inv f2 \<and> arcs f2 = arcs f @ [(cur, b)] \<and> b < nblocks f2 \<and> nblocks f \<le> nblocks f2 \<and>
           locs f2 ! b = loc \<and> current_block f2 = Some b"
proof -
  have gi: "graph_inv f" and re: "\<forall>b < nblocks f. (0, b) \<in> (set (arcs f))\<^sup>*" and pos: "0 < nblocks f"
    using assms(1) by (auto simp: build_inv_def)
  obtain f1 b where f1: "AppendBlock f loc e = Inr (f1, b)" "graph_inv f1" "arcs f1 = arcs f"
      "b < nblocks f1" "current_block f1 = Some b" "locs f1 ! b = loc" "nblocks f \<le> nblocks f1"
      "\<And>k. k < nblocks f1 \<Longrightarrow> k < nblocks f \<or> k = b"
    by (rule AppendBlock_blocks [OF gi, of loc e]) blast
  obtain f2 where f2: "AddEdge f1 (Some cur) (Some b) c = Inr f2" "graph_inv f2"
      "arcs f2 = arcs f1 @ [(cur, b)]" "nblocks f2 = nblocks f1" "locs f2 = locs f1"
      "current_block f2 = current_block f1"
    using AddEdge_spec [OF f1(2), of cur b c] assms(2) f1(4,7) by auto
  have "(0, k) \<in> (set (arcs f2))\<^sup>*" if k: "k < nblocks f2" for k
  proof (cases "k = b")
    case True
    then show ?thesis using reach_new [OF re, of "set (arcs f2)" cur k] f2(3) f1(3) assms(2) by auto
  next
    case False
    then have "k < nblocks f" using k f2(4) f1(8) by auto
    then have "(0, k) \<in> (set (arcs f))\<^sup>*" using re by blast
    then show ?thesis using f2(3) f1(3) by (elim reach_old) auto
  qed
  then have "build_inv f2" using f2 f1 pos by (simp add: build_inv_def)
  then show ?thesis using f1 f2 by auto
qed

lemma EndBlock_build:
  assumes "build_inv f" and "current_block f = Some cur"
  obtains f' where "EndBlock f t = Inr f'" and "build_inv f'" and "arcs f' = arcs f"
    and "nblocks f' = nblocks f" and "locs f' = locs f" and "cur < nblocks f'"
proof -
  have gi: "graph_inv f" using assms(1) by (simp add: build_inv_def)
  from EndBlock_spec [OF gi assms(2), of t] obtain f' where
    r: "EndBlock f t = Inr f'" "graph_inv f'" "arcs f' = arcs f" "nblocks f' = nblocks f"
      "locs f' = locs f" by blast
  moreover have "build_inv f'" using assms(1) r by (simp add: build_inv_def)
  moreover have "cur < nblocks f'" using gi assms(2) r by (simp add: graph_inv_def blocks_ok_def)
  ultimately show thesis using that by blast
qed

lemma fn_LinkBlock_spec:
  assumes "build_inv f" and "current_block f = Some cur"
  shows "\<exists>f' b. fn_LinkBlock f loc = Inr (f', b) \<and> build_inv f' \<and> arcs f' = arcs f @ [(cur, b)] \<and>
                b < nblocks f' \<and> locs f' ! b = loc \<and> current_block f' = Some b"
proof -
  obtain f1 where f1: "EndBlock f (LinkBlockT loc) = Inr f1" "build_inv f1" "arcs f1 = arcs f"
      "cur < nblocks f1"
    by (rule EndBlock_build [OF assms, of "LinkBlockT loc"]) blast
  from append_and_link [OF f1(2,4), of loc 0 False] show ?thesis
    using f1 assms(2) by (auto simp: fn_LinkBlock_def Let_def)
qed

lemma switch_cases_spec:
  assumes "build_inv f" and "cur < nblocks f"
    and "\<forall>c \<in> set cs. \<exists>loc. GetNextLocation (snd c) = Inr loc"
  shows "\<exists>f' rs. switch_cases f (Some cur) cs = Inr (f', rs) \<and> build_inv f' \<and>
                 map fst rs = map fst cs \<and> arcs f' = arcs f @ map (\<lambda>(_, b). (cur, b)) rs \<and>
                 (\<forall>b \<in> snd ` set rs. b < nblocks f') \<and> nblocks f \<le> nblocks f' \<and>
                 (cs \<noteq> [] \<longrightarrow> current_block f' = Some (snd (last rs)))"
  using assms
proof (induction cs arbitrary: f)
  case Nil
  then show ?case by simp
next
  case (Cons c cs)
  obtain imm t where c: "c = (imm, t)" by (cases c)
  obtain loc where loc: "GetNextLocation t = Inr loc" using Cons.prems(3) c by auto
  obtain f1 b f2 where s: "AppendBlock f loc 0 = Inr (f1, b)"
      "AddEdge f1 (Some cur) (Some b) True = Inr f2" "build_inv f2" "arcs f2 = arcs f @ [(cur, b)]"
      "b < nblocks f2" "nblocks f \<le> nblocks f2" "current_block f2 = Some b"
    using append_and_link [OF Cons.prems(1,2), of loc 0 True] by blast
  have "cur < nblocks f2" using Cons.prems(2) s(6) by simp
  moreover have "\<forall>c \<in> set cs. \<exists>loc. GetNextLocation (snd c) = Inr loc" using Cons.prems(3) by simp
  ultimately obtain f' rs where
    r: "switch_cases f2 (Some cur) cs = Inr (f', rs)" "build_inv f'" "map fst rs = map fst cs"
      "arcs f' = arcs f2 @ map (\<lambda>(_, b). (cur, b)) rs" "\<forall>b \<in> snd ` set rs. b < nblocks f'"
      "nblocks f2 \<le> nblocks f'" "cs \<noteq> [] \<longrightarrow> current_block f' = Some (snd (last rs))"
    using Cons.IH [OF s(3)] by blast
  have "cs = [] \<longleftrightarrow> rs = []" using r(3) by auto
  moreover have "cs = [] \<Longrightarrow> f' = f2" using r(1) by simp
  ultimately show ?case using c loc s r by auto
qed

lemma fn_Switch_spec:
  assumes "build_inv f" and "current_block f = Some cur"
    and "\<forall>c \<in> set cs. \<exists>loc. GetNextLocation (snd c) = Inr loc"
  shows "\<exists>f' rs. fn_Switch f v cs = Inr (f', rs) \<and> build_inv f' \<and> map fst rs = map fst cs \<and>
                 arcs f' = arcs f @ map (\<lambda>(_, b). (cur, b)) rs"
proof -
  obtain f1 where f1: "EndBlock f (SwitchT v cs) = Inr f1" "build_inv f1" "arcs f1 = arcs f"
      "cur < nblocks f1"
    by (rule EndBlock_build [OF assms(1,2), of "SwitchT v cs"]) blast
  from switch_cases_spec [OF f1(2,4) assms(3)] show ?thesis
    using f1 assms(2) by (fastforce simp: fn_Switch_def Let_def)
qed

lemma fn_If_spec:
  assumes "build_inv f" and "current_block f = Some cur"
    and "GetNextLocation te = Inr lt" and "GetNextLocation ee = Inr le"
  shows "\<exists>f' eb tb. fn_If f v te ee = Inr (f', eb, tb) \<and> build_inv f' \<and>
           arcs f' = arcs f @ [(cur, tb), (cur, eb)] \<and> locs f' ! tb = lt \<and> locs f' ! eb = le \<and>
           current_block f' = Some tb"
proof -
  obtain f1 where f1: "EndBlock f (IfT v te ee) = Inr f1" "build_inv f1" "arcs f1 = arcs f"
      "cur < nblocks f1"
    by (rule EndBlock_build [OF assms(1,2), of "IfT v te ee"]) blast
  then have gi: "graph_inv f1" and re: "\<forall>b < nblocks f1. (0, b) \<in> (set (arcs f1))\<^sup>*" and pos: "0 < nblocks f1"
    by (auto simp: build_inv_def)
  obtain f2 eb where f2: "AppendBlock f1 le 0 = Inr (f2, eb)" "graph_inv f2" "arcs f2 = arcs f1"
      "eb < nblocks f2" "locs f2 ! eb = le" "nblocks f1 \<le> nblocks f2"
      "\<And>k. k < nblocks f2 \<Longrightarrow> k < nblocks f1 \<or> k = eb"
    by (rule AppendBlock_blocks [OF gi, of le 0]) blast
  obtain f3 tb where f3: "AppendBlock f2 lt 0 = Inr (f3, tb)" "graph_inv f3" "arcs f3 = arcs f2"
      "tb < nblocks f3" "current_block f3 = Some tb" "locs f3 ! tb = lt" "nblocks f2 \<le> nblocks f3"
      "\<And>k. k < nblocks f3 \<Longrightarrow> k < nblocks f2 \<or> k = tb"
      "\<And>k. k < nblocks f2 \<Longrightarrow> locs f3 ! k = locs f2 ! k"
    by (rule AppendBlock_blocks [OF f2(2), of lt 0]) blast
  obtain f4 where f4: "AddEdge f3 (Some cur) (Some tb) True = Inr f4" "graph_inv f4"
      "arcs f4 = arcs f3 @ [(cur, tb)]" "nblocks f4 = nblocks f3" "locs f4 = locs f3"
      "current_block f4 = current_block f3"
    using AddEdge_spec [OF f3(2), of cur tb True] f1(4) f2(6) f3(4,7) by auto
  obtain f5 where f5: "AddEdge f4 (Some cur) (Some eb) True = Inr f5" "graph_inv f5"
      "arcs f5 = arcs f4 @ [(cur, eb)]" "nblocks f5 = nblocks f4" "locs f5 = locs f4"
      "current_block f5 = current_block f4"
    using AddEdge_spec [OF f4(2), of cur eb True] f1(4) f2(4,6) f3(7) f4(4) by auto
  have arcs5: "arcs f5 = arcs f1 @ [(cur, tb), (cur, eb)]" using f5(3) f4(3) f3(3) f2(3) by simp
  have "(0, k) \<in> (set (arcs f5))\<^sup>*" if k: "k < nblocks f5" for k
  proof (cases "k = tb \<or> k = eb")
    case True
    then show ?thesis using reach_new [OF re, of "set (arcs f5)" cur k] arcs5 f1(4) by auto
  next
    case False
    then have "k < nblocks f1" using k f5(4) f4(4) f3(8) f2(7) by metis
    then show ?thesis using re arcs5 reach_old [of k "set (arcs f1)" "set (arcs f5)"] by auto
  qed
  then have "build_inv f5" using f5 f4(4) pos f2(6) f3(7) by (simp add: build_inv_def)
  moreover have "fn_If f v te ee = Inr (f5, eb, tb)"
    using f1 f2(1) f3(1) f4(1) f5(1) assms(2-4) by (simp add: fn_If_def Let_def)
  ultimately show ?thesis using arcs5 f1(3) f5 f4 f3 f2 by auto
qed

lemma new_HIRFunction_spec:
  "\<exists>f. new_HIRFunction start e = Inr f \<and> build_inv f \<and> nblocks f = 1 \<and> arcs f = [] \<and>
       current_block f = Some 0"
  by (auto simp: new_HIRFunction_def AppendBlock_def CreateOrGetBlock_def upd_block_def Let_def
      build_inv_def graph_inv_def blocks_ok_def edges_ok_def nblocks_def arcs_def locs_def frame_def
      new_HIRBlock_def SetEndLocation_def in_idx_def out_idx_def)

section \<open>Closing a function\<close>

definition preds_of :: "(block_ptr \<times> block_ptr) list \<Rightarrow> block_ptr \<Rightarrow> block_ptr list" where
  "preds_of A b = map fst (filter (\<lambda>a. snd a = b) A)"

definition succs_of :: "(block_ptr \<times> block_ptr) list \<Rightarrow> block_ptr \<Rightarrow> block_ptr list" where
  "succs_of A b = map snd (filter (\<lambda>a. fst a = b) A)"

text \<open>
  What the analyses find: the vector of all blocks by their number, and for every block the
  vectors of its predecessors and successors.
\<close>

definition cfg_ready :: "HIRFunction \<Rightarrow> bool" where
  "cfg_ready f \<longleftrightarrow>
     blocks f = map Some [0..<nblocks f] \<and> 0 < nblocks f \<and> nblocks f < 2 ^ 16 \<and>
     block_order_id f = of_nat (nblocks f) \<and>
     set (arcs f) \<subseteq> {..<nblocks f} \<times> {..<nblocks f} \<and>
     (\<forall>b < nblocks f.
        (\<exists>loc. frame (pool_blocks f ! b) =
           (of_nat b, loc, out_idx (arcs f) b, in_idx (arcs f) b, [], None)) \<and>
        predecessors (pool_blocks f ! b) = map Some (preds_of (arcs f) b) \<and>
        successors (pool_blocks f ! b) = map Some (succs_of (arcs f) b))"

lemma filter_idx: "map ((!) A) (filter (\<lambda>e. P (A ! e)) [0..<length A]) = filter P A"
proof -
  have "filter P (map ((!) A) [0..<length A]) = map ((!) A) (filter (P \<circ> (!) A) [0..<length A])"
    by (rule filter_map)
  then show ?thesis by (simp add: map_nth comp_def)
qed

lemma preds_of_idx: "map (\<lambda>e. fst (A ! e)) (in_idx A b) = preds_of A b"
  using arg_cong [OF filter_idx [of A "\<lambda>a. snd a = b"], of "map fst"]
  by (simp add: preds_of_def in_idx_def comp_def)

lemma succs_of_idx: "map (\<lambda>e. snd (A ! e)) (out_idx A b) = succs_of A b"
  using arg_cong [OF filter_idx [of A "\<lambda>a. fst a = b"], of "map snd"]
  by (simp add: succs_of_def out_idx_def comp_def)

lemma length_idx: "length (in_idx A b) = length (preds_of A b)"
    "length (out_idx A b) = length (succs_of A b)"
  using arg_cong [OF preds_of_idx [of A b], of length] arg_cong [OF succs_of_idx [of A b], of length]
  by simp_all

lemma fill_from_spec:
  assumes "length ps + length xs \<le> 2 ^ 16"
  shows "fill_from (map Some ps @ replicate (length xs) None) (of_nat (length ps)) xs =
         Inr (map Some (ps @ xs))"
  using assms
proof (induction xs arbitrary: ps)
  case (Cons x xs)
  have u: "unat (of_nat (length ps) :: u16) = length ps"
    using Cons.prems by (intro unat_of_nat_small) simp
  have "(map Some ps @ replicate (length (x # xs)) None)[length ps := Some x] =
      map Some (ps @ [x]) @ replicate (length xs) None"
    by (simp add: list_update_append)
  then show ?case
    using Cons.IH [of "ps @ [x]"] Cons.prems u by (simp add: add.commute)
qed simp

lemma fill_fresh:
  "length xs \<le> 2 ^ 16 \<Longrightarrow> fill_from (replicate (length xs) None) 0 xs = Inr (map Some xs)"
  using fill_from_spec [of "[]" xs] by simp

lemma edge_ends_spec:
  "\<forall>e \<in> set is. e < length es \<Longrightarrow> edge_ends g es is = Inr (map (\<lambda>e. g (es ! e)) is)"
  by (induction "is") auto

definition closed_block :: "HIRFunction \<Rightarrow> block_ptr \<Rightarrow> HIRBlock \<Rightarrow> HIRBlock" where
  "closed_block f b hb = hb\<lparr>predecessors := map Some (preds_of (arcs f) b),
                             successors := map Some (succs_of (arcs f) b)\<rparr>"

lemma end_blocks_spec:
  assumes "edges_ok f" and "nblocks f < 2 ^ 16" and "length (arcs f) \<le> 2 ^ 16"
    and "length (blocks f) = nblocks f" and "distinct bs" and "set bs \<subseteq> {..<nblocks f}"
  shows "\<exists>f'. end_blocks f bs = Inr f' \<and> arcs f' = arcs f \<and> nblocks f' = nblocks f \<and>
           block_order_id f' = block_order_id f \<and> length (blocks f') = nblocks f \<and>
           (\<forall>b < nblocks f.
              blocks f' ! b = (if b \<in> set bs then Some b else blocks f ! b) \<and>
              pool_blocks f' ! b =
                (if b \<in> set bs then closed_block f b (pool_blocks f ! b) else pool_blocks f ! b))"
  using assms
proof (induction bs arbitrary: f)
  case Nil
  then show ?case by simp
next
  case (Cons b bs)
  let ?hb = "pool_blocks f ! b"
  let ?vec = "(blocks f)[b := Some b]"
  let ?f1 = "f\<lparr>blocks := ?vec, pool_blocks := (pool_blocks f)[b := closed_block f b ?hb]\<rparr>"
  have b: "b < nblocks f" using Cons.prems(6) by simp
  then obtain loc where fr: "frame ?hb = (of_nat b, loc, out_idx (arcs f) b, in_idx (arcs f) b, [], None)"
    using Cons.prems(1) by (auto simp: edges_ok_def)
  have oid: "unat (order_id ?hb) = b"
    using fr b Cons.prems(2) by (simp add: frame_def unat_of_nat_small)
  have len: "length (preds_of (arcs f) b) \<le> 2 ^ 16" "length (succs_of (arcs f) b) \<le> 2 ^ 16"
    using Cons.prems(3) by (auto simp: preds_of_def succs_of_def intro: le_trans [OF length_filter_le])
  have e: "\<forall>e \<in> set (in_idx (arcs f) b). e < length (pool_edges f)"
      "\<forall>e \<in> set (out_idx (arcs f) b). e < length (pool_edges f)"
    by (auto simp: in_idx_def out_idx_def arcs_def)
  have ends: "map (\<lambda>e. src_block (pool_edges f ! e)) (in_idx (arcs f) b) = preds_of (arcs f) b"
      "map (\<lambda>e. dest_block (pool_edges f ! e)) (out_idx (arcs f) b) = succs_of (arcs f) b"
    using e preds_of_idx [of "arcs f" b] succs_of_idx [of "arcs f" b]
    by (auto simp: arcs_def intro!: map_cong elim!: subst)
  have "end_blocks f (b # bs) = end_blocks ?f1 bs"
    using b fr oid Cons.prems(4) fill_fresh [OF len(1)] fill_fresh [OF len(2)] e ends
    by (simp add: nblocks_def frame_def edge_ends_spec length_idx upd_block_def closed_block_def)
  moreover have "arcs ?f1 = arcs f" "nblocks ?f1 = nblocks f" by (simp_all add: arcs_def nblocks_def)
  moreover have "edges_ok ?f1"
  proof -
    have "frame (pool_blocks ?f1 ! k) = frame (pool_blocks f ! k)" if "k < nblocks f" for k
      using that b by (cases "k = b") (simp_all add: frame_def closed_block_def nblocks_def)
    then show ?thesis using Cons.prems(1) \<open>arcs ?f1 = arcs f\<close> \<open>nblocks ?f1 = nblocks f\<close>
      by (simp add: edges_ok_def)
  qed
  moreover have "closed_block ?f1 k = closed_block f k" for k
    using \<open>arcs ?f1 = arcs f\<close> by (simp add: closed_block_def fun_eq_iff)
  ultimately show ?case
    using Cons.IH [of ?f1] Cons.prems b
    by (auto simp: nblocks_def nth_list_update)
qed

lemma EndFunction_spec:
  assumes "graph_inv f" and "current_block f = Some cur" and "nblocks f < 2 ^ 16"
    and "length (arcs f) \<le> 2 ^ 16"
  shows "\<exists>f'. EndFunction f = Inr f' \<and> cfg_ready f' \<and> arcs f' = arcs f \<and> nblocks f' = nblocks f"
proof -
  obtain f1 where f1: "EndBlock f PopRSBHint = Inr f1" "graph_inv f1" "arcs f1 = arcs f"
      "nblocks f1 = nblocks f"
    using EndBlock_spec [OF assms(1,2)] by blast
  have ok: "blocks_ok f1" "edges_ok f1" using f1(2) by (simp_all add: graph_inv_def)
  have n: "unat (MaxBlockCount f1) = nblocks f"
    using ok(1) f1(4) assms(3) by (simp add: MaxBlockCount_def blocks_ok_def unat_of_nat_small)
  let ?f2 = "f1\<lparr>blocks := replicate (nblocks f) None\<rparr>"
  have p2: "arcs ?f2 = arcs f" "nblocks ?f2 = nblocks f" "edges_ok ?f2"
    using f1(3,4) ok(2) by (simp_all add: arcs_def nblocks_def edges_ok_def)
  have sub: "{0..<nblocks f} \<subseteq> {..<nblocks f}" by auto
  obtain f' where f': "end_blocks ?f2 [0..<nblocks f] = Inr f'" "arcs f' = arcs f" "nblocks f' = nblocks f"
      "block_order_id f' = block_order_id f1" "length (blocks f') = nblocks f"
      "\<forall>b < nblocks f. blocks f' ! b = Some b \<and>
         pool_blocks f' ! b = closed_block ?f2 b (pool_blocks f1 ! b)"
    using end_blocks_spec [of ?f2 "[0..<nblocks f]"] p2 assms(3,4) sub by auto
  have "EndFunction f = Inr f'"
    using f1(1,4) n f'(1) ok(1) by (simp add: EndFunction_def blocks_ok_def)
  moreover have "cfg_ready f'"
  proof -
    have "blocks f' = map Some [0..<nblocks f]" using f'(5,6) by (intro nth_equalityI) auto
    moreover have "cur < nblocks f" using assms(1,2) by (simp add: graph_inv_def blocks_ok_def)
    moreover have "frame (closed_block ?f2 b hb) = frame hb" for b hb
      by (simp add: frame_def closed_block_def)
    ultimately show ?thesis
      using f' ok f1(3,4) assms(3) p2(1)
      by (auto simp: cfg_ready_def blocks_ok_def edges_ok_def closed_block_def)
  qed
  ultimately show ?thesis using f'(2,3) by blast
qed

section \<open>Properties\<close>

lemma count_preds: "count_list (preds_of A b) a = count_list A (a, b)"
  by (induction A) (auto simp: preds_of_def)

lemma count_succs: "count_list (succs_of A a) b = count_list A (a, b)"
  by (induction A) (auto simp: succs_of_def)

lemma count_map_Some: "count_list (map Some xs) (Some x) = count_list xs x"
  by (induction xs) auto




definition two_way :: "HIRFunction result" where
  "two_way = res_bind (new_HIRFunction 0 0) (\<lambda>f.
     res_bind (fn_If f None (LinkBlockT 1) (LinkBlockT 2)) (\<lambda>(f1, _). Inr f1))"

lemma two_way_ok: "\<exists>f. two_way = Inr f \<and> graph_inv f \<and> current_block f = Some 2 \<and> nblocks f = 3 \<and>
    arcs f = [(0, 2), (0, 1)]"
proof -
  obtain f where f: "new_HIRFunction 0 0 = Inr f" "build_inv f" "current_block f = Some 0"
    using new_HIRFunction_spec [of 0 0] by blast
  from fn_If_spec [OF f(2,3) GetNextLocation.simps(1) [of 1] GetNextLocation.simps(1) [of 2], of None]
  obtain f' eb tb where f': "fn_If f None (LinkBlockT 1) (LinkBlockT 2) = Inr (f', eb, tb)" "build_inv f'"
    by blast
  then have t: "two_way = Inr f'" using f(1) by (simp add: two_way_def)
  have "case two_way of Inl _ \<Rightarrow> False
      | Inr f \<Rightarrow> current_block f = Some 2 \<and> nblocks f = 3 \<and> arcs f = [(0, 2), (0, 1)]"
    by code_simp
  then show ?thesis using f'(2) unfolding t by (simp add: build_inv_def)
qed


end
