(* ===== verification/CFG_Analysis.thy ===== *)
theory CFG_Analysis
  imports HIR_Graph
begin

text \<open>
  The control flow analysis (\<open>src/source/runtime/ir/opts/cfg_analysis_pass.cpp\<close>): the marking of
  dominating edges, the search for back edges and the computation of dominators.

  \<open>blocks_rpo\<close> is the sequence of blocks that the pass pushes onto that list; what the pushes do
  to the links, which the blocks share with \<open>block_list\<close>, is shown in \<open>Intrusive_List\<close>.

  Loops whose end depends on the data carry a bound.  The chain of dominators of a block visits
  no more blocks than the function has, unless it runs in a circle and never ends; the two
  worklist loops make at most one step per edge and one per push, so that the bounds in
  \<open>FindBackEdges\<close> and \<open>ComputeDominanceInformation\<close> are never the reason for a failure.
\<close>

section \<open>Common dominators\<close>

fun chain_len :: "nat \<Rightarrow> HIRFunction \<Rightarrow> block_ptr option \<Rightarrow> nat result" where
  "chain_len n f None = Inr 0"
| "chain_len 0 f (Some b) = Inl Diverges"
| "chain_len (Suc n) f (Some b) =
     res_bind (vec_at (pool_blocks f) b) (\<lambda>hb.
     res_bind (chain_len n f (dominator hb)) (\<lambda>k. Inr (Suc k)))"

definition ChainLength :: "HIRFunction \<Rightarrow> block_ptr \<Rightarrow> nat result" where
  "ChainLength f b = chain_len (nblocks f) f (Some b)"

record CommonDominator =
  cd_dominator :: block_ptr
  cd_chain_length :: nat

definition new_CommonDominator :: "HIRFunction \<Rightarrow> block_ptr \<Rightarrow> CommonDominator result" where
  "new_CommonDominator f b =
     res_bind (ChainLength f b) (\<lambda>n. Inr \<lparr>cd_dominator = b, cd_chain_length = n\<rparr>)"

text \<open>One step \<open>block = block->GetDominator(); ASSERT(block != nullptr)\<close>, and \<open>k\<close> of them.\<close>

definition step_up :: "HIRFunction \<Rightarrow> block_ptr \<Rightarrow> block_ptr result" where
  "step_up f b =
     res_bind (vec_at (pool_blocks f) b) (\<lambda>hb.
       case dominator hb of None \<Rightarrow> Inl AssertFailed | Some d \<Rightarrow> Inr d)"

fun climb :: "nat \<Rightarrow> HIRFunction \<Rightarrow> block_ptr \<Rightarrow> block_ptr result" where
  "climb 0 f b = Inr b"
| "climb (Suc k) f b = res_bind (step_up f b) (\<lambda>d. climb k f d)"

fun run_up :: "nat \<Rightarrow> HIRFunction \<Rightarrow> block_ptr \<Rightarrow> block_ptr \<Rightarrow> nat \<Rightarrow> (block_ptr \<times> nat) result" where
  "run_up 0 f b b2 len = (if b = b2 then Inr (b, len) else Inl Diverges)"
| "run_up (Suc n) f b b2 len =
     (if b = b2 then Inr (b, len)
      else res_bind (step_up f b) (\<lambda>d. res_bind (step_up f b2) (\<lambda>d2. run_up n f d d2 (len - 1))))"

definition Update :: "HIRFunction \<Rightarrow> CommonDominator \<Rightarrow> block_ptr \<Rightarrow> CommonDominator result" where
  "Update f cd b =
     (let b2 = cd_dominator cd in
      if b = b2 then Inr cd
      else
        res_bind (ChainLength f b) (\<lambda>len.
        (let len2 = cd_chain_length cd in
         res_bind (climb (len - len2) f b) (\<lambda>b'.
         res_bind (climb (len2 - len) f b2) (\<lambda>b2'.
         res_bind (run_up (nblocks f) f b' b2' (min len len2)) (\<lambda>(d, l).
           Inr \<lparr>cd_dominator = d, cd_chain_length = l\<rparr>))))))"

definition ForPair :: "HIRFunction \<Rightarrow> block_ptr \<Rightarrow> block_ptr \<Rightarrow> block_ptr result" where
  "ForPair f b1 b2 =
     res_bind (new_CommonDominator f b1) (\<lambda>cd.
     res_bind (Update f cd b2) (\<lambda>cd1. Inr (cd_dominator cd1)))"

section \<open>The pass\<close>

definition ContainsElement :: "'a list \<Rightarrow> 'a \<Rightarrow> bool result" where
  "ContainsElement xs x = res_bind (ASSERT (0 < length xs)) (\<lambda>_. Inr (x \<in> set xs))"

text \<open>A read of a vector of block pointers.\<close>

definition vec_ptr :: "'a option list \<Rightarrow> nat \<Rightarrow> 'a result" where
  "vec_ptr xs i =
     res_bind (vec_at xs i) (\<lambda>p. case p of None \<Rightarrow> Inl NullDeref | Some x \<Rightarrow> Inr x)"

definition UpdateDominatorOfSuccessor ::
  "HIRFunction \<Rightarrow> block_ptr \<Rightarrow> block_ptr \<Rightarrow> (HIRFunction \<times> bool) result" where
  "UpdateDominatorOfSuccessor f b successor =
     res_bind (vec_at (pool_blocks f) b) (\<lambda>hb.
     res_bind (ContainsElement (successors hb) (Some successor)) (\<lambda>c.
     res_bind (ASSERT c) (\<lambda>_.
     res_bind (vec_at (pool_blocks f) successor) (\<lambda>sb.
     res_bind (case dominator sb of None \<Rightarrow> Inr b | Some old \<Rightarrow> ForPair f old b) (\<lambda>new_dominator.
       if dominator sb = Some new_dominator then Inr (f, False)
       else
         res_bind (upd_block f successor (dominator_update (\<lambda>_. Some new_dominator))) (\<lambda>f1.
           Inr (f1, True)))))))"

fun mark_edges :: "HIRFunction \<Rightarrow> block_ptr option list \<Rightarrow> HIRFunction result" where
  "mark_edges f [] = Inr f"
| "mark_edges f (None # bs) = Inl NullDeref"
| "mark_edges f (Some b # bs) =
     res_bind (vec_at (pool_blocks f) b) (\<lambda>hb.
     res_bind (if length (incoming_edges hb) = 1 then
                 res_bind (vec_at (pool_edges f) (hd (incoming_edges hb))) (\<lambda>e.
                   Inr (f\<lparr>pool_edges := (pool_edges f)
                            [hd (incoming_edges hb) := e\<lparr>eflags := eflags e OR DOMINATES\<rparr>]\<rparr>))
               else Inr f) (\<lambda>f1.
       mark_edges f1 bs))"

definition FindDominateEdges :: "HIRFunction \<Rightarrow> HIRFunction result" where
  "FindDominateEdges f = mark_edges f (blocks f)"

text \<open>
  The state of the search for back edges.  The worklist is a stack; its first element is
  \<open>worklist.back()\<close>.
\<close>

record back_state =
  bs_fn :: HIRFunction
  bs_visited :: "bool list"
  bs_visiting :: "bool list"
  bs_succ :: "u16 list"
  bs_work :: "block_ptr list"

definition AddBackEdge :: "HIRFunction \<Rightarrow> block_ptr \<Rightarrow> block_ptr \<Rightarrow> HIRFunction result" where
  "AddBackEdge f b target = upd_block f b (back_edges_update (\<lambda>es. es @ [target]))"

definition back_step :: "back_state \<Rightarrow> block_ptr \<Rightarrow> back_state result" where
  "back_step s current =
     res_bind (vec_at (pool_blocks (bs_fn s)) current) (\<lambda>hb.
     (let current_id = unat (order_id hb) in
      res_bind (vec_at (bs_succ s) current_id) (\<lambda>k.
      if unat k = length (successors hb) then
        res_bind (vec_set (bs_visiting s) current_id False) (\<lambda>v.
          Inr (s\<lparr>bs_visiting := v, bs_work := tl (bs_work s)\<rparr>))
      else
        res_bind (vec_ptr (successors hb) (unat k)) (\<lambda>successor.
        res_bind (vec_set (bs_succ s) current_id (k + 1)) (\<lambda>sv.
        res_bind (vec_at (pool_blocks (bs_fn s)) successor) (\<lambda>sb.
        (let successor_id = unat (order_id sb) in
         res_bind (vec_at (bs_visiting s) successor_id) (\<lambda>visiting.
         res_bind (vec_at (bs_visited s) successor_id) (\<lambda>visited.
         if visiting then
           res_bind (ContainsElement (bs_work s) successor) (\<lambda>c.
           res_bind (ASSERT c) (\<lambda>_.
           res_bind (AddBackEdge (bs_fn s) successor current) (\<lambda>f1.
             Inr (s\<lparr>bs_fn := f1, bs_succ := sv\<rparr>))))
         else if \<not> visited then
           res_bind (vec_set (bs_visited s) successor_id True) (\<lambda>vd.
           res_bind (vec_set (bs_visiting s) successor_id True) (\<lambda>vg.
             Inr (s\<lparr>bs_succ := sv, bs_visited := vd, bs_visiting := vg,
                     bs_work := successor # bs_work s\<rparr>)))
         else Inr (s\<lparr>bs_succ := sv\<rparr>))))))))))"

fun back_loop :: "nat \<Rightarrow> back_state \<Rightarrow> back_state result" where
  "back_loop 0 s = (case bs_work s of [] \<Rightarrow> Inr s | _ \<Rightarrow> Inl Diverges)"
| "back_loop (Suc n) s =
     (case bs_work s of
        [] \<Rightarrow> Inr s
      | current # _ \<Rightarrow> res_bind (back_step s current) (\<lambda>s1. back_loop n s1))"

definition FindBackEdges :: "HIRFunction \<Rightarrow> bool list \<Rightarrow> (HIRFunction \<times> bool list) result" where
  "FindBackEdges f visited =
     (let max_block_counts = unat (MaxBlockCount f) in
      res_bind (vec_ptr (blocks f) 0) (\<lambda>entry.
      res_bind (vec_at (pool_blocks f) entry) (\<lambda>eb.
      res_bind (vec_set visited (unat (order_id eb)) True) (\<lambda>vd.
      res_bind (vec_set (replicate max_block_counts False) (unat (order_id eb)) True) (\<lambda>vg.
      res_bind (back_loop (length (pool_edges f) + nblocks f)
        \<lparr>bs_fn = f, bs_visited = vd, bs_visiting = vg, bs_succ = replicate max_block_counts 0,
         bs_work = [entry]\<rparr>) (\<lambda>s.
        Inr (bs_fn s, bs_visited s)))))))"

text \<open>The state of the dominator computation.\<close>

record dom_state =
  ds_fn :: HIRFunction
  ds_visits :: "u16 list"
  ds_succ :: "u16 list"
  ds_work :: "block_ptr list"

definition dom_step :: "dom_state \<Rightarrow> block_ptr \<Rightarrow> dom_state result" where
  "dom_step s current =
     res_bind (vec_at (pool_blocks (ds_fn s)) current) (\<lambda>hb.
     (let current_id = unat (order_id hb) in
      res_bind (vec_at (ds_succ s) current_id) (\<lambda>k.
      if unat k = length (outgoing_edges hb) then Inr (s\<lparr>ds_work := tl (ds_work s)\<rparr>)
      else
        res_bind (vec_ptr (successors hb) (unat k)) (\<lambda>successor.
        res_bind (vec_set (ds_succ s) current_id (k + 1)) (\<lambda>sv.
        res_bind (UpdateDominatorOfSuccessor (ds_fn s) current successor) (\<lambda>(f1, _).
        res_bind (vec_at (pool_blocks f1) successor) (\<lambda>sb.
        (let successor_id = unat (order_id sb) in
         res_bind (vec_at (ds_visits s) successor_id) (\<lambda>v.
         res_bind (vec_set (ds_visits s) successor_id (v + 1)) (\<lambda>vs.
         if (ucast (v + 1) :: size_t) =
            of_nat (length (predecessors sb)) - of_nat (length (back_edges sb)) then
           Inr (s\<lparr>ds_fn := f1\<lparr>blocks_rpo := blocks_rpo f1 @ [successor]\<rparr>, ds_visits := vs,
                   ds_succ := sv, ds_work := successor # ds_work s\<rparr>)
         else Inr (s\<lparr>ds_fn := f1, ds_visits := vs, ds_succ := sv\<rparr>)))))))))))"

fun dom_loop :: "nat \<Rightarrow> dom_state \<Rightarrow> dom_state result" where
  "dom_loop 0 s = (case ds_work s of [] \<Rightarrow> Inr s | _ \<Rightarrow> Inl Diverges)"
| "dom_loop (Suc n) s =
     (case ds_work s of
        [] \<Rightarrow> Inr s
      | current # _ \<Rightarrow> res_bind (dom_step s current) (\<lambda>s1. dom_loop n s1))"

definition ComputeDominanceInformation :: "HIRFunction \<Rightarrow> HIRFunction result" where
  "ComputeDominanceInformation f =
     (let max_block_counts = unat (MaxBlockCount f) in
      res_bind (vec_ptr (blocks f) 0) (\<lambda>entry.
      res_bind (dom_loop (2 * length (pool_edges f) + 1)
        \<lparr>ds_fn = f, ds_visits = replicate max_block_counts 0,
         ds_succ = replicate max_block_counts 0, ds_work = [entry]\<rparr>) (\<lambda>s.
        Inr (ds_fn s))))"

definition CFG_Run :: "HIRFunction \<Rightarrow> HIRFunction result" where
  "CFG_Run f =
     res_bind (ASSERT (blocks f \<noteq> [])) (\<lambda>_.
     res_bind (FindDominateEdges f) (\<lambda>f1.
     res_bind (FindBackEdges f1 (replicate (unat (MaxBlockCount f1)) False)) (\<lambda>(f2, _).
       ComputeDominanceInformation f2)))"

fun run_functions :: "HIRFunction list \<Rightarrow> HIRFunction list result" where
  "run_functions [] = Inr []"
| "run_functions (f # fs) =
     res_bind (CFG_Run f) (\<lambda>f1. res_bind (run_functions fs) (\<lambda>fs1. Inr (f1 # fs1)))"

definition CFG_Run_builder :: "HIRBuilder \<Rightarrow> HIRBuilder result" where
  "CFG_Run_builder B =
     res_bind (run_functions (hir_functions B)) (\<lambda>fs. Inr (B\<lparr>hir_functions := fs\<rparr>))"

end
