(* ===== verification/CFG_Graph.thy ===== *)
theory CFG_Graph
  imports CFG_Analysis
begin

text \<open>
  Dominance on graphs, chains of dominators and the common dominator of two blocks, and what
  the analysis passes rely on and keep of a finished function.
\<close>

section \<open>Chains of dominators\<close>

fun dchain :: "(block_ptr \<Rightarrow> block_ptr option) \<Rightarrow> block_ptr \<Rightarrow> block_ptr list \<Rightarrow> bool" where
  "dchain D b [] = False"
| "dchain D b (x # xs) \<longleftrightarrow> x = b \<and> (case D b of None \<Rightarrow> xs = [] | Some d \<Rightarrow> dchain D d xs)"

definition doms :: "HIRFunction \<Rightarrow> block_ptr \<Rightarrow> block_ptr option" where
  "doms f b = dominator (pool_blocks f ! b)"

lemma dchain_unique: "dchain D b xs \<Longrightarrow> dchain D b ys \<Longrightarrow> xs = ys"
proof (induction xs arbitrary: b ys)
  case (Cons x xs)
  then show ?case by (cases ys) (auto split: option.splits)
qed simp

lemma dchain_hd: "dchain D b xs \<Longrightarrow> \<exists>ys. xs = b # ys"
  by (cases xs) auto

lemma dchain_suffix: "dchain D b (as @ c # cs) \<Longrightarrow> dchain D c (c # cs)"
proof (induction as arbitrary: b)
  case (Cons a as)
  then show ?case by (auto split: option.splits)
qed auto

lemma dchain_member:
  assumes "dchain D b xs" and "c \<in> set xs"
  obtains as cs where "xs = as @ c # cs" and "dchain D c (c # cs)"
  using assms dchain_suffix by (metis split_list)

lemma dchain_distinct:
  assumes "dchain D b xs"
  shows "distinct xs"
proof (rule ccontr)
  assume "\<not> distinct xs"
  then obtain as bs cs c where xs: "xs = as @ [c] @ bs @ [c] @ cs" using not_distinct_decomp by blast
  have "dchain D c (c # bs @ c # cs)" using dchain_suffix [of D b as c "bs @ c # cs"] assms xs by simp
  moreover have "dchain D c (c # cs)" using dchain_suffix [of D b "as @ c # bs" c cs] assms xs by simp
  ultimately have "c # bs @ c # cs = c # cs" by (rule dchain_unique)
  then have "length (c # bs @ c # cs) = length (c # cs)" by (rule arg_cong)
  then show False by simp
qed

text \<open>The chain of a member of a chain is no longer than the rest of the chain.\<close>

lemma dchain_member_length:
  assumes "dchain D b (as @ bs)" and "c \<in> set bs" and "dchain D c cs"
  shows "length cs \<le> length bs"
proof -
  obtain us vs where bs: "bs = us @ c # vs" using assms(2) by (metis split_list)
  have "dchain D c (c # vs)" using dchain_suffix [of D b "as @ us" c vs] assms(1) bs by simp
  then have "cs = c # vs" using assms(3) dchain_unique by blast
  then show ?thesis using bs by simp
qed

definition in_range :: "nat \<Rightarrow> (block_ptr \<Rightarrow> block_ptr option) \<Rightarrow> bool" where
  "in_range n D \<longleftrightarrow> (\<forall>b < n. \<forall>d. D b = Some d \<longrightarrow> d < n)"

lemma dchain_range: "dchain D b xs \<Longrightarrow> in_range n D \<Longrightarrow> b < n \<Longrightarrow> set xs \<subseteq> {..<n}"
proof (induction xs arbitrary: b)
  case (Cons x xs)
  then show ?case by (auto simp: in_range_def split: option.splits)
qed simp

lemma dchain_length_le:
  assumes "dchain D b xs" and "in_range n D" and "b < n"
  shows "length xs \<le> n"
proof -
  have "card (set xs) \<le> n"
    using dchain_range [OF assms] card_mono [of "{..<n}" "set xs"] by simp
  then show ?thesis using dchain_distinct [OF assms(1)] by (simp add: distinct_card)
qed

lemma chain_len_dchain:
  "dchain (doms f) b xs \<Longrightarrow> in_range (nblocks f) (doms f) \<Longrightarrow> b < nblocks f \<Longrightarrow> length xs \<le> n \<Longrightarrow>
   chain_len n f (Some b) = Inr (length xs)"
proof (induction xs arbitrary: b n)
  case (Cons x xs)
  then obtain m where n: "n = Suc m" by (cases n) auto
  show ?case
  proof (cases "doms f b")
    case None
    then show ?thesis using Cons.prems n by (simp add: doms_def nblocks_def)
  next
    case (Some d)
    then have "d < nblocks f" using Cons.prems(2,3) by (auto simp: in_range_def)
    then show ?thesis using Cons Some n by (auto simp: doms_def nblocks_def)
  qed
qed simp

lemma ChainLength_dchain:
  assumes "dchain (doms f) b xs" and "in_range (nblocks f) (doms f)" and "b < nblocks f"
  shows "ChainLength f b = Inr (length xs)"
  using chain_len_dchain [OF assms dchain_length_le [OF assms]] by (simp add: ChainLength_def)

lemma step_up_dchain:
  assumes "dchain (doms f) b (b # d # xs)" and "b < nblocks f"
  shows "step_up f b = Inr d \<and> dchain (doms f) d (d # xs)"
  using assms by (auto simp: step_up_def doms_def nblocks_def split: option.splits)

lemma climb_dchain:
  "dchain (doms f) b (as @ c # cs) \<Longrightarrow> in_range (nblocks f) (doms f) \<Longrightarrow> b < nblocks f \<Longrightarrow>
   climb (length as) f b = Inr c"
proof (induction as arbitrary: b)
  case Nil
  then show ?case by auto
next
  case (Cons a as)
  then have a: "a = b" by simp
  obtain d ds where d: "as @ c # cs = d # ds" by (cases as) auto
  have s: "step_up f b = Inr d" "dchain (doms f) d (as @ c # cs)"
    using step_up_dchain [of f b d ds] Cons.prems a d by auto
  have "d < nblocks f"
    using dchain_range [OF Cons.prems(1-3)] d by auto
  then show ?case using Cons.IH [OF s(2) Cons.prems(2)] s(1) by simp
qed

text \<open>Two chains of equal length to the same root meet in the common part.\<close>

lemma run_up_dchain:
  assumes "dchain (doms f) x xs" and "dchain (doms f) y ys" and "length xs = length ys"
    and "last xs = last ys" and "in_range (nblocks f) (doms f)" and "x < nblocks f" and "y < nblocks f"
    and "length xs \<le> n"
  shows "\<exists>z zs l'. run_up n f x y l = Inr (z, l') \<and> dchain (doms f) z zs \<and> set zs = set xs \<inter> set ys"
  using assms
proof (induction xs arbitrary: x y ys n l)
  case (Cons a xs)
  obtain b ys' where ys: "ys = b # ys'" using Cons.prems(2) by (cases ys) auto
  have ab: "a = x" "b = y" using Cons.prems ys by auto
  obtain m where n: "n = Suc m" using Cons.prems(8) by (cases n) auto
  show ?case
  proof (cases "x = y")
    case True
    then have "ys = a # xs" using dchain_unique Cons.prems(1,2) by blast
    then show ?thesis using True n Cons.prems(1)
      by (auto intro!: exI [of _ "a # xs"])
  next
    case False
    have "xs \<noteq> []" using Cons.prems(3,4) ys ab False by auto
    then obtain d ds where xs: "xs = d # ds" by (cases xs) auto
    obtain e es where ys': "ys' = e # es" using Cons.prems(3) ys xs by (cases ys') auto
    have u: "step_up f x = Inr d" "dchain (doms f) d xs" "step_up f y = Inr e" "dchain (doms f) e ys'"
      using step_up_dchain [of f x d ds] step_up_dchain [of f y e es] Cons.prems ys ys' xs ab by auto
    have r: "d < nblocks f" "e < nblocks f"
      using dchain_range [OF Cons.prems(1,5,6)] dchain_range [OF Cons.prems(2,5,7)] xs ys ys' by auto
    have lst: "last xs = last ys'" using Cons.prems(4) xs ys ys' by simp
    obtain z zs l' where z: "run_up m f d e (l - 1) = Inr (z, l')" "dchain (doms f) z zs"
        "set zs = set xs \<inter> set ys'"
      using Cons.IH [OF u(2,4) _ lst Cons.prems(5) r, of m "l - 1"] Cons.prems(3,8) ys n by auto
    have "x \<notin> set ys'"
      using dchain_member_length [of "doms f" y "[b]" ys' x "a # xs"] Cons.prems(1-3) ys by auto
    moreover have "y \<notin> set xs"
      using dchain_member_length [of "doms f" x "[a]" xs y ys] Cons.prems(1-3) ys by auto
    ultimately have "set zs = set (a # xs) \<inter> set ys" using z(3) ys ab False by auto
    then show ?thesis using z False u n by auto
  qed
qed simp

lemma dchain_drop_common:
  assumes "dchain D x (as @ xs)" and "dchain D y ys" and "length xs = length ys"
  shows "set (as @ xs) \<inter> set ys = set xs \<inter> set ys"
proof -
  have False if c: "c \<in> set as" "c \<in> set ys" for c
  proof -
    obtain us vs where as: "as = us @ c # vs" using c(1) by (metis split_list)
    have "dchain D c (c # vs @ xs)" using dchain_suffix [of D x us c "vs @ xs"] assms(1) as by simp
    moreover have "dchain D y ([] @ ys)" using assms(2) by simp
    ultimately have "length (c # vs @ xs) \<le> length ys" using dchain_member_length c(2) by blast
    then show False using assms(3) by simp
  qed
  then show ?thesis by auto
qed

lemma dchain_split:
  assumes "dchain D x xs" and "k < length xs"
  obtains as c cs where "xs = as @ c # cs" and "length as = k" and "dchain D c (c # cs)"
proof -
  have s: "xs = take k xs @ xs ! k # drop (Suc k) xs" using assms(2) by (rule id_take_nth_drop)
  moreover have "dchain D (xs ! k) (xs ! k # drop (Suc k) xs)"
    using dchain_suffix [of D x "take k xs"] assms(1) s by metis
  ultimately show thesis using that [of "take k xs"] assms(2) by simp
qed

text \<open>\<open>ForPair\<close> returns the block whose chain is the common part of the two chains.\<close>

lemma ForPair_common:
  assumes xs: "dchain (doms f) x xs" and ys: "dchain (doms f) y ys" and lst: "last xs = last ys"
    and ran: "in_range (nblocks f) (doms f)" and x: "x < nblocks f" and y: "y < nblocks f"
  shows "\<exists>z zs. ForPair f x y = Inr z \<and> dchain (doms f) z zs \<and> set zs = set xs \<inter> set ys"
proof (cases "x = y")
  case True
  then have "xs = ys" using dchain_unique xs ys by blast
  then show ?thesis
    using True ChainLength_dchain [OF xs ran x] xs
    by (auto simp: ForPair_def new_CommonDominator_def Update_def Let_def)
next
  case False
  have cl: "ChainLength f x = Inr (length xs)" "ChainLength f y = Inr (length ys)"
    using ChainLength_dchain [OF xs ran x] ChainLength_dchain [OF ys ran y] by simp_all
  have "0 < length xs" "0 < length ys" using dchain_hd [OF xs] dchain_hd [OF ys] by auto
  then have lt: "length xs - length ys < length xs" "length ys - length xs < length ys" by linarith+
  obtain as c cs where x': "xs = as @ c # cs" "length as = length xs - length ys" "dchain (doms f) c (c # cs)"
    by (rule dchain_split [OF xs lt(1)], rule that)
  obtain bs d ds where y': "ys = bs @ d # ds" "length bs = length ys - length xs" "dchain (doms f) d (d # ds)"
    by (rule dchain_split [OF ys lt(2)], rule that)
  have len: "length (c # cs) = length (d # ds)"
  proof -
    have "length xs = length as + length (c # cs)" "length ys = length bs + length (d # ds)"
      by (simp_all add: x'(1) y'(1))
    then show ?thesis using x'(2) y'(2) by linarith
  qed
  have cx: "climb (length xs - length ys) f x = Inr c" "climb (length ys - length xs) f y = Inr d"
    using climb_dchain [OF xs [unfolded x'(1)] ran x] climb_dchain [OF ys [unfolded y'(1)] ran y]
    by (simp_all only: x'(2) y'(2))
  have r: "c < nblocks f" "d < nblocks f"
    using dchain_range [OF xs ran x] dchain_range [OF ys ran y] x'(1) y'(1) by auto
  have "last (c # cs) = last (d # ds)" using lst x'(1) y'(1) by simp
  then obtain z zs l' where z: "run_up (nblocks f) f d c (min (length ys) (length xs)) = Inr (z, l')"
      "dchain (doms f) z zs" "set zs = set (d # ds) \<inter> set (c # cs)"
    using run_up_dchain [OF y'(3) x'(3) len [symmetric] _ ran r(2,1) dchain_length_le [OF y'(3) ran r(2)]]
    by metis
  have "set (as @ c # cs) \<inter> set (bs @ d # ds) = set (c # cs) \<inter> set (d # ds)"
  proof (cases "length xs \<le> length ys")
    case True
    then have "as = []" using x'(2) by simp
    moreover have "set (bs @ d # ds) \<inter> set (c # cs) = set (d # ds) \<inter> set (c # cs)"
      using ys y'(1) x'(3) len by (intro dchain_drop_common [of "doms f" y _ _ c]) simp_all
    ultimately show ?thesis by auto
  next
    case False
    then have "bs = []" using y'(2) by simp
    moreover have "set (as @ c # cs) \<inter> set (d # ds) = set (c # cs) \<inter> set (d # ds)"
      using xs x'(1) y'(3) len by (intro dchain_drop_common [of "doms f" x _ _ d]) simp_all
    ultimately show ?thesis by simp
  qed
  then have "set zs = set xs \<inter> set ys" using z(3) x'(1) y'(1) by auto
  moreover have "ForPair f x y = Inr z"
    using False cl cx z(1) by (simp add: ForPair_def new_CommonDominator_def Update_def Let_def)
  ultimately show ?thesis using z(2) by blast
qed

section \<open>Dominance on a graph with entry 0\<close>

text \<open>\<open>ra E S b\<close>: the block \<open>b\<close> can be reached from the entry without passing a block of \<open>S\<close>.\<close>

inductive ra :: "(block_ptr \<times> block_ptr) set \<Rightarrow> block_ptr set \<Rightarrow> block_ptr \<Rightarrow> bool"
  for E :: "(block_ptr \<times> block_ptr) set" and S :: "block_ptr set" where
  entry: "0 \<notin> S \<Longrightarrow> ra E S 0"
| step: "ra E S u \<Longrightarrow> (u, v) \<in> E \<Longrightarrow> v \<notin> S \<Longrightarrow> ra E S v"

definition dominates :: "(block_ptr \<times> block_ptr) set \<Rightarrow> block_ptr \<Rightarrow> block_ptr \<Rightarrow> bool" where
  "dominates E d b \<longleftrightarrow> \<not> ra E {d} b"

text \<open>
  A graph is reducible if its edges that do not lead back to a dominator of their source form
  no cycle.
\<close>

definition reducible :: "(block_ptr \<times> block_ptr) set \<Rightarrow> bool" where
  "reducible E \<longleftrightarrow> acyclic {(a, b) \<in> E. \<not> dominates E b a}"

lemma ra_notin: "ra E S b \<Longrightarrow> b \<notin> S"
  by (cases rule: ra.cases) auto

lemma ra_mono: "ra E S b \<Longrightarrow> T \<subseteq> S \<Longrightarrow> ra E T b"
  by (induction rule: ra.induct) (auto intro: ra.intros)

lemma ra_split: "ra E S a \<Longrightarrow> ra E (insert v S) a \<or> ra E S v"
  by (induction rule: ra.induct) (auto intro: ra.intros)

lemma ra_first: "ra E S v \<Longrightarrow> v \<noteq> 0 \<Longrightarrow> \<exists>u. ra E (insert v S) u \<and> (u, v) \<in> E"
proof -
  have "ra E S x \<Longrightarrow> ra E (insert v S) x \<or> v = 0 \<or> (\<exists>u. ra E (insert v S) u \<and> (u, v) \<in> E)" for x
    by (induction rule: ra.induct) (auto intro: ra.intros)
  then show "ra E S v \<Longrightarrow> v \<noteq> 0 \<Longrightarrow> ?thesis" using ra_notin by blast
qed

lemma ra_reach: "(0, b) \<in> E\<^sup>* \<Longrightarrow> ra E {} b"
  by (induction rule: rtrancl_induct) (auto intro: ra.intros)

lemma dominates_refl: "dominates E d d"
  using ra_notin unfolding dominates_def by blast

lemma dominates_trans: "dominates E d v \<Longrightarrow> dominates E v a \<Longrightarrow> dominates E d a"
  using ra_split [of E "{d}" a v] ra_mono [of E "{v, d}" a "{v}"] unfolding dominates_def by blast

lemma dominates_pred: "dominates E d v \<Longrightarrow> d \<noteq> v \<Longrightarrow> (u, v) \<in> E \<Longrightarrow> dominates E d u"
  unfolding dominates_def by (auto intro: ra.intros)

lemma dominates_entry: "dominates E d 0 \<longleftrightarrow> d = 0"
  using ra_notin unfolding dominates_def by (auto intro: ra.intros)

text \<open>Only edges that do not lead back to a dominator of their source matter for dominance.\<close>

lemma dominates_from_preds:
  assumes "v \<noteq> 0" and "\<And>u. (u, v) \<in> E \<Longrightarrow> \<not> dominates E v u \<Longrightarrow> dominates E d u"
  shows "dominates E d v"
proof -
  have "\<not> ra E {v, d} u" if "(u, v) \<in> E" for u
    using assms(2) [OF that] ra_mono [of E "{v, d}" u "{v}"] ra_mono [of E "{v, d}" u "{d}"]
    unfolding dominates_def by blast
  then show ?thesis using ra_first [of E "{d}" v] assms(1) unfolding dominates_def by blast
qed

lemma forward_pred: "v \<noteq> 0 \<Longrightarrow> (0, v) \<in> E\<^sup>* \<Longrightarrow> \<exists>u. (u, v) \<in> E \<and> \<not> dominates E v u"
  using ra_first [OF ra_reach] unfolding dominates_def by blast

text \<open>The worklist of a depth first search is a path from the entry.\<close>

fun spath :: "(block_ptr \<times> block_ptr) set \<Rightarrow> block_ptr list \<Rightarrow> bool" where
  "spath E [] = True"
| "spath E [x] \<longleftrightarrow> x = 0"
| "spath E (x # y # W) \<longleftrightarrow> (y, x) \<in> E \<and> spath E (y # W)"

lemma spath_ra: "spath E (x # W) \<Longrightarrow> S \<inter> set (x # W) = {} \<Longrightarrow> ra E S x"
proof (induction W arbitrary: x)
  case (Cons y W)
  then show ?case using ra.step [of E S y x] by simp
qed (auto intro: ra.intros)

lemma spath_dominator: "spath E (x # W) \<Longrightarrow> dominates E d x \<Longrightarrow> d \<in> set (x # W)"
  using spath_ra [of E x W "{d}"] unfolding dominates_def by blast

lemma spath_forward:
  "spath E (x # W) \<Longrightarrow> distinct (x # W) \<Longrightarrow> b \<in> set (x # W) \<Longrightarrow>
   (b, x) \<in> {(a, b) \<in> E. \<not> dominates E b a}\<^sup>*"
proof (induction W arbitrary: x)
  case (Cons y W)
  show ?case
  proof (cases "b = x")
    case False
    have "\<not> dominates E x y" using Cons.prems spath_dominator [of E y W x] by auto
    moreover have "(b, y) \<in> {(a, b) \<in> E. \<not> dominates E b a}\<^sup>*" using Cons False by simp
    ultimately show ?thesis using Cons.prems(1) by (auto intro: rtrancl_into_rtrancl)
  qed simp
qed simp

lemma reducible_back:
  assumes "reducible E" and "spath E (x # W)" and "distinct (x # W)" and "b \<in> set (x # W)"
    and "(x, b) \<in> E"
  shows "dominates E b x"
proof (rule ccontr)
  assume "\<not> dominates E b x"
  then have "(x, b) \<in> {(a, b) \<in> E. \<not> dominates E b a}" using assms(5) by simp
  then have "(b, b) \<in> {(a, b) \<in> E. \<not> dominates E b a}\<^sup>+"
    using spath_forward [OF assms(2-4)] by (meson rtrancl_into_trancl1)
  then show False using assms(1) unfolding reducible_def acyclic_def by blast
qed

section \<open>The analysed function\<close>

definition back_of :: "HIRFunction \<Rightarrow> block_ptr \<Rightarrow> block_ptr list" where
  "back_of f b = back_edges (pool_blocks f ! b)"

text \<open>What the passes rely on and do not change; see \<open>cfg_ready\<close>.\<close>

definition cfg_st :: "HIRFunction \<Rightarrow> (block_ptr \<times> block_ptr) list \<Rightarrow> nat \<Rightarrow> bool" where
  "cfg_st f A n \<longleftrightarrow>
     nblocks f = n \<and> arcs f = A \<and> blocks f = map Some [0..<n] \<and> 0 < n \<and> n < 2 ^ 16 \<and>
     block_order_id f = of_nat n \<and> set A \<subseteq> {..<n} \<times> {..<n} \<and> length A < 2 ^ 16 \<and>
     (\<forall>b < n. order_id (pool_blocks f ! b) = of_nat b \<and>
        outgoing_edges (pool_blocks f ! b) = out_idx A b \<and>
        incoming_edges (pool_blocks f ! b) = in_idx A b \<and>
        predecessors (pool_blocks f ! b) = map Some (preds_of A b) \<and>
        successors (pool_blocks f ! b) = map Some (succs_of A b))"

lemma cfg_st_ready:
  assumes "cfg_ready f" and "length (arcs f) < 2 ^ 16"
  shows "cfg_st f (arcs f) (nblocks f)" and "b < nblocks f \<Longrightarrow> doms f b = None"
    and "b < nblocks f \<Longrightarrow> back_of f b = []"
  using assms by (auto simp: cfg_ready_def cfg_st_def frame_def doms_def back_of_def)

lemma cfg_st_len: "cfg_st f A n \<Longrightarrow> length (pool_blocks f) = n"
  by (simp add: cfg_st_def nblocks_def)

lemma cfg_st_at:
  assumes "cfg_st f A n" and "b < n"
  shows "vec_at (pool_blocks f) b = Inr (pool_blocks f ! b)"
    and "unat (order_id (pool_blocks f ! b)) = b"
    and "successors (pool_blocks f ! b) = map Some (succs_of A b)"
    and "length (predecessors (pool_blocks f ! b)) = length (preds_of A b)"
    and "length (outgoing_edges (pool_blocks f ! b)) = length (succs_of A b)"
proof -
  have "length (out_idx A b) = length (succs_of A b)" using arg_cong [OF succs_of_idx, of length] by simp
  then show "length (outgoing_edges (pool_blocks f ! b)) = length (succs_of A b)"
    using assms by (simp add: cfg_st_def)
qed (use assms in \<open>auto simp: cfg_st_def nblocks_def unat_of_nat_small\<close>)

lemma set_succs: "b \<in> set (succs_of A a) \<longleftrightarrow> (a, b) \<in> set A"
  by (force simp: succs_of_def)

lemma set_preds: "a \<in> set (preds_of A b) \<longleftrightarrow> (a, b) \<in> set A"
  by (force simp: preds_of_def)

lemma vec_ptr_Some: "k < length xs \<Longrightarrow> vec_ptr (map Some xs) k = Inr (xs ! k)"
  by (simp add: vec_ptr_def)

lemma cfg_st_succ:
  assumes "cfg_st f A n" and "a < n" and "k < length (succs_of A a)"
  shows "vec_ptr (successors (pool_blocks f ! a)) k = Inr (succs_of A a ! k)"
    and "succs_of A a ! k < n" and "(a, succs_of A a ! k) \<in> set A"
proof -
  show a: "(a, succs_of A a ! k) \<in> set A" using assms(3) set_succs nth_mem by blast
  then show "succs_of A a ! k < n" using assms(1) by (auto simp: cfg_st_def)
  show "vec_ptr (successors (pool_blocks f ! a)) k = Inr (succs_of A a ! k)"
    using assms(3) cfg_st_at(3) [OF assms(1,2)] by (simp add: vec_ptr_Some)
qed

lemma length_succs: "length (succs_of A a) \<le> length A"
  by (simp add: succs_of_def)

lemma cfg_st_upd:
  assumes "cfg_st f A n" and "b < n"
  shows "upd_block f b (dominator_update g) = Inr (f\<lparr>pool_blocks := (pool_blocks f)[b := dominator_update g (pool_blocks f ! b)]\<rparr>)"
    and "cfg_st (f\<lparr>pool_blocks := (pool_blocks f)[b := dominator_update g (pool_blocks f ! b)]\<rparr>) A n"
    and "upd_block f b (back_edges_update h) = Inr (f\<lparr>pool_blocks := (pool_blocks f)[b := back_edges_update h (pool_blocks f ! b)]\<rparr>)"
    and "cfg_st (f\<lparr>pool_blocks := (pool_blocks f)[b := back_edges_update h (pool_blocks f ! b)]\<rparr>) A n"
  using assms
  by (auto simp: cfg_st_def upd_block_total nblocks_def arcs_def nth_list_update)

lemma SetDominator_spec:
  assumes "cfg_st f A n" and "b < n"
  shows "\<exists>f'. upd_block f b (dominator_update (\<lambda>_. Some d)) = Inr f' \<and> cfg_st f' A n \<and>
              doms f' = (doms f)(b := Some d) \<and> back_of f' = back_of f \<and> blocks_rpo f' = blocks_rpo f"
  using cfg_st_upd(1,2) [OF assms, of "\<lambda>_. Some d"] cfg_st_len [OF assms(1)] assms(2)
  by (auto simp: doms_def back_of_def nth_list_update fun_eq_iff)

lemma AddBackEdge_spec:
  assumes "cfg_st f A n" and "b < n"
  shows "\<exists>f'. AddBackEdge f b t = Inr f' \<and> cfg_st f' A n \<and> doms f' = doms f \<and>
              back_of f' = (back_of f)(b := back_of f b @ [t]) \<and> blocks_rpo f' = blocks_rpo f"
  using cfg_st_upd(3,4) [OF assms, of "\<lambda>es. es @ [t]"] cfg_st_len [OF assms(1)] assms(2)
  by (auto simp: AddBackEdge_def doms_def back_of_def nth_list_update fun_eq_iff)

text \<open>The edges still to be followed, given the number of edges followed from each block.\<close>

definition rest :: "(block_ptr \<times> block_ptr) list \<Rightarrow> nat \<Rightarrow> u16 list \<Rightarrow> nat" where
  "rest A n cs = (\<Sum>a<n. length (succs_of A a) - unat (cs ! a))"

lemma rest_initial:
  assumes "set A \<subseteq> {..<n} \<times> {..<n}"
  shows "rest A n (replicate n 0) = length A"
proof -
  have "(\<Sum>a<n. length (filter (\<lambda>e. fst e = a) A)) = length A"
    using assms
  proof (induction A)
    case (Cons e A)
    have "(\<Sum>a<n. length (filter (\<lambda>x. fst x = a) (e # A))) =
        (\<Sum>a<n. (if fst e = a then 1 else 0) + length (filter (\<lambda>x. fst x = a) A))"
      by (intro sum.cong) auto
    then show ?case using Cons by (auto simp: sum.distrib)
  qed simp
  then show ?thesis by (simp add: rest_def succs_of_def)
qed

lemma unat_inc:
  assumes "unat (k :: u16) < m" and "m < 2 ^ 16"
  shows "unat (k + 1) = Suc (unat k)"
proof -
  have "unat k + unat (1 :: u16) < 2 ^ LENGTH(16)" using assms by simp
  then show ?thesis by (simp add: unat_plus_if_size word_size)
qed

lemma rest_follow:
  assumes "a < n" and "length cs = n" and "unat (cs ! a) < length (succs_of A a)" and "length A < 2 ^ 16"
  shows "Suc (rest A n (cs[a := cs ! a + 1])) = rest A n cs"
proof -
  have u: "unat (cs ! a + 1) = Suc (unat (cs ! a))"
    using unat_inc [OF assms(3)] length_succs [of A a] assms(4) by linarith
  let ?g = "\<lambda>cs x. length (succs_of A x) - unat (cs ! x :: u16)"
  have "rest A n c = ?g c a + (\<Sum>x \<in> {..<n} - {a}. ?g c x)" for c
    using assms(1) by (simp add: rest_def sum.remove)
  moreover have "(\<Sum>x \<in> {..<n} - {a}. ?g (cs[a := cs ! a + 1]) x) = (\<Sum>x \<in> {..<n} - {a}. ?g cs x)"
    by (intro sum.cong) auto
  ultimately show ?thesis using assms(1-3) u by simp
qed

end
