(* ===== verification/CFG_BackEdges.thy ===== *)
theory CFG_BackEdges
  imports CFG_Graph
begin

text \<open>
  The marking of dominating edges and the search for back edges: it always ends, and on a
  reducible graph the recorded back edges are the edges to a dominator of their source.
\<close>

section \<open>Dominating edges\<close>

lemma mark_edges_spec:
  assumes "cfg_st f A n" and "set bs \<subseteq> {..<n}"
  shows "\<exists>f'. mark_edges f (map Some bs) = Inr f' \<and> cfg_st f' A n \<and> pool_blocks f' = pool_blocks f \<and>
              blocks_rpo f' = blocks_rpo f \<and>
              (\<forall>e < length A. eflags (pool_edges f' ! e) =
                 (if snd (A ! e) \<in> set bs \<and> length (in_idx A (snd (A ! e))) = 1
                  then eflags (pool_edges f ! e) OR DOMINATES else eflags (pool_edges f ! e)))"
  using assms
proof (induction bs arbitrary: f)
  case (Cons b bs)
  have b: "b < n" using Cons.prems(2) by simp
  have inc: "incoming_edges (pool_blocks f ! b) = in_idx A b" and len: "length (pool_edges f) = length A"
    and st: "cfg_st f A n" and arcs: "arcs f = A"
    using Cons.prems b by (auto simp: cfg_st_def arcs_def)
  define e0 where "e0 = hd (in_idx A b)"
  define g where "g = (if length (in_idx A b) = 1
    then f\<lparr>pool_edges := (pool_edges f)[e0 := (pool_edges f ! e0)\<lparr>eflags := eflags (pool_edges f ! e0) OR DOMINATES\<rparr>]\<rparr>
    else f)"
  have e0: "e0 < length A \<and> snd (A ! e0) = b \<and> (\<forall>e < length A. snd (A ! e) = b \<longrightarrow> e = e0)"
    if l: "length (in_idx A b) = 1"
  proof -
    obtain x where x: "in_idx A b = [x]" using l by (auto simp: length_Suc_conv)
    have "set (in_idx A b) = {e. e < length A \<and> snd (A ! e) = b}" by (auto simp: in_idx_def)
    then have "{e. e < length A \<and> snd (A ! e) = b} = {e0}" using x by (simp add: e0_def)
    then show ?thesis by (auto simp: set_eq_iff)
  qed
  have "arcs g = arcs f"
    by (auto simp: g_def arcs_def map_update list_update_same_conv)
       (metis (no_types, lifting) list_update_id map_update)
  then have stg: "cfg_st g A n" using st by (simp add: cfg_st_def g_def nblocks_def)
  have step: "mark_edges f (map Some (b # bs)) = mark_edges g (map Some bs)"
    using e0 b inc len cfg_st_len [OF st] by (simp add: g_def e0_def)
  have fl: "eflags (pool_edges g ! e) = (if snd (A ! e) = b \<and> length (in_idx A b) = 1
      then eflags (pool_edges f ! e) OR DOMINATES else eflags (pool_edges f ! e))" if "e < length A" for e
    using e0 that len by (auto simp: g_def nth_list_update)
  have keep: "pool_blocks g = pool_blocks f" "blocks_rpo g = blocks_rpo f" by (simp_all add: g_def)
  obtain f' where f': "mark_edges g (map Some bs) = Inr f'" "cfg_st f' A n" "pool_blocks f' = pool_blocks g"
      "blocks_rpo f' = blocks_rpo g"
      "\<forall>e < length A. eflags (pool_edges f' ! e) =
         (if snd (A ! e) \<in> set bs \<and> length (in_idx A (snd (A ! e))) = 1
          then eflags (pool_edges g ! e) OR DOMINATES else eflags (pool_edges g ! e))"
    using Cons.IH [OF stg] Cons.prems(2) by auto
  have "eflags (pool_edges f' ! e) = (if snd (A ! e) \<in> set (b # bs) \<and> length (in_idx A (snd (A ! e))) = 1
      then eflags (pool_edges f ! e) OR DOMINATES else eflags (pool_edges f ! e))" if "e < length A" for e
    using f'(5) fl that by (auto simp: or.assoc)
  then show ?case using step f' keep by auto
qed simp

lemma FindDominateEdges_spec:
  assumes "cfg_st f A n"
  shows "\<exists>f'. FindDominateEdges f = Inr f' \<and> cfg_st f' A n \<and> pool_blocks f' = pool_blocks f \<and>
              blocks_rpo f' = blocks_rpo f \<and>
              (\<forall>e < length A. eflags (pool_edges f' ! e) =
                 (if length (in_idx A (snd (A ! e))) = 1
                  then eflags (pool_edges f ! e) OR DOMINATES else eflags (pool_edges f ! e)))"
proof -
  have "snd (A ! e) < n" if "e < length A" for e
    using assms nth_mem [OF that] by (auto simp: cfg_st_def mem_Times_iff)
  then have "e < length A \<Longrightarrow> snd (A ! e) \<in> set [0..<n]" for e by simp
  moreover have "FindDominateEdges f = mark_edges f (map Some [0..<n])"
    using assms by (simp add: FindDominateEdges_def cfg_st_def)
  moreover have "set [0..<n] \<subseteq> {..<n}" by auto
  ultimately show ?thesis using mark_edges_spec [OF assms, of "[0..<n]"] by simp
qed

section \<open>Back edges\<close>

definition followed :: "(block_ptr \<times> block_ptr) list \<Rightarrow> u16 list \<Rightarrow> block_ptr \<Rightarrow> block_ptr list" where
  "followed A cs a = take (unat (cs ! a)) (succs_of A a)"

lemma followed_step:
  assumes "unat (cs ! a) < length (succs_of A a)" and "a < length cs" and "length A < 2 ^ 16"
  shows "followed A (cs[a := cs ! a + 1]) b =
         (if b = a then followed A cs a @ [succs_of A a ! unat (cs ! a)] else followed A cs b)"
    and "unat (cs ! a + 1) = Suc (unat (cs ! a))"
proof -
  show u: "unat (cs ! a + 1) = Suc (unat (cs ! a))"
    using unat_inc [OF assms(1)] length_succs [of A a] assms(3) by linarith
  show "followed A (cs[a := cs ! a + 1]) b =
      (if b = a then followed A cs a @ [succs_of A a ! unat (cs ! a)] else followed A cs b)"
    using assms u by (auto simp: followed_def take_Suc_conv_app_nth)
qed

text \<open>
  The search: the worklist is a path from the entry, the blocks on it are those marked as being
  visited, a block that has left it has no edge left to follow, and, on a reducible graph, the
  back edges recorded so far are the followed edges whose target dominates their source.
\<close>

definition search_inv :: "(block_ptr \<times> block_ptr) list \<Rightarrow> nat \<Rightarrow> back_state \<Rightarrow> bool" where
  "search_inv A n s \<longleftrightarrow>
     length (bs_visited s) = n \<and> length (bs_visiting s) = n \<and> length (bs_succ s) = n \<and>
     spath (set A) (bs_work s) \<and> distinct (bs_work s) \<and> set (bs_work s) \<subseteq> {..<n} \<and>
     bs_visited s ! 0 \<and>
     (\<forall>b < n. (bs_visiting s ! b \<longleftrightarrow> b \<in> set (bs_work s)) \<and>
        (bs_visiting s ! b \<longrightarrow> bs_visited s ! b) \<and>
        unat (bs_succ s ! b) \<le> length (succs_of A b) \<and>
        (bs_visited s ! b \<longrightarrow> bs_visiting s ! b \<or> unat (bs_succ s ! b) = length (succs_of A b)) \<and>
        (\<forall>c \<in> set (followed A (bs_succ s) b). bs_visited s ! c))"

definition back_recorded :: "(block_ptr \<times> block_ptr) list \<Rightarrow> nat \<Rightarrow> u16 list \<Rightarrow> HIRFunction \<Rightarrow> bool" where
  "back_recorded A n cs f \<longleftrightarrow>
     (\<forall>b < n. \<forall>a. count_list (back_of f b) a =
        (if dominates (set A) b a then count_list (followed A cs a) b else 0))"

definition back_inv :: "(block_ptr \<times> block_ptr) list \<Rightarrow> nat \<Rightarrow> back_state \<Rightarrow> bool" where
  "back_inv A n s \<longleftrightarrow> cfg_st (bs_fn s) A n \<and> search_inv A n s \<and>
     (reducible (set A) \<longrightarrow> back_recorded A n (bs_succ s) (bs_fn s))"

definition unvisited :: "bool list \<Rightarrow> nat" where
  "unvisited vs = length (filter Not vs)"

definition back_measure :: "(block_ptr \<times> block_ptr) list \<Rightarrow> nat \<Rightarrow> back_state \<Rightarrow> nat" where
  "back_measure A n s = rest A n (bs_succ s) + unvisited (bs_visited s) + length (bs_work s)"

lemma unvisited_set:
  "i < length vs \<Longrightarrow> \<not> vs ! i \<Longrightarrow> Suc (unvisited (vs[i := True])) = unvisited vs"
  unfolding unvisited_def
proof (induction vs arbitrary: i)
  case (Cons v vs)
  then show ?case by (cases i) auto
qed simp

lemma back_step_pop:
  assumes "back_inv A n s" and "bs_work s = c # W" and "unat (bs_succ s ! c) = length (succs_of A c)"
  shows "\<exists>s'. back_step s c = Inr s' \<and> back_inv A n s' \<and> back_measure A n s' < back_measure A n s \<and>
              doms (bs_fn s') = doms (bs_fn s) \<and> blocks_rpo (bs_fn s') = blocks_rpo (bs_fn s)"
proof -
  have st: "cfg_st (bs_fn s) A n" and inv: "search_inv A n s" using assms(1) by (simp_all add: back_inv_def)
  have c: "c < n" using inv assms(2) by (simp add: search_inv_def)
  let ?s = "s\<lparr>bs_visiting := (bs_visiting s)[c := False], bs_work := tl (bs_work s)\<rparr>"
  have "back_step s c = Inr ?s"
    using assms(3) c inv cfg_st_at [OF st c] by (simp add: back_step_def Let_def search_inv_def)
  moreover have "spath (set A) W" using inv assms(2) by (cases W) (simp_all add: search_inv_def)
  then have "search_inv A n ?s"
    using inv assms(2,3) by (auto simp: search_inv_def nth_list_update)
  ultimately show ?thesis
    using assms(1,2) by (auto simp: back_inv_def back_measure_def)
qed

lemma search_inv_fn:
  "search_inv A n (s\<lparr>bs_fn := f, bs_succ := cs\<rparr>) \<longleftrightarrow> search_inv A n (s\<lparr>bs_succ := cs\<rparr>)"
  by (simp add: search_inv_def)

lemma back_recorded_step:
  assumes "back_recorded A n cs f" and "unat (cs ! c) < length (succs_of A c)" and "c < length cs"
    and "length A < 2 ^ 16" and "b = succs_of A c ! unat (cs ! c)"
    and "back_of g = (if dominates (set A) b c then (back_of f)(b := back_of f b @ [c]) else back_of f)"
  shows "back_recorded A n (cs[c := cs ! c + 1]) g"
  using assms(1,5,6) followed_step(1) [OF assms(2-4)]
  by (auto simp: back_recorded_def)

lemma search_inv_follow:
  assumes inv: "search_inv A n s" and w: "bs_work s = c # W"
    and k: "unat (bs_succ s ! c) < length (succs_of A c)" and A: "length A < 2 ^ 16"
    and b: "b = succs_of A c ! unat (bs_succ s ! c)" and cs: "cs = (bs_succ s)[c := bs_succ s ! c + 1]"
    and bn: "b < n" and arc: "(c, b) \<in> set A"
  shows "bs_visited s ! b \<Longrightarrow> search_inv A n (s\<lparr>bs_succ := cs\<rparr>)"
    and "\<not> bs_visited s ! b \<Longrightarrow>
         search_inv A n (s\<lparr>bs_succ := cs, bs_visited := (bs_visited s)[b := True],
           bs_visiting := (bs_visiting s)[b := True], bs_work := b # bs_work s\<rparr>)"
proof -
  have c: "c < n" and len: "length (bs_succ s) = n" using inv w by (simp_all add: search_inv_def)
  have f: "followed A cs x = (if x = c then followed A (bs_succ s) c @ [b] else followed A (bs_succ s) x)"
      "unat (bs_succ s ! c + 1) = Suc (unat (bs_succ s ! c))" for x
    using followed_step [OF k _ A] c len b cs by simp_all
  have le: "unat (cs ! x) \<le> length (succs_of A x)" if "x < n" for x
    using inv that f(2) k c len by (auto simp: cs search_inv_def nth_list_update)
  have full: "x \<noteq> c \<Longrightarrow> cs ! x = bs_succ s ! x" for x by (simp add: cs)
  have visiting: "bs_visiting s ! c" "bs_visited s ! c" using inv w c by (auto simp: search_inv_def)
  have lcs: "length cs = n" using len cs by simp
  show "search_inv A n (s\<lparr>bs_succ := cs\<rparr>)" if "bs_visited s ! b"
    using inv that f(1) le full visiting lcs by (auto simp: search_inv_def)
  show "search_inv A n (s\<lparr>bs_succ := cs, bs_visited := (bs_visited s)[b := True],
      bs_visiting := (bs_visiting s)[b := True], bs_work := b # bs_work s\<rparr>)" if nb: "\<not> bs_visited s ! b"
  proof -
    have "b \<notin> set (bs_work s)" "b \<noteq> c" using inv nb bn visiting by (auto simp: search_inv_def)
    moreover have "spath (set A) (b # bs_work s)" using inv w arc by (simp add: search_inv_def)
    ultimately show ?thesis
      using inv f(1) le full visiting lcs bn w by (auto simp: search_inv_def nth_list_update)
  qed
qed

lemma back_step_follow:
  assumes "back_inv A n s" and w: "bs_work s = c # W" and ne: "unat (bs_succ s ! c) \<noteq> length (succs_of A c)"
  shows "\<exists>s'. back_step s c = Inr s' \<and> back_inv A n s' \<and> back_measure A n s' < back_measure A n s \<and>
              doms (bs_fn s') = doms (bs_fn s) \<and> blocks_rpo (bs_fn s') = blocks_rpo (bs_fn s)"
proof -
  have st: "cfg_st (bs_fn s) A n" and inv: "search_inv A n s" and A: "length A < 2 ^ 16"
    and rec: "reducible (set A) \<Longrightarrow> back_recorded A n (bs_succ s) (bs_fn s)"
    using assms(1) by (simp_all add: back_inv_def cfg_st_def)
  have c: "c < n" and len: "length (bs_succ s) = n" "length (bs_visited s) = n" "length (bs_visiting s) = n"
    and path: "spath (set A) (c # W)" "distinct (c # W)"
    using inv w by (simp_all add: search_inv_def)
  have k: "unat (bs_succ s ! c) < length (succs_of A c)"
    using inv c ne by (auto simp: search_inv_def le_less)
  define b where "b = succs_of A c ! unat (bs_succ s ! c)"
  define cs where "cs = (bs_succ s)[c := bs_succ s ! c + 1]"
  note succ = cfg_st_succ [OF st c k, folded b_def]
  have b: "b < n" and arc: "(c, b) \<in> set A" using succ by simp_all
  note follow = search_inv_follow [OF inv w k A b_def cs_def b arc]
  have less: "rest A n cs < rest A n (bs_succ s)"
    using rest_follow [OF c len(1) k A] by (simp add: cs_def)
  have rec1: "reducible (set A) \<Longrightarrow> back_recorded A n cs g"
    if "back_of g = (if dominates (set A) b c then (back_of (bs_fn s))(b := back_of (bs_fn s) b @ [c])
                     else back_of (bs_fn s))" for g
    using back_recorded_step [OF rec k _ A b_def that] c len(1) by (simp add: cs_def)
  have onW: "bs_visiting s ! b \<longleftrightarrow> b \<in> set (c # W)" using inv w b by (simp add: search_inv_def)
  have dom: "dominates (set A) b c \<Longrightarrow> bs_visiting s ! b"
      "reducible (set A) \<Longrightarrow> bs_visiting s ! b \<Longrightarrow> dominates (set A) b c"
    using spath_dominator [OF path(1)] reducible_back [OF _ path _ arc] onW by blast+
  note run = back_step_def Let_def ne len c b cfg_st_at [OF st c] cfg_st_at [OF st b]
    cs_def [symmetric] ContainsElement_def w vec_ptr_Some k b_def [symmetric]
  show ?thesis
  proof (cases "bs_visiting s ! b")
    case True
    obtain f' where f': "AddBackEdge (bs_fn s) b c = Inr f'" "cfg_st f' A n" "doms f' = doms (bs_fn s)"
        "back_of f' = (back_of (bs_fn s))(b := back_of (bs_fn s) b @ [c])" "blocks_rpo f' = blocks_rpo (bs_fn s)"
      using AddBackEdge_spec [OF st b] by blast
    have "back_step s c = Inr (s\<lparr>bs_fn := f', bs_succ := cs\<rparr>)"
      using True f'(1) onW by (simp add: run)
    moreover have "bs_visited s ! b" using inv True b by (simp add: search_inv_def)
    then have "search_inv A n (s\<lparr>bs_fn := f', bs_succ := cs\<rparr>)"
      using follow(1) by (simp add: search_inv_fn)
    ultimately show ?thesis
      using f' rec1 [of f'] dom(2) True less by (auto simp: back_inv_def back_measure_def)
  next
    case False
    then have nd: "\<not> dominates (set A) b c" using dom(1) by blast
    show ?thesis
    proof (cases "bs_visited s ! b")
      case True
      have "back_step s c = Inr (s\<lparr>bs_succ := cs\<rparr>)" using True False by (simp add: run)
      then show ?thesis
        using follow(1) [OF True] st rec1 [of "bs_fn s"] nd less by (auto simp: back_inv_def back_measure_def)
    next
      case nv: False
      let ?s = "s\<lparr>bs_succ := cs, bs_visited := (bs_visited s)[b := True],
        bs_visiting := (bs_visiting s)[b := True], bs_work := b # bs_work s\<rparr>"
      have "back_step s c = Inr ?s" using nv False by (simp add: run)
      moreover have "back_measure A n ?s < back_measure A n s"
        using less unvisited_set [of b "bs_visited s"] nv b len by (simp add: back_measure_def)
      ultimately show ?thesis
        using follow(2) [OF nv] st rec1 [of "bs_fn s"] nd by (auto simp: back_inv_def)
    qed
  qed
qed

lemma back_loop_inv:
  assumes "back_inv A n s" and "back_measure A n s \<le> m"
  shows "\<exists>s'. back_loop m s = Inr s' \<and> back_inv A n s' \<and> bs_work s' = [] \<and>
              doms (bs_fn s') = doms (bs_fn s) \<and> blocks_rpo (bs_fn s') = blocks_rpo (bs_fn s)"
  using assms
proof (induction m arbitrary: s)
  case 0
  then show ?case by (simp add: back_measure_def)
next
  case (Suc m)
  show ?case
  proof (cases "bs_work s")
    case Nil
    then show ?thesis using Suc.prems(1) by simp
  next
    case (Cons c W)
    obtain s1 where s1: "back_step s c = Inr s1" "back_inv A n s1" "back_measure A n s1 < back_measure A n s"
        "doms (bs_fn s1) = doms (bs_fn s)" "blocks_rpo (bs_fn s1) = blocks_rpo (bs_fn s)"
      using back_step_pop [OF Suc.prems(1) Cons] back_step_follow [OF Suc.prems(1) Cons] by blast
    then show ?thesis using Suc.IH [OF s1(2)] Suc.prems(2) Cons by simp
  qed
qed

lemma search_done:
  assumes "search_inv A n s" and "bs_work s = []" and "set A \<subseteq> {..<n} \<times> {..<n}"
    and "(0, b) \<in> (set A)\<^sup>*" and "0 < n"
  shows "b < n \<and> bs_visited s ! b \<and> followed A (bs_succ s) b = succs_of A b"
proof -
  have full: "bs_visited s ! x \<Longrightarrow> x < n \<Longrightarrow> followed A (bs_succ s) x = succs_of A x" for x
    using assms(1,2) by (auto simp: search_inv_def followed_def)
  have "b < n \<and> bs_visited s ! b"
    using assms(4)
  proof (induction rule: rtrancl_induct)
    case base
    then show ?case using assms(1,5) by (simp add: search_inv_def)
  next
    case (step x y)
    then have "y \<in> set (followed A (bs_succ s) x)" using full by (simp add: set_succs)
    then show ?case using step assms(1,3) by (auto simp: search_inv_def)
  qed
  then show ?thesis using full by blast
qed

lemma succs_of_outside: "set A \<subseteq> {..<n} \<times> {..<n} \<Longrightarrow> \<not> a < n \<Longrightarrow> succs_of A a = []"
  by (auto simp: succs_of_def filter_empty_conv)

text \<open>
  The search always ends.  On a reducible graph whose blocks are all reachable the recorded back
  edges are exactly the edges to a dominator of their source.
\<close>

lemma FindBackEdges_spec:
  assumes st: "cfg_st f A n" and none: "\<forall>b < n. back_of f b = []"
    and reach: "\<forall>b < n. (0, b) \<in> (set A)\<^sup>*"
  shows "\<exists>f' vs. FindBackEdges f (replicate n False) = Inr (f', vs) \<and> cfg_st f' A n \<and>
           doms f' = doms f \<and> blocks_rpo f' = blocks_rpo f \<and> vs = replicate n True \<and>
           (reducible (set A) \<longrightarrow> (\<forall>b < n. \<forall>a. count_list (back_of f' b) a =
              (if dominates (set A) b a then count_list A (a, b) else 0)))"
proof -
  have n: "0 < n" and A: "set A \<subseteq> {..<n} \<times> {..<n}" and mx: "unat (MaxBlockCount f) = n"
    and e: "vec_ptr (blocks f) 0 = Inr 0" and len: "length (pool_edges f) = length A" "nblocks f = n"
    using st by (auto simp: cfg_st_def MaxBlockCount_def unat_of_nat_small vec_ptr_def arcs_def)
  let ?vs = "(replicate n False)[0 := True]"
  let ?s = "\<lparr>bs_fn = f, bs_visited = ?vs, bs_visiting = ?vs, bs_succ = replicate n 0, bs_work = [0]\<rparr>"
  have run: "FindBackEdges f (replicate n False) =
      res_bind (back_loop (length A + n) ?s) (\<lambda>s. Inr (bs_fn s, bs_visited s))"
    using cfg_st_at [OF st n] n by (simp add: FindBackEdges_def mx e len)
  have "followed A (replicate n 0) a = []" for a
    using succs_of_outside [OF A, of a] by (cases "a < n") (simp_all add: followed_def)
  then have inv: "back_inv A n ?s"
    using st n none by (auto simp: back_inv_def search_inv_def back_recorded_def nth_list_update)
  have "Suc (unvisited ?vs) = n"
    using unvisited_set [of 0 "replicate n False"] n by (simp add: unvisited_def)
  then have "back_measure A n ?s \<le> length A + n" using rest_initial [OF A] by (simp add: back_measure_def)
  then obtain s' where s': "back_loop (length A + n) ?s = Inr s'" "back_inv A n s'" "bs_work s' = []"
      "doms (bs_fn s') = doms f" "blocks_rpo (bs_fn s') = blocks_rpo f"
    using back_loop_inv [OF inv] by auto
  have inv': "search_inv A n s'" using s'(2) by (simp add: back_inv_def)
  have fin: "bs_visited s' ! b \<and> followed A (bs_succ s') b = succs_of A b" if "b < n" for b
    using search_done [OF inv' s'(3) A _ n] reach that by blast
  have "bs_visited s' = replicate n True"
    using fin inv' by (intro nth_equalityI) (auto simp: search_inv_def)
  moreover have "count_list (followed A (bs_succ s') a) b = count_list A (a, b)" for a b
  proof (cases "a < n")
    case False
    then show ?thesis using count_succs [of A a b] succs_of_outside [OF A] by (simp add: followed_def)
  qed (simp add: fin count_succs)
  ultimately show ?thesis
    using run s' by (auto simp: back_inv_def back_recorded_def)
qed

end
