(* ===== verification/CFG_Dominance.thy ===== *)
theory CFG_Dominance
  imports CFG_BackEdges
begin

text \<open>
  The computation of dominators: one update, the edges into a block, the invariant of the
  worklist loop, and the correctness of the whole pass.
\<close>

section \<open>Dominators\<close>

subsection \<open>One update\<close>

lemma dchain_upd: "dchain D b xs \<Longrightarrow> v \<notin> set xs \<Longrightarrow> dchain (D(v := d)) b xs"
proof (induction xs arbitrary: b)
  case (Cons x xs)
  then show ?case by (auto split: option.splits)
qed simp

lemma dchain_same_set:
  assumes "dchain D x xs" and "dchain D y ys" and "set xs = set ys"
  shows "x = y"
proof -
  obtain xs' ys' where xy: "xs = x # xs'" "ys = y # ys'" using assms(1,2) dchain_hd by blast
  have "length xs = length ys"
    using assms dchain_distinct distinct_card by metis
  moreover have False if "x \<noteq> y"
  proof -
    have "x \<in> set ys'" using assms(3) xy that by auto
    then have "length xs \<le> length ys'" using dchain_member_length [of D y "[y]" ys' x xs] assms(1,2) xy by simp
    then show False using calculation xy by simp
  qed
  ultimately show ?thesis by blast
qed

lemma dchain_dominator:
  assumes "dchain D v xs" and "D v = Some d"
  obtains ys where "xs = v # ys" and "dchain D d ys" and "last xs = last ys" and "v \<notin> set ys"
proof -
  obtain ys where ys: "xs = v # ys" using dchain_hd [OF assms(1)] by blast
  then have "dchain D d ys" using assms by simp
  moreover have "ys \<noteq> []" using calculation by auto
  ultimately show thesis using that ys dchain_distinct [OF assms(1)] by simp
qed

lemma UpdateDominatorOfSuccessor_first:
  assumes st: "cfg_st f A n" and arc: "(c, v) \<in> set A" and d: "doms f v = None"
  shows "\<exists>f' t. UpdateDominatorOfSuccessor f c v = Inr (f', t) \<and> cfg_st f' A n \<and>
           doms f' = (doms f)(v := Some c) \<and> back_of f' = back_of f \<and> blocks_rpo f' = blocks_rpo f"
proof -
  have r: "c < n" "v < n" using st arc by (auto simp: cfg_st_def)
  have s: "successors (pool_blocks f ! c) = map Some (succs_of A c)" by (rule cfg_st_at(3) [OF st r(1)])
  have m: "Some v \<in> set (map Some (succs_of A c))" using arc set_succs [of v A c] by auto
  then have "succs_of A c \<noteq> []" by auto
  moreover obtain f' where "upd_block f v (dominator_update (\<lambda>_. Some c)) = Inr f'" "cfg_st f' A n"
      "doms f' = (doms f)(v := Some c)" "back_of f' = back_of f" "blocks_rpo f' = blocks_rpo f"
    using SetDominator_spec [OF st r(2)] by blast
  ultimately show ?thesis
    using m d cfg_st_at(1) [OF st r(1)] cfg_st_at(1) [OF st r(2)] s
    by (auto simp: UpdateDominatorOfSuccessor_def ContainsElement_def doms_def)
qed

lemma UpdateDominatorOfSuccessor_next:
  assumes st: "cfg_st f A n" and arc: "(c, v) \<in> set A" and d: "doms f v = Some old"
    and ch: "dchain (doms f) old os" "dchain (doms f) c xs" "last os = last xs"
    and ran: "in_range n (doms f)"
  shows "\<exists>f' t z zs. UpdateDominatorOfSuccessor f c v = Inr (f', t) \<and> cfg_st f' A n \<and>
           doms f' = (doms f)(v := Some z) \<and> back_of f' = back_of f \<and> blocks_rpo f' = blocks_rpo f \<and>
           dchain (doms f) z zs \<and> set zs = set os \<inter> set xs"
proof -
  have r: "c < n" "v < n" "old < n" "nblocks f = n"
    using st arc ran d by (auto simp: cfg_st_def in_range_def)
  obtain z zs where z: "ForPair f old c = Inr z" "dchain (doms f) z zs" "set zs = set os \<inter> set xs"
    using ForPair_common [OF ch] ran r by auto
  have s: "successors (pool_blocks f ! c) = map Some (succs_of A c)" by (rule cfg_st_at(3) [OF st r(1)])
  have m: "Some v \<in> set (map Some (succs_of A c))" using arc set_succs [of v A c] by auto
  then have ne: "succs_of A c \<noteq> []" by auto
  obtain f' where f': "upd_block f v (dominator_update (\<lambda>_. Some z)) = Inr f'" "cfg_st f' A n"
      "doms f' = (doms f)(v := Some z)" "back_of f' = back_of f" "blocks_rpo f' = blocks_rpo f"
    using SetDominator_spec [OF st r(2)] by blast
  have dv: "dominator (pool_blocks f ! v) = Some old" using d by (simp add: doms_def)
  show ?thesis
  proof (cases "z = old")
    case True
    then have "UpdateDominatorOfSuccessor f c v = Inr (f, False)"
      using m ne dv z(1) cfg_st_at(1) [OF st r(1)] cfg_st_at(1) [OF st r(2)] s
      by (simp add: UpdateDominatorOfSuccessor_def ContainsElement_def)
    moreover have "doms f = (doms f)(v := Some z)" using True d by auto
    ultimately show ?thesis using st z by blast
  next
    case False
    then have "UpdateDominatorOfSuccessor f c v = Inr (f', True)"
      using m ne dv z(1) f'(1) cfg_st_at(1) [OF st r(1)] cfg_st_at(1) [OF st r(2)] s
      by (simp add: UpdateDominatorOfSuccessor_def ContainsElement_def)
    then show ?thesis using f' z by blast
  qed
qed

subsection \<open>Counting the edges into a block\<close>

definition seen :: "(block_ptr \<times> block_ptr) list \<Rightarrow> nat \<Rightarrow> u16 list \<Rightarrow> block_ptr \<Rightarrow> nat" where
  "seen A n cs v = (\<Sum>a<n. count_list (followed A cs a) v)"

definition forward_in :: "(block_ptr \<times> block_ptr) list \<Rightarrow> nat \<Rightarrow> block_ptr \<Rightarrow> nat" where
  "forward_in A n v = (\<Sum>a<n. if dominates (set A) v a then 0 else count_list A (a, v))"

definition pending :: "(block_ptr \<times> block_ptr) list \<Rightarrow> u16 list \<Rightarrow> block_ptr \<Rightarrow> block_ptr \<Rightarrow> bool" where
  "pending A cs a v \<longleftrightarrow> \<not> dominates (set A) v a \<and> v \<in> set (drop (unat (cs ! a)) (succs_of A a))"

lemma forward_in_edges:
  assumes "set A \<subseteq> {..<n} \<times> {..<n}"
    and "\<forall>a. count_list B a = (if dominates (set A) v a then count_list A (a, v) else 0)"
  shows "length (preds_of A v) = length B + forward_in A n v"
proof -
  have "set (preds_of A v) \<subseteq> {..<n}" using assms(1) by (auto simp: set_preds)
  then have p: "length (preds_of A v) = (\<Sum>a<n. count_list A (a, v))"
    by (simp add: sum_count_set [symmetric] count_preds)
  have "a \<in> set B \<Longrightarrow> (a, v) \<in> set A" for a
    using assms(2) by (metis count_list_0_iff)
  then have "set B \<subseteq> {..<n}" using assms(1) by auto
  then have "length B = (\<Sum>a<n. count_list B a)" by (simp add: sum_count_set)
  then show ?thesis
    using p assms(2) unfolding forward_in_def
    by (simp add: sum.distrib [symmetric]) (intro sum.cong; simp)
qed

lemma followed_drop: "count_list A (a, v) =
    count_list (followed A cs a) v + count_list (drop (unat (cs ! a)) (succs_of A a)) v"
  unfolding followed_def count_succs [symmetric]
  by (metis append_take_drop_id count_list_append)

lemma seen_unpushed:
  assumes "\<And>a. a < n \<Longrightarrow> v \<in> set (followed A cs a) \<Longrightarrow> \<not> dominates (set A) v a"
  shows "seen A n cs v = forward_in A n v \<longleftrightarrow> (\<forall>a < n. \<not> pending A cs a v)"
proof -
  have s: "seen A n cs v = (\<Sum>a<n. if dominates (set A) v a then 0 else count_list (followed A cs a) v)"
    unfolding seen_def using assms by (intro sum.cong) (auto simp: count_list_0_iff)
  have "forward_in A n v = seen A n cs v +
      (\<Sum>a<n. if dominates (set A) v a then 0 else count_list (drop (unat (cs ! a)) (succs_of A a)) v)"
    unfolding s forward_in_def followed_drop [of A _ v cs]
    by (simp add: sum.distrib [symmetric]) (intro sum.cong; simp)
  then show ?thesis by (auto simp: pending_def count_list_0_iff)
qed

lemma seen_pushed:
  assumes "\<forall>a < n. \<not> pending A cs a v"
  shows "forward_in A n v \<le> seen A n cs v"
  unfolding forward_in_def seen_def
  using assms followed_drop [of A _ v cs]
  by (intro sum_mono) (auto simp: pending_def count_list_0_iff)

lemma seen_le:
  assumes "set A \<subseteq> {..<n} \<times> {..<n}"
  shows "seen A n cs v \<le> length A"
proof -
  have "set (preds_of A v) \<subseteq> {..<n}" using assms by (auto simp: set_preds)
  then have "length (preds_of A v) = (\<Sum>a<n. count_list A (a, v))"
    by (simp add: sum_count_set [symmetric] count_preds)
  moreover have "seen A n cs v \<le> (\<Sum>a<n. count_list A (a, v))"
    unfolding seen_def using followed_drop [of A _ v cs] by (intro sum_mono) simp
  ultimately show ?thesis using length_filter_le [of "\<lambda>e. snd e = v" A] by (simp add: preds_of_def)
qed

lemma seen_step:
  assumes "unat (cs ! c) < length (succs_of A c)" and "c < length cs" and "length A < 2 ^ 16" and "c < n"
    and "b = succs_of A c ! unat (cs ! c)"
  shows "seen A n (cs[c := cs ! c + 1]) v = seen A n cs v + (if v = b then 1 else 0)"
proof -
  have "seen A n (cs[c := cs ! c + 1]) v =
      (\<Sum>a<n. count_list (followed A cs a) v + (if a = c then (if v = b then 1 else 0) else 0))"
    unfolding seen_def followed_step(1) [OF assms(1-3)] using assms(5) by (intro sum.cong) auto
  then show ?thesis using assms(4) by (simp add: sum.distrib seen_def)
qed

lemma pending_step:
  assumes "unat (cs ! c) < length (succs_of A c)" and "c < length cs" and "length A < 2 ^ 16"
    and "b = succs_of A c ! unat (cs ! c)"
  shows "v \<noteq> b \<or> dominates (set A) b c \<Longrightarrow> pending A (cs[c := cs ! c + 1]) a v = pending A cs a v"
proof -
  have "drop (unat (cs ! c)) (succs_of A c) = b # drop (unat (cs ! c + 1)) (succs_of A c)"
    using assms followed_step(2) [OF assms(1-3)] by (simp add: Cons_nth_drop_Suc)
  then show "v \<noteq> b \<or> dominates (set A) b c \<Longrightarrow> ?thesis"
    using assms(2) by (cases "a = c") (auto simp: pending_def)
qed

lemma visits_test:
  assumes "seen A n cs v + 1 \<le> length A" and "unat (k :: u16) = seen A n cs v" and "length A < 2 ^ 16"
    and "p = length bs + forward_in A n v" and "p \<le> length A"
  shows "(ucast (k + 1) :: size_t) = of_nat p - of_nat (length bs) \<longleftrightarrow> Suc (seen A n cs v) = forward_in A n v"
    and "unat (k + 1) = Suc (seen A n cs v)"
proof -
  show u: "unat (k + 1) = Suc (seen A n cs v)" using unat_inc [of k "length A"] assms(1-3) by simp
  have "unat (ucast (k + 1) :: size_t) = unat (k + 1)"
    using u assms(1,3) by (intro unat_ucast_small) simp
  also have "\<dots> = unat (of_nat (Suc (seen A n cs v)) :: size_t)"
    unfolding u using assms(1,3) by (intro unat_of_nat_small [symmetric]) simp
  finally have "(ucast (k + 1) :: size_t) = of_nat (Suc (seen A n cs v))" by (rule unsigned_word_eqI)
  moreover have "(of_nat p :: size_t) - of_nat (length bs) = of_nat (forward_in A n v)" using assms(4) by simp
  ultimately show "(ucast (k + 1) :: size_t) = of_nat p - of_nat (length bs) \<longleftrightarrow>
      Suc (seen A n cs v) = forward_in A n v"
    using assms by (simp only:) (intro of_nat_eq_small; simp)
qed

subsection \<open>The invariant of the computation\<close>

text \<open>
  \<open>R\<close> is the list of blocks pushed so far, the entry first: a block is pushed when no forward
  edge into it is left to be followed, so after the sources of these edges, and it is reached
  from the entry through pushed blocks.
\<close>

definition push_inv ::
  "(block_ptr \<times> block_ptr) list \<Rightarrow> nat \<Rightarrow> u16 list \<Rightarrow> block_ptr list \<Rightarrow> block_ptr list \<Rightarrow> bool" where
  "push_inv A n cs W R \<longleftrightarrow>
     distinct R \<and> set R \<subseteq> {..<n} \<and> set W \<subseteq> set R \<and> 0 \<in> set R \<and>
     (\<forall>a < n. unat (cs ! a) \<le> length (succs_of A a) \<and> (a \<notin> set R \<longrightarrow> cs ! a = 0) \<and>
        (a \<in> set R \<longrightarrow> a \<notin> set W \<longrightarrow> unat (cs ! a) = length (succs_of A a))) \<and>
     (\<forall>v < n. v \<noteq> 0 \<longrightarrow> (v \<in> set R \<longleftrightarrow> (\<forall>a < n. \<not> pending A cs a v))) \<and>
     (\<forall>v \<in> set R. ra (set A) (- set R) v) \<and>
     (\<forall>i < length R. \<forall>a. (a, R ! i) \<in> set A \<longrightarrow> \<not> dominates (set A) (R ! i) a \<longrightarrow> a \<in> set (take i R))"

text \<open>
  \<open>D\<close> is the tree of dominators: the chain of a pushed block consists of its dominators, that of
  any other block of the common dominators of the sources of the edges followed so far.
\<close>

definition partial_chain ::
  "(block_ptr \<times> block_ptr) list \<Rightarrow> nat \<Rightarrow> u16 list \<Rightarrow> block_ptr set \<Rightarrow> (block_ptr \<Rightarrow> block_ptr option) \<Rightarrow>
   block_ptr \<Rightarrow> bool" where
  "partial_chain A n cs P D v \<longleftrightarrow>
     (case D v of
        None \<Rightarrow> (\<forall>a < n. v \<notin> set (followed A cs a))
      | Some d \<Rightarrow> \<exists>xs. dchain D d xs \<and> last xs = 0 \<and> set xs \<subseteq> P \<and>
          set xs = {x. \<forall>a < n. v \<in> set (followed A cs a) \<longrightarrow> dominates (set A) x a})"

definition tree_inv ::
  "(block_ptr \<times> block_ptr) list \<Rightarrow> nat \<Rightarrow> u16 list \<Rightarrow> block_ptr set \<Rightarrow> (block_ptr \<Rightarrow> block_ptr option) \<Rightarrow> bool" where
  "tree_inv A n cs P D \<longleftrightarrow>
     in_range n D \<and>
     (\<forall>v \<in> P. \<exists>xs. dchain D v xs \<and> last xs = 0 \<and> set xs = {d. dominates (set A) d v}) \<and>
     (\<forall>v < n. v \<notin> P \<longrightarrow> partial_chain A n cs P D v)"

lemma partial_chain_cong:
  "\<forall>a < n. v \<in> set (followed A cs' a) \<longleftrightarrow> v \<in> set (followed A cs a) \<Longrightarrow>
   partial_chain A n cs' P D v = partial_chain A n cs P D v"
  unfolding partial_chain_def by (cases "D v") simp_all

lemma partial_chain_mono: "partial_chain A n cs P D v \<Longrightarrow> P \<subseteq> Q \<Longrightarrow> partial_chain A n cs Q D v"
  unfolding partial_chain_def by (cases "D v") (simp, simp, meson order_trans)

lemma push_dominator:
  assumes "push_inv A n cs W R" and "u \<in> set R" and "dominates (set A) d u"
  shows "d \<in> set R"
proof (rule ccontr)
  assume "d \<notin> set R"
  then have "{d} \<subseteq> - set R" by simp
  moreover have "ra (set A) (- set R) u" using assms(1,2) by (simp add: push_inv_def)
  ultimately show False using assms(3) ra_mono unfolding dominates_def by blast
qed

lemma push_followed:
  assumes "push_inv A n cs W R" and "a < n" and "v \<in> set (followed A cs a)"
  shows "a \<in> set R"
  using assms by (cases "a \<in> set R") (auto simp: push_inv_def followed_def)

lemma tree_update:
  assumes tree: "tree_inv A n cs P D" and v: "v < n" "v \<notin> P" and closed: "\<forall>u \<in> P. \<forall>d. dominates (set A) d u \<longrightarrow> d \<in> P"
    and z: "dchain D z zs" "last zs = 0" "set zs \<subseteq> P" "z < n"
      "set zs = {x. \<forall>a < n. v \<in> set (followed A cs' a) \<longrightarrow> dominates (set A) x a}"
    and other: "\<forall>a < n. \<forall>w. w \<noteq> v \<longrightarrow> (w \<in> set (followed A cs' a) \<longleftrightarrow> w \<in> set (followed A cs a))"
  shows "tree_inv A n cs' P (D(v := Some z))"
proof -
  let ?D = "D(v := Some z)"
  have keep: "dchain D x xs \<Longrightarrow> set xs \<subseteq> P \<Longrightarrow> dchain ?D x xs" for x xs
    using v(2) by (intro dchain_upd) auto
  have "in_range n ?D" using tree z(4) by (auto simp: tree_inv_def in_range_def)
  moreover have "\<exists>xs. dchain ?D u xs \<and> last xs = 0 \<and> set xs = {d. dominates (set A) d u}" if u: "u \<in> P" for u
  proof -
    obtain xs where xs: "dchain D u xs" "last xs = 0" "set xs = {d. dominates (set A) d u}"
      using tree u by (auto simp: tree_inv_def)
    then have "set xs \<subseteq> P" using closed u by auto
    then show ?thesis using keep xs by blast
  qed
  moreover have "partial_chain A n cs' P ?D w" if w: "w < n" "w \<notin> P" for w
  proof (cases "w = v")
    case True
    then show ?thesis using keep [OF z(1,3)] z by (auto simp: partial_chain_def)
  next
    case False
    then have "partial_chain A n cs' P D w"
      using partial_chain_cong [of n w A cs' cs P D] other tree w by (simp add: tree_inv_def)
    moreover have "?D w = D w" using False by simp
    ultimately show ?thesis using keep unfolding partial_chain_def by (cases "D w") (simp_all, blast)
  qed
  ultimately show ?thesis by (simp add: tree_inv_def)
qed

lemma tree_push:
  assumes tree: "tree_inv A n cs P D" and v: "v < n" "v \<notin> P" "v \<noteq> 0" and reach: "(0, v) \<in> (set A)\<^sup>*"
    and fwd: "\<forall>a < n. (a, v) \<in> set A \<and> \<not> dominates (set A) v a \<longleftrightarrow> v \<in> set (followed A cs a)"
    and A: "set A \<subseteq> {..<n} \<times> {..<n}"
  shows "tree_inv A n cs (insert v P) D"
proof -
  obtain u where u: "(u, v) \<in> set A" "\<not> dominates (set A) v u" using forward_pred [OF v(3) reach] by blast
  then have un: "u < n" "v \<in> set (followed A cs u)" using A fwd by auto
  have pc: "partial_chain A n cs P D v" using tree v(1,2) by (simp add: tree_inv_def)
  then obtain d where dv: "D v = Some d" using un by (cases "D v") (auto simp: partial_chain_def)
  obtain xs where d: "dchain D d xs" "last xs = 0"
      "set xs = {x. \<forall>a < n. v \<in> set (followed A cs a) \<longrightarrow> dominates (set A) x a}"
    using pc dv by (auto simp: partial_chain_def)
  have "set (v # xs) = {d. dominates (set A) d v}"
  proof -
    have "dominates (set A) x v" if "x \<in> set xs" for x
      using dominates_from_preds [OF v(3), of "set A" x] that A fwd unfolding d(3) by fastforce
    moreover have "x \<in> set xs" if "dominates (set A) x v" "x \<noteq> v" for x
      using dominates_pred [OF that] fwd unfolding d(3) by blast
    ultimately show ?thesis using dominates_refl by auto
  qed
  moreover have "dchain D v (v # xs)" "last (v # xs) = 0" using d(1,2) dv by auto
  ultimately have "\<exists>xs. dchain D v xs \<and> last xs = 0 \<and> set xs = {d. dominates (set A) d v}" by blast
  moreover have "partial_chain A n cs (insert v P) D w" if "partial_chain A n cs P D w" for w
    using that by (rule partial_chain_mono) auto
  ultimately show ?thesis using tree by (auto simp: tree_inv_def)
qed

lemma tree_followed:
  assumes "tree_inv A n cs P D"
    and "\<forall>a < n. \<forall>w. w \<notin> P \<longrightarrow> (w \<in> set (followed A cs' a) \<longleftrightarrow> w \<in> set (followed A cs a))"
  shows "tree_inv A n cs' P D"
proof -
  have "partial_chain A n cs' P D w = partial_chain A n cs P D w" if "w \<notin> P" for w
    using assms(2) that by (intro partial_chain_cong) blast
  then show ?thesis using assms(1) by (simp add: tree_inv_def)
qed

definition dom_inv :: "(block_ptr \<times> block_ptr) list \<Rightarrow> nat \<Rightarrow> dom_state \<Rightarrow> bool" where
  "dom_inv A n s \<longleftrightarrow>
     cfg_st (ds_fn s) A n \<and> length (ds_visits s) = n \<and> length (ds_succ s) = n \<and>
     (\<forall>b < n. \<forall>a. count_list (back_of (ds_fn s) b) a =
        (if dominates (set A) b a then count_list A (a, b) else 0)) \<and>
     (\<forall>v < n. unat (ds_visits s ! v) = seen A n (ds_succ s) v) \<and>
     push_inv A n (ds_succ s) (ds_work s) (0 # blocks_rpo (ds_fn s)) \<and>
     tree_inv A n (ds_succ s) (set (0 # blocks_rpo (ds_fn s))) (doms (ds_fn s))"

definition dom_measure :: "(block_ptr \<times> block_ptr) list \<Rightarrow> nat \<Rightarrow> dom_state \<Rightarrow> nat" where
  "dom_measure A n s = 2 * rest A n (ds_succ s) + length (ds_work s)"

text \<open>The graphs for which the computation is correct, and on which the invariant rests.\<close>

definition rooted :: "(block_ptr \<times> block_ptr) list \<Rightarrow> nat \<Rightarrow> bool" where
  "rooted A n \<longleftrightarrow> (\<forall>b < n. (0, b) \<in> (set A)\<^sup>*) \<and> (\<forall>a. (a, 0) \<notin> set A)"

lemma push_inv_pop:
  "push_inv A n cs (c # W) R \<Longrightarrow> unat (cs ! c) = length (succs_of A c) \<Longrightarrow> push_inv A n cs W R"
  by (auto simp: push_inv_def)

lemma dom_step_pop:
  assumes "dom_inv A n s" and w: "ds_work s = c # W" and "unat (ds_succ s ! c) = length (succs_of A c)"
  shows "\<exists>s'. dom_step s c = Inr s' \<and> dom_inv A n s' \<and> dom_measure A n s' < dom_measure A n s"
proof -
  have st: "cfg_st (ds_fn s) A n" and p: "push_inv A n (ds_succ s) (ds_work s) (0 # blocks_rpo (ds_fn s))"
    and len: "length (ds_succ s) = n"
    using assms(1) by (simp_all add: dom_inv_def)
  have c: "c < n" using p w by (auto simp: push_inv_def)
  have "dom_step s c = Inr (s\<lparr>ds_work := W\<rparr>)"
    using assms(3) c len w cfg_st_at [OF st c] by (simp add: dom_step_def)
  moreover have "push_inv A n (ds_succ s) W (0 # blocks_rpo (ds_fn s))"
    using push_inv_pop p w assms(3) by metis
  ultimately show ?thesis using assms(1) w by (auto simp: dom_inv_def dom_measure_def)
qed

text \<open>What one followed edge \<open>(c, v)\<close> does to the dominators.\<close>

lemma update_on_edge:
  assumes st: "cfg_st f A n" and p: "push_inv A n cs W R" and tree: "tree_inv A n cs (set R) (doms f)"
    and arc: "(c, v) \<in> set A" "v \<noteq> 0" and c: "c \<in> set R"
    and cs': "\<forall>a < n. \<forall>w. w \<in> set (followed A cs' a) \<longleftrightarrow> w \<in> set (followed A cs a) \<or> a = c \<and> w = v"
    and bk: "v \<in> set R \<Longrightarrow> dominates (set A) v c"
  shows "\<exists>f' t. UpdateDominatorOfSuccessor f c v = Inr (f', t) \<and> cfg_st f' A n \<and> back_of f' = back_of f \<and>
           blocks_rpo f' = blocks_rpo f \<and> tree_inv A n cs' (set R) (doms f')"
proof -
  have n: "c < n" "v < n" using st arc by (auto simp: cfg_st_def)
  have ran: "in_range n (doms f)" using tree by (simp add: tree_inv_def)
  have closed: "\<forall>u \<in> set R. \<forall>d. dominates (set A) d u \<longrightarrow> d \<in> set R" using push_dominator [OF p] by blast
  obtain xs where xs: "dchain (doms f) c xs" "last xs = 0" "set xs = {d. dominates (set A) d c}"
    using tree c by (auto simp: tree_inv_def)
  have other: "\<forall>a < n. \<forall>w. w \<noteq> v \<longrightarrow> (w \<in> set (followed A cs' a) \<longleftrightarrow> w \<in> set (followed A cs a))"
    using cs' by auto
  show ?thesis
  proof (cases "v \<in> set R")
    case True
    obtain vs where vs: "dchain (doms f) v vs" "last vs = 0" "set vs = {d. dominates (set A) d v}"
      using tree True by (auto simp: tree_inv_def)
    have "doms f v \<noteq> None" using vs(1,2) arc(2) dchain_hd [OF vs(1)] by (cases "doms f v") auto
    then obtain old where old: "doms f v = Some old" by blast
    obtain os where os: "vs = v # os" "dchain (doms f) old os" "last vs = last os"
      using dchain_dominator [OF vs(1) old] by metis
    have "last os = last xs" using os(3) vs(2) xs(2) by simp
    from UpdateDominatorOfSuccessor_next [OF st arc(1) old os(2) xs(1) this ran]
    obtain f' t z zs where u: "UpdateDominatorOfSuccessor f c v = Inr (f', t)" "cfg_st f' A n"
        "doms f' = (doms f)(v := Some z)" "back_of f' = back_of f" "blocks_rpo f' = blocks_rpo f"
        "dchain (doms f) z zs" "set zs = set os \<inter> set xs" by blast
    have "set os \<subseteq> set xs"
      using vs(3) os(1) xs(3) dominates_trans [OF _ bk [OF True]] by auto
    then have "z = old" using dchain_same_set [OF u(6) os(2)] u(7) by blast
    then have "doms f' = doms f" using u(3) old by auto
    moreover have "tree_inv A n cs' (set R) (doms f)"
      using tree_followed [OF tree] cs' True by blast
    ultimately show ?thesis using u by auto
  next
    case False
    have pc: "partial_chain A n cs (set R) (doms f) v" using tree n(2) False by (simp add: tree_inv_def)
    show ?thesis
    proof (cases "doms f v")
      case None
      from UpdateDominatorOfSuccessor_first [OF st arc(1) None]
      obtain f' t where u: "UpdateDominatorOfSuccessor f c v = Inr (f', t)" "cfg_st f' A n"
          "doms f' = (doms f)(v := Some c)" "back_of f' = back_of f" "blocks_rpo f' = blocks_rpo f" by blast
      have "a < n \<Longrightarrow> v \<in> set (followed A cs' a) \<longleftrightarrow> a = c" for a
        using cs' pc None by (auto simp: partial_chain_def)
      then have "set xs = {x. \<forall>a < n. v \<in> set (followed A cs' a) \<longrightarrow> dominates (set A) x a}"
        using xs(3) n(1) by auto
      moreover have "set xs \<subseteq> set R" using xs(3) closed c by auto
      ultimately have "tree_inv A n cs' (set R) (doms f')"
        unfolding u(3) using tree_update [OF tree n(2) False closed xs(1,2) _ n(1) _ other] by blast
      then show ?thesis using u by blast
    next
      case (Some old)
      obtain os where os: "dchain (doms f) old os" "last os = 0" "set os \<subseteq> set R"
          "set os = {x. \<forall>a < n. v \<in> set (followed A cs a) \<longrightarrow> dominates (set A) x a}"
        using pc Some by (auto simp: partial_chain_def)
      have "last os = last xs" using os(2) xs(2) by simp
      from UpdateDominatorOfSuccessor_next [OF st arc(1) Some os(1) xs(1) this ran]
      obtain f' t z zs where u: "UpdateDominatorOfSuccessor f c v = Inr (f', t)" "cfg_st f' A n"
          "doms f' = (doms f)(v := Some z)" "back_of f' = back_of f" "blocks_rpo f' = blocks_rpo f"
          "dchain (doms f) z zs" "set zs = set os \<inter> set xs" by blast
      have z: "z \<in> set zs" using dchain_hd [OF u(6)] by auto
      have "set zs \<subseteq> set R" using u(7) os(3) by auto
      moreover have "z < n" using z calculation p by (auto simp: push_inv_def)
      moreover have "set zs = {x. \<forall>a < n. v \<in> set (followed A cs' a) \<longrightarrow> dominates (set A) x a}"
        using u(7) os(4) xs(3) cs' n(1) by auto
      moreover have "last zs = 0"
      proof -
        have "z \<in> set os" using z u(7) by auto
        then obtain as bs where ob: "os = as @ z # bs" "dchain (doms f) z (z # bs)"
          using dchain_member [OF os(1)] by metis
        then have "zs = z # bs" using dchain_unique [OF u(6)] by blast
        then show ?thesis using ob(1) os(2) by simp
      qed
      ultimately have "tree_inv A n cs' (set R) (doms f')"
        unfolding u(3) using tree_update [OF tree n(2) False closed u(6) _ _ _ _ other] by blast
      then show ?thesis using u by blast
    qed
  qed
qed

lemma followed_pending:
  "(a, v) \<in> set A \<and> \<not> dominates (set A) v a \<longleftrightarrow>
   pending A cs a v \<or> v \<in> set (followed A cs a) \<and> \<not> dominates (set A) v a"
proof -
  have "set (succs_of A a) = set (followed A cs a) \<union> set (drop (unat (cs ! a)) (succs_of A a))"
    unfolding followed_def by (metis append_take_drop_id set_append)
  then show ?thesis using set_succs [of v A a] by (auto simp: pending_def)
qed

lemma push_inv_follow:
  assumes p: "push_inv A n cs W R" and c: "c \<in> set W" and k: "unat (cs ! c) < length (succs_of A c)"
    and A: "length A < 2 ^ 16" and len: "length cs = n"
    and v: "v = succs_of A c ! unat (cs ! c)" "v \<noteq> 0" "v < n" and cs': "cs' = cs[c := cs ! c + 1]"
    and ran: "set A \<subseteq> {..<n} \<times> {..<n}"
  shows "v \<in> set R \<or> (\<exists>a < n. pending A cs' a v) \<Longrightarrow> push_inv A n cs' W R"
    and "v \<notin> set R \<Longrightarrow> \<forall>a < n. \<not> pending A cs' a v \<Longrightarrow> push_inv A n cs' (v # W) (R @ [v])"
proof -
  have cR: "c \<in> set R" "c < n" using p c by (auto simp: push_inv_def)
  have inc: "unat (cs ! c + 1) = Suc (unat (cs ! c))" using followed_step(2) [OF k _ A] cR len by simp
  have cnt: "unat (cs' ! a) \<le> length (succs_of A a) \<and> (a \<notin> set R \<longrightarrow> cs' ! a = 0) \<and>
      (a \<in> set R \<longrightarrow> a \<notin> set W \<longrightarrow> unat (cs' ! a) = length (succs_of A a))" if "a < n" for a
    using p that k c cR inc len unfolding push_inv_def cs' by (cases "a = c") auto
  have other: "pending A cs' a w = pending A cs a w" if "w \<noteq> v" for a w
    using pending_step [OF k _ A v(1)] cR len that unfolding cs' by blast
  have sub: "pending A cs' a w \<Longrightarrow> pending A cs a w" for a w
    using inc cR len set_drop_subset_set_drop [of "unat (cs ! c)" "unat (cs ! c + 1)" "succs_of A c"]
    unfolding cs' by (cases "a = c") (auto simp: pending_def)
  have path: "ra (set A) (- set (R @ [v])) w" if "w \<in> set (R @ [v])" for w
  proof -
    have r: "u \<in> set R \<Longrightarrow> ra (set A) (- set (R @ [v])) u" for u
      using p ra_mono [of "set A" "- set R" u "- set (R @ [v])"] by (auto simp: push_inv_def)
    moreover have "(c, v) \<in> set A" using k v(1) set_succs nth_mem by metis
    ultimately show ?thesis using that ra.step [OF r [OF cR(1)]] by auto
  qed
  show "push_inv A n cs' W R" if "v \<in> set R \<or> (\<exists>a < n. pending A cs' a v)"
  proof -
    have "w \<in> set R \<longleftrightarrow> (\<forall>a < n. \<not> pending A cs' a w)" if "w < n" "w \<noteq> 0" for w
      using p other sub that \<open>v \<in> set R \<or> (\<exists>a < n. pending A cs' a v)\<close>
      by (cases "w = v") (auto simp: push_inv_def)
    then show ?thesis using p cnt by (simp add: push_inv_def)
  qed
  show "push_inv A n cs' (v # W) (R @ [v])" if nv: "v \<notin> set R" and np: "\<forall>a < n. \<not> pending A cs' a v"
  proof -
    have "a < n \<Longrightarrow> unat (cs' ! a) \<le> length (succs_of A a) \<and> (a \<notin> set (R @ [v]) \<longrightarrow> cs' ! a = 0) \<and>
      (a \<in> set (R @ [v]) \<longrightarrow> a \<notin> set (v # W) \<longrightarrow> unat (cs' ! a) = length (succs_of A a))" for a
      using cnt by auto
    moreover have "w \<in> set (R @ [v]) \<longleftrightarrow> (\<forall>a < n. \<not> pending A cs' a w)" if "w < n" "w \<noteq> 0" for w
      using p other np that by (cases "w = v") (auto simp: push_inv_def)
    moreover have "distinct (R @ [v])" "set (R @ [v]) \<subseteq> {..<n}" "set (v # W) \<subseteq> set (R @ [v])" "0 \<in> set (R @ [v])"
      using p nv v(3) by (auto simp: push_inv_def)
    moreover have "a \<in> set R" if a: "(a, v) \<in> set A" "\<not> dominates (set A) v a" for a
    proof -
      have an: "a < n" using a(1) ran by auto
      then have "v \<in> set (followed A cs' a)" using followed_pending [of a v A cs'] a np by blast
      then have "a = c \<or> v \<in> set (followed A cs a)" using followed_step(1) [OF k _ A, of a] cR len cs'
        by (auto split: if_splits)
      then show ?thesis using push_followed [OF p an] cR by blast
    qed
    then have "a \<in> set (take i (R @ [v]))"
      if "i < length (R @ [v])" "(a, (R @ [v]) ! i) \<in> set A" "\<not> dominates (set A) ((R @ [v]) ! i) a" for a i
      using p that by (cases "i < length R") (auto simp: push_inv_def nth_append)
    ultimately show ?thesis unfolding push_inv_def using path by (intro conjI; (intro allI ballI impI)?) simp_all
  qed
qed

lemma cfg_st_rpo: "cfg_st (f\<lparr>blocks_rpo := r\<rparr>) A n = cfg_st f A n" "doms (f\<lparr>blocks_rpo := r\<rparr>) = doms f"
    "back_of (f\<lparr>blocks_rpo := r\<rparr>) = back_of f"
  by (simp_all add: cfg_st_def nblocks_def arcs_def doms_def back_of_def fun_eq_iff)

lemma dom_step_follow:
  assumes inv: "dom_inv A n s" and w: "ds_work s = c # W" and ne: "unat (ds_succ s ! c) \<noteq> length (succs_of A c)"
    and root: "rooted A n"
  shows "\<exists>s'. dom_step s c = Inr s' \<and> dom_inv A n s' \<and> dom_measure A n s' < dom_measure A n s"
proof -
  let ?f = "ds_fn s" and ?cs = "ds_succ s"
  let ?R = "0 # blocks_rpo ?f"
  have st: "cfg_st ?f A n" and p: "push_inv A n ?cs (c # W) ?R" and tree: "tree_inv A n ?cs (set ?R) (doms ?f)"
    and len: "length ?cs = n" "length (ds_visits s) = n" and A: "length A < 2 ^ 16" "set A \<subseteq> {..<n} \<times> {..<n}"
    and vis: "\<forall>v < n. unat (ds_visits s ! v) = seen A n ?cs v"
    and bks: "\<forall>b < n. \<forall>a. count_list (back_of ?f b) a = (if dominates (set A) b a then count_list A (a, b) else 0)"
    using inv w by (simp_all add: dom_inv_def cfg_st_def)
  have c: "c \<in> set ?R" "c < n" using p by (auto simp: push_inv_def)
  have k: "unat (?cs ! c) < length (succs_of A c)" using p c(2) ne by (auto simp: push_inv_def le_less)
  define v where "v = succs_of A c ! unat (?cs ! c)"
  define cs where "cs = ?cs[c := ?cs ! c + 1]"
  note succ = cfg_st_succ [OF st c(2) k, folded v_def]
  have v: "v < n" "(c, v) \<in> set A" "v \<noteq> 0" using succ(2,3) root unfolding rooted_def by metis+
  have k': "c < length ?cs" using c(2) len by simp
  note fol = followed_step(1) [OF k k' A(1), folded cs_def v_def]
  have cs': "\<forall>a < n. \<forall>x. x \<in> set (followed A cs a) \<longleftrightarrow> x \<in> set (followed A ?cs a) \<or> a = c \<and> x = v"
    unfolding fol by auto
  have bk: "dominates (set A) v c" if "v \<in> set ?R"
  proof (rule ccontr)
    assume "\<not> dominates (set A) v c"
    moreover have "v \<in> set (drop (unat (?cs ! c)) (succs_of A c))"
      unfolding v_def using k by (metis Cons_nth_drop_Suc list.set_intros(1))
    ultimately have "pending A ?cs c v" by (simp add: pending_def)
    then show False using p v(1,3) c(2) that by (auto simp: push_inv_def)
  qed
  obtain f' t where u: "UpdateDominatorOfSuccessor ?f c v = Inr (f', t)" "cfg_st f' A n"
      "back_of f' = back_of ?f" "blocks_rpo f' = blocks_rpo ?f" "tree_inv A n cs (set ?R) (doms f')"
    using update_on_edge [OF st p tree v(2,3) c(1) cs' bk] by blast
  have sn: "seen A n cs x = seen A n ?cs x + (if x = v then 1 else 0)" for x
    using seen_step [OF k k' A(1) c(2) v_def] by (simp add: cs_def)
  have fin: "length (preds_of A v) = length (back_of ?f v) + forward_in A n v"
    using forward_in_edges [OF A(2), of "back_of ?f v" v] bks v(1) by blast
  have pl: "length (preds_of A v) \<le> length A" by (simp add: preds_of_def)
  have le: "seen A n ?cs v + 1 \<le> length A" using seen_le [OF A(2), of cs v] sn [of v] by simp
  note test = visits_test [OF le vis [rule_format, OF v(1)] A(1) fin pl]
  define vs where "vs = (ds_visits s)[v := ds_visits s ! v + 1]"
  have vis': "\<forall>x < n. unat (vs ! x) = seen A n cs x"
    using vis sn test(2) len(2) by (auto simp: vs_def nth_list_update)
  have less: "2 * rest A n cs + 1 < 2 * rest A n ?cs" using rest_follow [OF c(2) len(1) k A(1)] by (simp add: cs_def)
  note run = dom_step_def Let_def ne len c(2) v(1) cfg_st_at [OF st c(2)] cfg_st_at [OF u(2) v(1)]
    cs_def [symmetric] vec_ptr_Some k v_def [symmetric] u(1) vs_def [symmetric] test(1)
  have cW: "c \<in> set (c # W)" by simp
  note push = push_inv_follow [OF p cW k A(1) len(1) v_def v(3,1) cs_def A(2)]
  have beq: "back_edges (pool_blocks f' ! v) = back_of ?f v" using u(3) by (simp add: back_of_def fun_eq_iff)
  have nd: "\<not> dominates (set A) v a" if "v \<notin> set ?R" "a < n" "v \<in> set (followed A cs a)" for a
    using that cs' c(1) push_followed [OF p that(2), of v] push_dominator [OF p, of a v] by auto
  have cond: "Suc (seen A n ?cs v) = forward_in A n v \<longleftrightarrow> v \<notin> set ?R \<and> (\<forall>a < n. \<not> pending A cs a v)"
  proof (cases "v \<in> set ?R")
    case True
    then have "\<forall>a < n. \<not> pending A ?cs a v" using p v by (simp add: push_inv_def)
    from seen_pushed [OF this] show ?thesis using True by simp
  next
    case False
    then show ?thesis using seen_unpushed [of n v A cs] nd sn [of v] by simp
  qed
  show ?thesis
  proof (cases "v \<notin> set ?R \<and> (\<forall>a < n. \<not> pending A cs a v)")
    case True
    let ?f1 = "f'\<lparr>blocks_rpo := blocks_rpo f' @ [v]\<rparr>"
    let ?s = "s\<lparr>ds_fn := ?f1, ds_visits := vs, ds_succ := cs, ds_work := v # ds_work s\<rparr>"
    have "dom_step s c = Inr ?s" using True cond by (simp add: run beq)
    moreover have "\<forall>a < n. (a, v) \<in> set A \<and> \<not> dominates (set A) v a \<longleftrightarrow> v \<in> set (followed A cs a)"
      using True nd followed_pending [of _ v A cs] by blast
    then have "tree_inv A n cs (insert v (set ?R)) (doms f')"
      using tree_push [OF u(5) v(1) _ v(3) _ _ A(2)] True root v(1) by (simp add: rooted_def)
    moreover have "push_inv A n cs (v # c # W) (?R @ [v])" using push(2) True by blast
    ultimately have "dom_inv A n ?s"
      using u(2-4) bks vis' len w by (simp add: dom_inv_def cfg_st_rpo vs_def cs_def insert_commute)
    then show ?thesis using \<open>dom_step s c = Inr ?s\<close> less w by (simp add: dom_measure_def)
  next
    case False
    let ?s = "s\<lparr>ds_fn := f', ds_visits := vs, ds_succ := cs\<rparr>"
    have "\<not> Suc (seen A n ?cs v) = forward_in A n v" using False cond by blast
    then have "dom_step s c = Inr ?s" by (simp add: run beq)
    moreover have "push_inv A n cs (c # W) ?R" using push(1) False by blast
    then have "dom_inv A n ?s"
      using u(2-5) bks vis' len w by (simp add: dom_inv_def vs_def cs_def)
    ultimately show ?thesis using less by (simp add: dom_measure_def)
  qed
qed

text \<open>A list of blocks in which every edge leads forward, except those to a dominator of their source.\<close>

definition forward_order :: "(block_ptr \<times> block_ptr) set \<Rightarrow> block_ptr list \<Rightarrow> bool" where
  "forward_order E R \<longleftrightarrow>
     (\<forall>i < length R. \<forall>a. (a, R ! i) \<in> E \<longrightarrow> \<not> dominates E (R ! i) a \<longrightarrow> a \<in> set (take i R))"

lemma dom_loop_inv:
  assumes "dom_inv A n s" and "rooted A n" and "dom_measure A n s \<le> m"
  shows "\<exists>s'. dom_loop m s = Inr s' \<and> dom_inv A n s' \<and> ds_work s' = []"
  using assms
proof (induction m arbitrary: s)
  case 0
  then show ?case by (simp add: dom_measure_def)
next
  case (Suc m)
  show ?case
  proof (cases "ds_work s")
    case Nil
    then show ?thesis using Suc.prems(1) by simp
  next
    case (Cons c W)
    obtain s1 where s1: "dom_step s c = Inr s1" "dom_inv A n s1" "dom_measure A n s1 < dom_measure A n s"
      using dom_step_pop [OF Suc.prems(1) Cons] dom_step_follow [OF Suc.prems(1) Cons _ Suc.prems(2)] by blast
    then show ?thesis using Suc.IH [OF s1(2)] Suc.prems(2,3) Cons by simp
  qed
qed

text \<open>When the worklist is empty every block has been pushed.\<close>

lemma all_pushed:
  assumes p: "push_inv A n cs [] R" and root: "rooted A n" and red: "reducible (set A)"
    and A: "set A \<subseteq> {..<n} \<times> {..<n}"
  shows "v < n \<Longrightarrow> v \<in> set R"
proof -
  let ?F = "{(a, b) \<in> set A. \<not> dominates (set A) b a}"
  have "finite ?F" by (rule finite_subset [of _ "set A"]) auto
  then have "wf ?F" using red finite_acyclic_wf unfolding reducible_def by blast
  then show "v < n \<Longrightarrow> v \<in> set R"
  proof (induction v rule: wf_induct_rule)
    case (less v)
    have "\<not> pending A cs a v" if a: "a < n" for a
    proof
      assume pend: "pending A cs a v"
      then have "v \<in> set (succs_of A a)" by (auto simp: pending_def dest: in_set_dropD)
      then have "(a, v) \<in> ?F" using pend by (simp add: set_succs pending_def)
      then have "a \<in> set R" using less.IH a by blast
      then have "unat (cs ! a) = length (succs_of A a)" using p a by (simp add: push_inv_def)
      then show False using pend by (simp add: pending_def)
    qed
    then show ?case using p less.prems by (cases "v = 0") (auto simp: push_inv_def)
  qed
qed

lemma ComputeDominanceInformation_spec:
  assumes st: "cfg_st f A n" and none: "\<forall>b < n. doms f b = None" and rpo: "blocks_rpo f = []"
    and bks: "\<forall>b < n. \<forall>a. count_list (back_of f b) a = (if dominates (set A) b a then count_list A (a, b) else 0)"
    and root: "rooted A n" and red: "reducible (set A)"
  shows "\<exists>f'. ComputeDominanceInformation f = Inr f' \<and> cfg_st f' A n \<and> in_range n (doms f') \<and>
           distinct (0 # blocks_rpo f') \<and> set (0 # blocks_rpo f') = {..<n} \<and> forward_order (set A) (0 # blocks_rpo f') \<and>
           (\<forall>b < n. \<forall>a. count_list (back_of f' b) a = (if dominates (set A) b a then count_list A (a, b) else 0)) \<and>
           (\<forall>b < n. \<exists>xs. dchain (doms f') b xs \<and> set xs = {d. dominates (set A) d b})"
proof -
  have n: "0 < n" and A: "set A \<subseteq> {..<n} \<times> {..<n}" and mx: "unat (MaxBlockCount f) = n"
    and e: "vec_ptr (blocks f) 0 = Inr 0" and len: "length (pool_edges f) = length A"
    using st by (auto simp: cfg_st_def MaxBlockCount_def unat_of_nat_small vec_ptr_def arcs_def)
  let ?s = "\<lparr>ds_fn = f, ds_visits = replicate n 0, ds_succ = replicate n 0, ds_work = [0]\<rparr>"
  have run: "ComputeDominanceInformation f = res_bind (dom_loop (2 * length A + 1) ?s) (\<lambda>s. Inr (ds_fn s))"
    by (simp add: ComputeDominanceInformation_def mx e len)
  have fl: "followed A (replicate n 0) a = []" for a
    using succs_of_outside [OF A, of a] by (cases "a < n") (simp_all add: followed_def)
  have "\<exists>a < n. pending A (replicate n 0) a v" if v: "v < n" "v \<noteq> 0" for v
  proof -
    obtain a where a: "(a, v) \<in> set A" "\<not> dominates (set A) v a"
      using forward_pred [OF v(2)] root v(1) unfolding rooted_def by blast
    then have "pending A (replicate n 0) a v" using followed_pending [of a v A "replicate n 0"] fl by simp
    then show ?thesis using a(1) A by auto
  qed
  then have "push_inv A n (replicate n 0) [0] [0]" using n root by (auto simp: push_inv_def rooted_def intro: ra.intros)
  moreover have "tree_inv A n (replicate n 0) {0} (doms f)"
    using none n fl by (auto simp: tree_inv_def in_range_def partial_chain_def dominates_entry intro!: exI [of _ "[0]"])
  ultimately have inv: "dom_inv A n ?s"
    using st rpo bks fl by (simp add: dom_inv_def seen_def)
  have "dom_measure A n ?s \<le> 2 * length A + 1" using rest_initial [OF A] by (simp add: dom_measure_def)
  then obtain s' where s': "dom_loop (2 * length A + 1) ?s = Inr s'" "dom_inv A n s'" "ds_work s' = []"
    using dom_loop_inv [OF inv root] by blast
  have p: "push_inv A n (ds_succ s') [] (0 # blocks_rpo (ds_fn s'))" using s'(2,3) by (simp add: dom_inv_def)
  have all: "set (0 # blocks_rpo (ds_fn s')) = {..<n}"
    using all_pushed [OF p root red A] p by (auto simp: push_inv_def simp del: list.set)
  moreover have "distinct (0 # blocks_rpo (ds_fn s'))" using p by (simp add: push_inv_def)
  moreover have "forward_order (set A) (0 # blocks_rpo (ds_fn s'))"
    using p unfolding push_inv_def forward_order_def by blast
  moreover have "\<forall>b < n. \<exists>xs. dchain (doms (ds_fn s')) b xs \<and> set xs = {d. dominates (set A) d b}"
    using s'(2) unfolding dom_inv_def all tree_inv_def by blast
  ultimately show ?thesis using run s'(1,2) by (auto simp: dom_inv_def tree_inv_def simp del: list.set distinct.simps)
qed

text \<open>The whole pass.\<close>

lemma CFG_Run_spec:
  assumes "cfg_ready f" and "length (arcs f) < 2 ^ 16" and "blocks_rpo f = []"
    and "rooted (arcs f) (nblocks f)" and "reducible (set (arcs f))"
  shows "\<exists>f'. CFG_Run f = Inr f' \<and> cfg_st f' (arcs f) (nblocks f) \<and> in_range (nblocks f) (doms f') \<and>
           distinct (0 # blocks_rpo f') \<and> set (0 # blocks_rpo f') = {..<nblocks f} \<and>
           forward_order (set (arcs f)) (0 # blocks_rpo f') \<and>
           (\<forall>b < nblocks f. \<forall>a. count_list (back_of f' b) a =
              (if dominates (set (arcs f)) b a then count_list (arcs f) (a, b) else 0)) \<and>
           (\<forall>b < nblocks f. \<exists>xs. dchain (doms f') b xs \<and> set xs = {d. dominates (set (arcs f)) d b})"
proof -
  let ?A = "arcs f" and ?n = "nblocks f"
  note st = cfg_st_ready [OF assms(1,2)]
  obtain f1 where f1: "FindDominateEdges f = Inr f1" "cfg_st f1 ?A ?n" "pool_blocks f1 = pool_blocks f"
      "blocks_rpo f1 = blocks_rpo f"
    using FindDominateEdges_spec [OF st(1)] by blast
  have same: "doms f1 = doms f" "back_of f1 = back_of f" using f1(3) by (simp_all add: doms_def back_of_def fun_eq_iff)
  have "\<forall>b < ?n. back_of f1 b = []" using st(3) same by simp
  from FindBackEdges_spec [OF f1(2) this] assms(4,5)
  obtain f2 vs where f2: "FindBackEdges f1 (replicate ?n False) = Inr (f2, vs)" "cfg_st f2 ?A ?n"
      "doms f2 = doms f1" "blocks_rpo f2 = blocks_rpo f1"
      "\<forall>b < ?n. \<forall>a. count_list (back_of f2 b) a = (if dominates (set ?A) b a then count_list ?A (a, b) else 0)"
    unfolding rooted_def by auto
  have none: "\<forall>b < ?n. doms f2 b = None" and rpo: "blocks_rpo f2 = []"
    using f2(3,4) same st(2) f1(4) assms(3) by simp_all
  have mx: "unat (MaxBlockCount f1) = ?n" "blocks f \<noteq> []"
    using f1(2) st(1) by (auto simp: cfg_st_def MaxBlockCount_def unat_of_nat_small)
  have "CFG_Run f = ComputeDominanceInformation f2" using mx f1(1) f2(1) by (simp add: CFG_Run_def)
  then show ?thesis using ComputeDominanceInformation_spec [OF f2(2) none rpo f2(5) assms(4,5)] by simp
qed

section \<open>Properties\<close>

text \<open>
  C21: the control flow analysis computes dominators.  For every finished function in which all
  blocks are reachable, no edge enters the entry block, and the control flow is reducible, the pass returns, whatever the order of the edges
  and their multiplicity; following the dominators upwards from a block visits exactly the blocks
  that every path from the entry to it passes; the back edges recorded at a block are exactly the
  edges from blocks that it dominates; and \<open>blocks_rpo\<close> lists every block but the entry once,
  such that, with the entry in front, all edges but the back edges lead forward.
\<close>

theorem CFG_Run_computes_dominators:
  assumes "cfg_ready f" and "length (arcs f) < 2 ^ 16" and "blocks_rpo f = []"
    and "rooted (arcs f) (nblocks f)" and "reducible (set (arcs f))"
  shows "\<exists>f'. CFG_Run f = Inr f' \<and> nblocks f' = nblocks f \<and> arcs f' = arcs f \<and>
           (\<forall>b < nblocks f. \<exists>xs. dchain (doms f') b xs \<and> ChainLength f' b = Inr (length xs) \<and>
              set xs = {d. dominates (set (arcs f)) d b}) \<and>
           (\<forall>b < nblocks f. \<forall>a. count_list (back_of f' b) a =
              (if dominates (set (arcs f)) b a then count_list (arcs f) (a, b) else 0)) \<and>
           distinct (0 # blocks_rpo f') \<and> set (0 # blocks_rpo f') = {..<nblocks f} \<and>
           forward_order (set (arcs f)) (0 # blocks_rpo f')"
proof -
  obtain f' where f': "CFG_Run f = Inr f'" "cfg_st f' (arcs f) (nblocks f)" "in_range (nblocks f) (doms f')"
      "distinct (0 # blocks_rpo f')" "set (0 # blocks_rpo f') = {..<nblocks f}"
      "forward_order (set (arcs f)) (0 # blocks_rpo f')"
      "\<forall>b < nblocks f. \<forall>a. count_list (back_of f' b) a =
         (if dominates (set (arcs f)) b a then count_list (arcs f) (a, b) else 0)"
      "\<forall>b < nblocks f. \<exists>xs. dchain (doms f') b xs \<and> set xs = {d. dominates (set (arcs f)) d b}"
    using CFG_Run_spec [OF assms] by blast
  have n: "nblocks f' = nblocks f" "arcs f' = arcs f" using f'(2) by (simp_all add: cfg_st_def)
  have "\<exists>xs. dchain (doms f') b xs \<and> ChainLength f' b = Inr (length xs) \<and>
      set xs = {d. dominates (set (arcs f)) d b}" if "b < nblocks f" for b
    using f'(8) that ChainLength_dchain [of f' b] f'(3) n(1) by metis
  then show ?thesis using f' n by blast
qed

text \<open>A loop: block 0 links to block 1, block 1 to block 2, and block 2 back to block 1.\<close>

definition loop_function :: "HIRFunction result" where
  "loop_function =
     res_bind (new_HIRFunction 0 0) (\<lambda>f.
     res_bind (fn_LinkBlock f 1) (\<lambda>(f1, _).
     res_bind (fn_LinkBlock f1 2) (\<lambda>(f2, _).
     res_bind (fn_LinkBlock f2 1) (\<lambda>(f3, _). EndFunction f3))))"

lemma loop_function_ok:
  "\<exists>f. loop_function = Inr f \<and> cfg_ready f \<and> nblocks f = 3 \<and> arcs f = [(0, 1), (1, 2), (2, 1)] \<and>
       blocks_rpo f = []"
proof -
  obtain f where f: "new_HIRFunction 0 0 = Inr f" "build_inv f" "arcs f = []" "current_block f = Some 0"
    using new_HIRFunction_spec [of 0 0] by blast
  obtain f1 b1 where f1: "fn_LinkBlock f 1 = Inr (f1, b1)" "build_inv f1" "current_block f1 = Some b1"
    using fn_LinkBlock_spec [OF f(2,4), of 1] by blast
  obtain f2 b2 where f2: "fn_LinkBlock f1 2 = Inr (f2, b2)" "build_inv f2" "current_block f2 = Some b2"
    using fn_LinkBlock_spec [OF f1(2,3), of 2] by blast
  obtain f3 b3 where f3: "fn_LinkBlock f2 1 = Inr (f3, b3)" "build_inv f3" "current_block f3 = Some b3"
    using fn_LinkBlock_spec [OF f2(2,3), of 1] by blast
  have run: "loop_function = EndFunction f3" using f(1) f1(1) f2(1) f3(1) by (simp add: loop_function_def)
  have ev: "case loop_function of Inl _ \<Rightarrow> False
      | Inr f \<Rightarrow> nblocks f = 3 \<and> arcs f = [(0, 1), (1, 2), (2, 1)] \<and> blocks_rpo f = []"
    by code_simp
  have "case new_HIRFunction 0 0 of Inl _ \<Rightarrow> False | Inr f \<Rightarrow>
      (case fn_LinkBlock f 1 of Inl _ \<Rightarrow> False | Inr (f1, _) \<Rightarrow>
      (case fn_LinkBlock f1 2 of Inl _ \<Rightarrow> False | Inr (f2, _) \<Rightarrow>
      (case fn_LinkBlock f2 1 of Inl _ \<Rightarrow> False | Inr (f3, _) \<Rightarrow> nblocks f3 = 3 \<and> length (arcs f3) = 3)))"
    by code_simp
  then have "nblocks f3 = 3" "length (arcs f3) = 3" using f(1) f1(1) f2(1) f3(1) by simp_all
  then obtain f4 where f4: "EndFunction f3 = Inr f4" "cfg_ready f4"
    using EndFunction_spec [OF _ f3(3)] f3(2) by (auto simp: build_inv_def)
  have r: "loop_function = Inr f4" using run f4(1) by simp
  show ?thesis using ev f4(2) unfolding r by simp
qed

lemma loop_function_graph:
  assumes "E = {(0, 1), (1, 2), (2, 1 :: nat)}"
  shows "rooted [(0, 1), (1, 2), (2, 1)] 3" and "dominates E d 2 \<longleftrightarrow> d < 3" and "reducible E"
proof -
  have r: "(0, 1) \<in> E" "(1, 2) \<in> E" using assms by auto
  then have "(0, 2) \<in> E\<^sup>*" by (meson converse_rtrancl_into_rtrancl rtrancl.rtrancl_refl)
  moreover have "b < 3 \<longleftrightarrow> b = 0 \<or> b = 1 \<or> b = 2" for b :: nat by auto
  ultimately show "rooted [(0, 1), (1, 2), (2, 1)] 3" using r assms by (auto simp: rooted_def)
  have no: "\<not> ra E {1} 2"
  proof
    assume "ra E {1} 2"
    then show False using ra_notin [of E "{1}" 1] assms by (cases rule: ra.cases) auto
  qed
  moreover have "\<not> ra E {0} b" for b
  proof
    assume "ra E {0} b"
    then show False by (induction rule: ra.induct) simp_all
  qed
  moreover have "\<not> ra E {2} 2" using ra_notin by blast
  moreover have "ra E {d} 2" if "\<not> d < 3"
    using that r ra.entry [of "{d}" E] ra.step [of E "{d}" 0 1] ra.step [of E "{d}" 1 2] by auto
  moreover have "d < 3 \<longleftrightarrow> d = 0 \<or> d = 1 \<or> d = 2" by linarith
  ultimately show "dominates E d 2 \<longleftrightarrow> d < 3" unfolding dominates_def by metis
  have "dominates E 1 2" using no unfolding dominates_def .
  then have lt: "a < b" if "(a, b) \<in> {(a, b) \<in> E. \<not> dominates E b a}" for a b using that assms by auto
  show "reducible E" unfolding reducible_def
  proof (rule acyclicI_order [of _ "\<lambda>x. - int x"])
    fix a b
    assume "(a, b) \<in> {(a, b) \<in> E. \<not> dominates E b a}"
    then have "a < b" by (rule lt)
    then show "- int b < - int a" by simp
  qed
qed

theorem CFG_Run_computes_dominators_witness:
  "\<exists>f f' xs. loop_function = Inr f \<and> CFG_Run f = Inr f' \<and> dchain (doms f') 2 xs \<and> set xs = {0, 1, 2} \<and>
             ChainLength f' 2 = Inr (length xs)"
proof -
  obtain f where f: "loop_function = Inr f" "cfg_ready f" "nblocks f = 3" "arcs f = [(0, 1), (1, 2), (2, 1)]"
      "blocks_rpo f = []" using loop_function_ok by blast
  have E: "set (arcs f) = {(0, 1), (1, 2), (2, 1)}" using f(4) by simp
  have "length (arcs f) < 2 ^ 16" "rooted (arcs f) (nblocks f)" "reducible (set (arcs f))"
    using loop_function_graph [OF E] f(3,4) by simp_all
  from CFG_Run_computes_dominators [OF f(2) this(1) f(5) this(2,3)]
  obtain f' where f': "CFG_Run f = Inr f'" "\<forall>b < 3. \<exists>xs. dchain (doms f') b xs \<and>
      ChainLength f' b = Inr (length xs) \<and> set xs = {d. dominates (set (arcs f)) d b}" unfolding f(3) by blast
  have "(2::nat) < 3" by simp
  then obtain xs where x: "dchain (doms f') 2 xs" "ChainLength f' 2 = Inr (length xs)"
      "set xs = {d. dominates (set (arcs f)) d 2}" using f'(2) by blast
  have "{d. d < (3::nat)} = {0, 1, 2}" by auto
  then have "set xs = {0, 1, 2}" using x(3) loop_function_graph(2) [OF E] by simp
  then show ?thesis using f(1) f'(1) x by blast
qed

section \<open>Loops to the entry\<close>

lemma chain_len_circle:
  assumes "doms f a = Some b" and "doms f b = Some a" and "a < nblocks f" and "b < nblocks f"
  shows "chain_len k f (Some a) = Inl Diverges \<and> chain_len k f (Some b) = Inl Diverges"
  using assms by (induction k) (auto simp: doms_def nblocks_def)

text \<open>The entry block links to a second block, which ends with a jump to the entry.\<close>

definition entry_loop :: "(HIRFunction \<Rightarrow> HIRFunction result) \<Rightarrow> HIRFunction result" where
  "entry_loop end_block =
     res_bind (new_HIRFunction 0 0) (\<lambda>f.
     res_bind (fn_LinkBlock f 1) (\<lambda>(f1, _).
     res_bind (end_block f1) EndFunction))"

definition jump_to_entry :: "HIRFunction \<Rightarrow> HIRFunction result" where
  "jump_to_entry f = res_bind (fn_LinkBlock f 0) (\<lambda>(f1, _). Inr f1)"

definition branch_to_entry :: "HIRFunction \<Rightarrow> HIRFunction result" where
  "branch_to_entry f = res_bind (fn_If f None (LinkBlockT 0) (LinkBlockT 0)) (\<lambda>(f1, _). Inr f1)"


end
