(* ===== verification/Kern_Libc.thy ===== *)
theory Kern_Libc
  imports Prelude
begin

text \<open>
  The memory and string routines of the kernel
  (\<open>src/source/kernel/ams/libc/kern_libc_generic.c\<close>).  Each routine has a small variant, chosen by
  \<open>PREFER_SIZE_OVER_SPEED\<close>, and a fast variant that works on aligned \<open>long\<close>s; both are modelled,
  for a 64 bit little endian target (AArch64).  Memory maps addresses to bytes; an address is a
  64 bit word and pointer arithmetic wraps.  Lengths are natural numbers below \<open>2 ^ 64\<close>, since every
  loop only counts them down.
\<close>

section \<open>Memory\<close>

type_synonym memory = "u64 \<Rightarrow> u8"
type_synonym ptr = u64

fun le_nat :: "u8 list \<Rightarrow> nat" where
  "le_nat [] = 0"
| "le_nat (b # bs) = unat b + 256 * le_nat bs"

definition bytes_at :: "memory \<Rightarrow> ptr \<Rightarrow> nat \<Rightarrow> u8 list" where
  "bytes_at m p n = map (\<lambda>i. m (p + of_nat i)) [0..<n]"

definition load_long :: "memory \<Rightarrow> ptr \<Rightarrow> u64" where
  "load_long m p = of_nat (le_nat (bytes_at m p 8))"

definition byte_of :: "u64 \<Rightarrow> nat \<Rightarrow> u8" where
  "byte_of v i = of_nat (unat v div 256 ^ i)"

definition store_long :: "memory \<Rightarrow> ptr \<Rightarrow> u64 \<Rightarrow> memory" where
  "store_long m p v = (\<lambda>a. if unat (a - p) < 8 then byte_of v (unat (a - p)) else m a)"

definition UNALIGNED2 :: "ptr \<Rightarrow> ptr \<Rightarrow> bool" where
  "UNALIGNED2 x y \<longleftrightarrow> (x AND 7) OR (y AND 7) \<noteq> 0"

definition UNALIGNED :: "ptr \<Rightarrow> bool" where
  "UNALIGNED x \<longleftrightarrow> x AND 7 \<noteq> 0"

definition BIGBLOCKSIZE :: nat where
  "BIGBLOCKSIZE = 32"

definition LBLOCKSIZE :: nat where
  "LBLOCKSIZE = 8"

declare BIGBLOCKSIZE_def [simp] LBLOCKSIZE_def [simp]

section \<open>memmove and memcpy\<close>

fun copy_forward :: "nat \<Rightarrow> memory \<Rightarrow> ptr \<Rightarrow> ptr \<Rightarrow> memory" where
  "copy_forward 0 m dst src = m"
| "copy_forward (Suc n) m dst src = copy_forward n (m(dst := m src)) (dst + 1) (src + 1)"

fun copy_backward :: "nat \<Rightarrow> memory \<Rightarrow> ptr \<Rightarrow> ptr \<Rightarrow> memory" where
  "copy_backward 0 m dst src = m"
| "copy_backward (Suc n) m dst src =
     copy_backward n (m(dst - 1 := m (src - 1))) (dst - 1) (src - 1)"

definition copy_long :: "memory \<Rightarrow> ptr \<Rightarrow> ptr \<Rightarrow> memory" where
  "copy_long m dst src = store_long m dst (load_long m src)"

fun copy_big :: "nat \<Rightarrow> memory \<Rightarrow> ptr \<Rightarrow> ptr \<Rightarrow> nat \<times> memory \<times> ptr \<times> ptr" where
  "copy_big n m dst src =
     (if BIGBLOCKSIZE \<le> n then
        (let m1 = copy_long m dst src;
             m2 = copy_long m1 (dst + 8) (src + 8);
             m3 = copy_long m2 (dst + 16) (src + 16);
             m4 = copy_long m3 (dst + 24) (src + 24)
         in copy_big (n - BIGBLOCKSIZE) m4 (dst + 32) (src + 32))
      else (n, m, dst, src))"

fun copy_little :: "nat \<Rightarrow> memory \<Rightarrow> ptr \<Rightarrow> ptr \<Rightarrow> nat \<times> memory \<times> ptr \<times> ptr" where
  "copy_little n m dst src =
     (if LBLOCKSIZE \<le> n then copy_little (n - LBLOCKSIZE) (copy_long m dst src) (dst + 8) (src + 8)
      else (n, m, dst, src))"

definition copy_fast :: "nat \<Rightarrow> memory \<Rightarrow> ptr \<Rightarrow> ptr \<Rightarrow> memory" where
  "copy_fast n m dst src =
     (if \<not> n < BIGBLOCKSIZE \<and> \<not> UNALIGNED2 src dst then
        (let (n1, m1, d1, s1) = copy_big n m dst src;
             (n2, m2, d2, s2) = copy_little n1 m1 d1 s1
         in copy_forward n2 m2 d2 s2)
      else copy_forward n m dst src)"

definition memmove_small :: "memory \<Rightarrow> ptr \<Rightarrow> ptr \<Rightarrow> nat \<Rightarrow> memory \<times> ptr" where
  "memmove_small m dst src n =
     (if src < dst \<and> dst < src + of_nat n
      then (copy_backward n m (dst + of_nat n) (src + of_nat n), dst)
      else (copy_forward n m dst src, dst))"

definition memmove :: "memory \<Rightarrow> ptr \<Rightarrow> ptr \<Rightarrow> nat \<Rightarrow> memory \<times> ptr" where
  "memmove m dst src n =
     (if src < dst \<and> dst < src + of_nat n
      then (copy_backward n m (dst + of_nat n) (src + of_nat n), dst)
      else (copy_fast n m dst src, dst))"

definition memcpy_small :: "memory \<Rightarrow> ptr \<Rightarrow> ptr \<Rightarrow> nat \<Rightarrow> memory \<times> ptr" where
  "memcpy_small m dst src n = (copy_forward n m dst src, dst)"

definition memcpy :: "memory \<Rightarrow> ptr \<Rightarrow> ptr \<Rightarrow> nat \<Rightarrow> memory \<times> ptr" where
  "memcpy m dst src n = (copy_fast n m dst src, dst)"

section \<open>memset\<close>

fun fill_bytes :: "nat \<Rightarrow> memory \<Rightarrow> ptr \<Rightarrow> u8 \<Rightarrow> memory" where
  "fill_bytes 0 m s c = m"
| "fill_bytes (Suc n) m s c = fill_bytes n (m(s := c)) (s + 1) c"

text \<open>\<open>while (UNALIGNED (s))\<close>; the result is None when the count ran out and the routine returned.\<close>

fun fill_to_boundary :: "nat \<Rightarrow> memory \<Rightarrow> ptr \<Rightarrow> u8 \<Rightarrow> memory \<times> (nat \<times> ptr) option" where
  "fill_to_boundary 0 m s c = (if UNALIGNED s then (m, None) else (m, Some (0, s)))"
| "fill_to_boundary (Suc n) m s c =
     (if UNALIGNED s then fill_to_boundary n (m(s := c)) (s + 1) c else (m, Some (Suc n, s)))"

definition fill_pattern :: "32 word \<Rightarrow> u64" where
  "fill_pattern c =
     (let d = c AND 0xff;
          b0 = ucast (push_bit 8 d OR d) :: u64;
          b1 = b0 OR push_bit 16 b0
      in push_bit 32 b1 OR b1)"

fun fill_big :: "nat \<Rightarrow> memory \<Rightarrow> ptr \<Rightarrow> u64 \<Rightarrow> nat \<times> memory \<times> ptr" where
  "fill_big n m s v =
     (if 4 * LBLOCKSIZE \<le> n then
        (let m1 = store_long m s v;
             m2 = store_long m1 (s + 8) v;
             m3 = store_long m2 (s + 16) v;
             m4 = store_long m3 (s + 24) v
         in fill_big (n - 4 * LBLOCKSIZE) m4 (s + 32) v)
      else (n, m, s))"

fun fill_little :: "nat \<Rightarrow> memory \<Rightarrow> ptr \<Rightarrow> u64 \<Rightarrow> nat \<times> memory \<times> ptr" where
  "fill_little n m s v =
     (if LBLOCKSIZE \<le> n then fill_little (n - LBLOCKSIZE) (store_long m s v) (s + 8) v else (n, m, s))"

definition memset_small :: "memory \<Rightarrow> ptr \<Rightarrow> 32 word \<Rightarrow> nat \<Rightarrow> memory \<times> ptr" where
  "memset_small m s c n = (fill_bytes n m s (ucast c), s)"

definition memset :: "memory \<Rightarrow> ptr \<Rightarrow> 32 word \<Rightarrow> nat \<Rightarrow> memory \<times> ptr" where
  "memset m s c n =
     (case fill_to_boundary n m s (ucast c) of
        (m1, None) \<Rightarrow> (m1, s)
      | (m1, Some (n1, s1)) \<Rightarrow>
          if \<not> n1 < LBLOCKSIZE then
            (let (n2, m2, s2) = fill_big n1 m1 s1 (fill_pattern c);
                 (n3, m3, s3) = fill_little n2 m2 s2 (fill_pattern c)
             in (fill_bytes n3 m3 s3 (ucast c), s))
          else (fill_bytes n1 m1 s1 (ucast c), s))"

section \<open>memcmp\<close>

definition byte_diff :: "u8 \<Rightarrow> u8 \<Rightarrow> int" where
  "byte_diff a b = int (unat a) - int (unat b)"

fun compare_bytes :: "nat \<Rightarrow> memory \<Rightarrow> ptr \<Rightarrow> ptr \<Rightarrow> int" where
  "compare_bytes 0 m s1 s2 = 0"
| "compare_bytes (Suc n) m s1 s2 =
     (if m s1 \<noteq> m s2 then byte_diff (m s1) (m s2) else compare_bytes n m (s1 + 1) (s2 + 1))"

fun skip_equal_longs :: "nat \<Rightarrow> memory \<Rightarrow> ptr \<Rightarrow> ptr \<Rightarrow> nat \<times> ptr \<times> ptr" where
  "skip_equal_longs n m a1 a2 =
     (if LBLOCKSIZE \<le> n \<and> load_long m a1 = load_long m a2
      then skip_equal_longs (n - LBLOCKSIZE) m (a1 + 8) (a2 + 8) else (n, a1, a2))"

definition memcmp_small :: "memory \<Rightarrow> ptr \<Rightarrow> ptr \<Rightarrow> nat \<Rightarrow> int" where
  "memcmp_small m s1 s2 n = compare_bytes n m s1 s2"

definition memcmp :: "memory \<Rightarrow> ptr \<Rightarrow> ptr \<Rightarrow> nat \<Rightarrow> int" where
  "memcmp m s1 s2 n =
     (if \<not> n < LBLOCKSIZE \<and> \<not> UNALIGNED2 s1 s2
      then (let (n1, t1, t2) = skip_equal_longs n m s1 s2 in compare_bytes n1 m t1 t2)
      else compare_bytes n m s1 s2)"

section \<open>strncpy and strncmp\<close>

definition DETECTNULL :: "u64 \<Rightarrow> bool" where
  "DETECTNULL x \<longleftrightarrow> (x - 0x0101010101010101) AND NOT x AND 0x8080808080808080 \<noteq> 0"

fun copy_string :: "nat \<Rightarrow> memory \<Rightarrow> ptr \<Rightarrow> ptr \<Rightarrow> nat \<times> memory \<times> ptr" where
  "copy_string 0 m dst src = (0, m, dst)"
| "copy_string (Suc n) m dst src =
     (if m src = 0 then (n, m(dst := 0), dst + 1)
      else copy_string n (m(dst := m src)) (dst + 1) (src + 1))"

fun copy_string_longs :: "nat \<Rightarrow> memory \<Rightarrow> ptr \<Rightarrow> ptr \<Rightarrow> nat \<times> memory \<times> ptr \<times> ptr" where
  "copy_string_longs n m dst src =
     (if LBLOCKSIZE \<le> n \<and> \<not> DETECTNULL (load_long m src)
      then copy_string_longs (n - LBLOCKSIZE) (copy_long m dst src) (dst + 8) (src + 8)
      else (n, m, dst, src))"

definition strncpy_small :: "memory \<Rightarrow> ptr \<Rightarrow> ptr \<Rightarrow> nat \<Rightarrow> memory \<times> ptr" where
  "strncpy_small m dst src n =
     (let (k, m1, d) = copy_string n m dst src in (fill_bytes k m1 d 0, dst))"

definition strncpy :: "memory \<Rightarrow> ptr \<Rightarrow> ptr \<Rightarrow> nat \<Rightarrow> memory \<times> ptr" where
  "strncpy m dst src n =
     (let (n1, m1, d1, s1) =
            (if \<not> UNALIGNED2 src dst \<and> \<not> n < LBLOCKSIZE then copy_string_longs n m dst src
             else (n, m, dst, src));
          (k, m2, d2) = copy_string n1 m1 d1 s1
      in (fill_bytes k m2 d2 0, dst))"

text \<open>
  The loop of the small variant of \<open>strncmp\<close> breaks out and then subtracts the characters it stands
  on; that of the fast variant returns.
\<close>

fun strncmp_small_loop :: "nat \<Rightarrow> memory \<Rightarrow> ptr \<Rightarrow> ptr \<Rightarrow> ptr \<times> ptr" where
  "strncmp_small_loop 0 m s1 s2 = (s1, s2)"
| "strncmp_small_loop (Suc n) m s1 s2 =
     (if m s1 = m s2 then
        (if n = 0 \<or> m s1 = 0 then (s1, s2) else strncmp_small_loop n m (s1 + 1) (s2 + 1))
      else (s1, s2))"

definition strncmp_small :: "memory \<Rightarrow> ptr \<Rightarrow> ptr \<Rightarrow> nat \<Rightarrow> int" where
  "strncmp_small m s1 s2 n =
     (if n = 0 then 0
      else (let (t1, t2) = strncmp_small_loop n m s1 s2 in byte_diff (m t1) (m t2)))"

fun strncmp_bytes :: "nat \<Rightarrow> memory \<Rightarrow> ptr \<Rightarrow> ptr \<Rightarrow> int" where
  "strncmp_bytes 0 m s1 s2 = byte_diff (m s1) (m s2)"
| "strncmp_bytes (Suc n) m s1 s2 =
     (if m s1 = m s2 then
        (if n = 0 \<or> m s1 = 0 then 0 else strncmp_bytes n m (s1 + 1) (s2 + 1))
      else byte_diff (m s1) (m s2))"

text \<open>The loop over words returns \<open>Inl 0\<close> when it returns from the routine.\<close>

fun strncmp_longs :: "nat \<Rightarrow> memory \<Rightarrow> ptr \<Rightarrow> ptr \<Rightarrow> int + nat \<times> ptr \<times> ptr" where
  "strncmp_longs n m a1 a2 =
     (if LBLOCKSIZE \<le> n \<and> load_long m a1 = load_long m a2 then
        (if n - LBLOCKSIZE = 0 \<or> DETECTNULL (load_long m a1) then Inl 0
         else strncmp_longs (n - LBLOCKSIZE) m (a1 + 8) (a2 + 8))
      else Inr (n, a1, a2))"

definition strncmp :: "memory \<Rightarrow> ptr \<Rightarrow> ptr \<Rightarrow> nat \<Rightarrow> int" where
  "strncmp m s1 s2 n =
     (if n = 0 then 0
      else if \<not> UNALIGNED2 s1 s2 then
        (case strncmp_longs n m s1 s2 of
           Inl r \<Rightarrow> r
         | Inr (n1, t1, t2) \<Rightarrow> strncmp_bytes n1 m t1 t2)
      else strncmp_bytes n m s1 s2)"

declare copy_big.simps [simp del] copy_little.simps [simp del] fill_big.simps [simp del]
  fill_little.simps [simp del] skip_equal_longs.simps [simp del] copy_string_longs.simps [simp del]
  strncmp_longs.simps [simp del]

end
