(* ===== verification/Kern_Libc_Memory.thy ===== *)
theory Kern_Libc_Memory
  imports Kern_Libc
begin

text \<open>
  What the loops of the kernel's memory routines do: bytes and words in memory, copying in both
  directions, filling, comparing, and the null byte test of the string routines.
\<close>

section \<open>Bytes and words\<close>

lemma le_nat_less: "le_nat bs < 256 ^ length bs"
proof (induction bs)
  case (Cons b bs)
  have "unat b < 256" using unsigned_less [of b, where 'a = nat] by simp
  then show ?case using Cons by simp
qed simp

lemma le_nat_nth: "i < length bs \<Longrightarrow> le_nat bs div 256 ^ i mod 256 = unat (bs ! i)"
proof (induction bs arbitrary: i)
  case (Cons b bs)
  have b: "unat b < 256" using unsigned_less [of b, where 'a = nat] by simp
  show ?case
  proof (cases i)
    case 0
    then show ?thesis using b by simp
  next
    case (Suc j)
    have "(unat b + 256 * le_nat bs) div 256 = le_nat bs" using b by simp
    then have "(unat b + 256 * le_nat bs) div 256 ^ Suc j = le_nat bs div 256 ^ j"
      by (simp only: power_Suc div_mult2_eq)
    then show ?thesis using Cons Suc by (simp del: power_Suc)
  qed
qed simp

lemma unat_load_long: "unat (load_long m p) = le_nat (bytes_at m p 8)"
proof -
  have "length (bytes_at m p 8) = 8" by (simp add: bytes_at_def)
  then have "le_nat (bytes_at m p 8) < 256 ^ 8" using le_nat_less [of "bytes_at m p 8"] by simp
  then show ?thesis unfolding load_long_def by (intro unat_of_nat_small) simp
qed

lemma byte_of_load_long:
  assumes "i < 8"
  shows "byte_of (load_long m p) i = m (p + of_nat i)"
proof -
  have "unat (byte_of (load_long m p) i) = le_nat (bytes_at m p 8) div 256 ^ i mod 256"
    by (simp add: byte_of_def unat_load_long unat_of_nat)
  also have "\<dots> = unat (bytes_at m p 8 ! i)" using assms by (intro le_nat_nth) (simp add: bytes_at_def)
  also have "\<dots> = unat (m (p + of_nat i))" using assms by (simp add: bytes_at_def)
  finally show ?thesis by (rule unsigned_word_eqI)
qed

lemma load_long_eq_iff:
  "load_long m p = load_long m q \<longleftrightarrow> (\<forall>i < 8. m (p + of_nat i) = m (q + of_nat i))"
proof
  assume "load_long m p = load_long m q"
  then show "\<forall>i < 8. m (p + of_nat i) = m (q + of_nat i)" using byte_of_load_long by metis
next
  assume "\<forall>i < 8. m (p + of_nat i) = m (q + of_nat i)"
  then have "bytes_at m p 8 = bytes_at m q 8" by (simp add: bytes_at_def)
  then show "load_long m p = load_long m q" by (simp add: load_long_def)
qed

lemma unat_offset: "unat p + i < 2 ^ 64 \<Longrightarrow> unat (p + of_nat i :: u64) = unat p + i"
  by (simp add: unat_word_ariths unat_of_nat)

section \<open>Copying\<close>

text \<open>Memory after the \<open>n\<close> bytes at \<open>s\<close> have been copied to \<open>d\<close> at once.\<close>

definition copied :: "memory \<Rightarrow> ptr \<Rightarrow> ptr \<Rightarrow> nat \<Rightarrow> memory" where
  "copied m d s n = (\<lambda>a. if unat (a - d) < n then m (s + (a - d)) else m a)"

lemma copied_at: "copied m d s n a = (if unat (a - d) < n then m (s + (a - d)) else m a)"
  by (simp add: copied_def)

lemma copied_0 [simp]: "copied m d s 0 = m"
  by (simp add: copied_def)

lemma copied_byte: "m(d := m s) = copied m d s 1"
  by (auto simp: copied_def fun_eq_iff unat_eq_0)

lemma copied_long: "copy_long m d s = copied m d s 8"
  by (auto simp: copied_def copy_long_def store_long_def byte_of_load_long of_nat_unat_id fun_eq_iff)

text \<open>No byte is overwritten before it is read when the copy runs upwards, or downwards.\<close>

definition copy_up_ok :: "ptr \<Rightarrow> ptr \<Rightarrow> nat \<Rightarrow> bool" where
  "copy_up_ok d s n \<longleftrightarrow> (\<forall>i j. i < j \<longrightarrow> j < n \<longrightarrow> d + of_nat i \<noteq> s + of_nat j)"

definition copy_down_ok :: "ptr \<Rightarrow> ptr \<Rightarrow> nat \<Rightarrow> bool" where
  "copy_down_ok d s n \<longleftrightarrow> (\<forall>i j. i < j \<longrightarrow> j < n \<longrightarrow> d + of_nat j \<noteq> s + of_nat i)"

lemma copy_up_ok_rest:
  assumes "copy_up_ok d s (k + n)"
  shows "copy_up_ok (d + of_nat k) (s + of_nat k) n"
  unfolding copy_up_ok_def
proof (intro allI impI)
  fix i j
  assume "i < j" and "j < n"
  then have "d + of_nat (k + i) \<noteq> s + of_nat (k + j)" using assms unfolding copy_up_ok_def by force
  then show "d + of_nat k + of_nat i \<noteq> s + of_nat k + of_nat j" by (simp add: add.assoc)
qed

lemma offset_window:
  assumes "k + n \<le> 2 ^ 64"
  shows "unat (x - of_nat k :: u64) < n \<longleftrightarrow> k \<le> unat x \<and> unat x < k + n"
proof (cases "n = 0")
  case False
  then have k: "k < 2 ^ 64" using assms by simp
  define u where "u = unat x"
  have x: "u < 2 ^ 64" using unsigned_less [of x, where 'a = nat] by (simp add: u_def)
  have "uint (x - of_nat k) = (uint x - int k) mod 2 ^ 64"
    using k by (simp add: uint_word_ariths unsigned_of_nat take_bit_nat_eq_self mod_diff_right_eq)
  moreover define v where "v = unat (x - of_nat k)"
  ultimately have e: "int v = (int u - int k) mod 2 ^ 64" by (simp add: u_def)
  show ?thesis
  proof (cases "k \<le> u")
    case True
    then have "(int u - int k) mod 2 ^ 64 = int u - int k" using x by (intro mod_pos_pos_trivial) auto
    then have "v < n \<longleftrightarrow> k \<le> u \<and> u < k + n" using e True by linarith
    then show ?thesis by (simp add: v_def u_def)
  next
    case False
    have "(int u - int k) mod 2 ^ 64 = (int u - int k + 2 ^ 64) mod 2 ^ 64" by simp
    also have "\<dots> = int u - int k + 2 ^ 64" using False k by (intro mod_pos_pos_trivial) auto
    finally have "int v = int u - int k + 2 ^ 64" using e by simp
    then have "\<not> v < n" using False assms by simp
    then show ?thesis using False by (simp add: v_def u_def)
  qed
qed simp

lemma copied_then:
  assumes up: "copy_up_ok d s (k + n)" and len: "k + n \<le> 2 ^ 64"
  shows "copied (copied m d s k) (d + of_nat k) (s + of_nat k) n = copied m d s (k + n)"
proof
  fix a
  let ?x = "unat (a - d)"
  have w: "unat (a - (d + of_nat k)) < n \<longleftrightarrow> k \<le> ?x \<and> ?x < k + n"
    using offset_window [OF len, of "a - d"] by (simp only: diff_diff_eq)
  have r: "s + of_nat k + (a - (d + of_nat k)) = s + (a - d)" by simp
  have "copied m d s k (s + (a - d)) = m (s + (a - d))" if x: "k \<le> ?x" "?x < k + n"
  proof -
    have "\<not> unat (s + (a - d) - d) < k"
    proof
      assume "unat (s + (a - d) - d) < k"
      then have "unat (s + (a - d) - d) < ?x" using x(1) by (rule less_le_trans)
      then have "d + of_nat (unat (s + (a - d) - d)) \<noteq> s + of_nat ?x"
        using up x(2) unfolding copy_up_ok_def by blast
      then show False by (simp add: of_nat_unat_id)
    qed
    then show ?thesis by (simp add: copied_def)
  qed
  moreover have "copied (copied m d s k) (d + of_nat k) (s + of_nat k) n a =
      (if k \<le> ?x \<and> ?x < k + n then copied m d s k (s + (a - d)) else copied m d s k a)"
    unfolding copied_at [of "copied m d s k"] w r by (rule refl)
  ultimately show "copied (copied m d s k) (d + of_nat k) (s + of_nat k) n a = copied m d s (k + n) a"
    by (simp add: copied_at [of m d s _ a])
qed

lemma copy_forward_copied: "copy_up_ok d s n \<Longrightarrow> n \<le> 2 ^ 64 \<Longrightarrow> copy_forward n m d s = copied m d s n"
proof (induction n arbitrary: m d s)
  case (Suc n)
  have "copy_up_ok (d + 1) (s + 1) n" using copy_up_ok_rest [of d s 1 n] Suc.prems(1) by simp
  then show ?case using Suc copied_then [of d s 1 n m] by (simp add: copied_byte)
qed simp

lemma copy_backward_copied:
  "copy_down_ok d s n \<Longrightarrow> n \<le> 2 ^ 64 \<Longrightarrow> copy_backward n m (d + of_nat n) (s + of_nat n) = copied m d s n"
proof (induction n arbitrary: m)
  case (Suc n)
  have "copy_down_ok d s n" using Suc.prems(1) unfolding copy_down_ok_def by simp
  then have "copy_backward (Suc n) m (d + of_nat (Suc n)) (s + of_nat (Suc n)) =
      copied (m(d + of_nat n := m (s + of_nat n))) d s n"
    using Suc.IH Suc.prems(2) by (simp add: add.commute [of 1] add.assoc [symmetric])
  also have "\<dots> = copied m d s (Suc n)"
  proof
    fix a
    let ?x = "unat (a - d)"
    have n: "unat (of_nat n :: u64) = n" using Suc.prems(2) by (intro unat_of_nat_small) simp
    have "s + (a - d) \<noteq> d + of_nat n" if "?x < n"
      using Suc.prems(1) that unfolding copy_down_ok_def by (metis lessI of_nat_unat_id)
    moreover have "a = d + of_nat n \<longleftrightarrow> ?x = n"
      using n of_nat_unat_id [of "a - d"] by (metis add_diff_cancel_left' diff_add_cancel add.commute)
    ultimately show "copied (m(d + of_nat n := m (s + of_nat n))) d s n a = copied m d s (Suc n) a"
      by (auto simp: copied_def less_Suc_eq)
  qed
  finally show ?case .
qed simp

lemma copy_little_copied:
  assumes "copy_little n m d s = (n', m', d', s')" and "copy_up_ok d s n" and "n \<le> 2 ^ 64"
  shows "\<exists>k. n = k + n' \<and> m' = copied m d s k \<and> d' = d + of_nat k \<and> s' = s + of_nat k"
  using assms
proof (induction n arbitrary: m d s rule: less_induct)
  case (less n)
  show ?case
  proof (cases "8 \<le> n")
    case False
    then show ?thesis using less.prems(1) copy_little.simps [of n m d s] by (intro exI [of _ 0]) simp
  next
    case True
    have n: "n = 8 + (n - 8)" using True by simp
    have "copy_little (n - 8) (copied m d s 8) (d + 8) (s + 8) = (n', m', d', s')"
      using less.prems(1) True copy_little.simps [of n m d s] by (simp add: copied_long)
    moreover have "copy_up_ok (d + 8) (s + 8) (n - 8)" using copy_up_ok_rest [of d s 8 "n - 8"] less.prems(2) n by simp
    moreover have "n - 8 < n" "n - 8 \<le> 2 ^ 64" using True less.prems(3) by simp_all
    ultimately obtain k where k: "n - 8 = k + n'" "m' = copied (copied m d s 8) (d + 8) (s + 8) k"
        "d' = d + 8 + of_nat k" "s' = s + 8 + of_nat k"
      using less.IH [of "n - 8" "copied m d s 8" "d + 8" "s + 8"] by blast
    have "copy_up_ok d s (8 + k)" using less.prems(2) n k(1) unfolding copy_up_ok_def by simp
    then have "m' = copied m d s (8 + k)" using copied_then [of d s 8 k m] k(1,2) n less.prems(3) by simp
    then show ?thesis using k n by (intro exI [of _ "8 + k"]) simp
  qed
qed

lemma copy_long4_copied:
  assumes "copy_up_ok d s 32"
  shows "copy_long (copy_long (copy_long (copy_long m d s) (d + 8) (s + 8)) (d + 16) (s + 16)) (d + 24) (s + 24) =
         copied m d s 32"
proof -
  have up: "copy_up_ok d s n" if "n \<le> 32" for n using assms that unfolding copy_up_ok_def by auto
  show ?thesis unfolding copied_long
    using copied_then [of d s 8 8 m] copied_then [of d s 16 8 m] copied_then [of d s 24 8 m] up by simp
qed

lemma copy_big_copied:
  assumes "copy_big n m d s = (n', m', d', s')" and "copy_up_ok d s n" and "n \<le> 2 ^ 64"
  shows "\<exists>k. n = k + n' \<and> m' = copied m d s k \<and> d' = d + of_nat k \<and> s' = s + of_nat k"
  using assms
proof (induction n arbitrary: m d s rule: less_induct)
  case (less n)
  show ?case
  proof (cases "32 \<le> n")
    case False
    then show ?thesis using less.prems(1) copy_big.simps [of n m d s] by (intro exI [of _ 0]) simp
  next
    case True
    have n: "n = 32 + (n - 32)" using True by simp
    have "copy_up_ok d s 32" using less.prems(2) True unfolding copy_up_ok_def by auto
    then have "copy_big (n - 32) (copied m d s 32) (d + 32) (s + 32) = (n', m', d', s')"
      using less.prems(1) True copy_big.simps [of n m d s] by (simp add: copy_long4_copied Let_def)
    moreover have "copy_up_ok (d + 32) (s + 32) (n - 32)" using copy_up_ok_rest [of d s 32 "n - 32"] less.prems(2) n by simp
    moreover have "n - 32 < n" "n - 32 \<le> 2 ^ 64" using True less.prems(3) by simp_all
    ultimately obtain k where k: "n - 32 = k + n'" "m' = copied (copied m d s 32) (d + 32) (s + 32) k"
        "d' = d + 32 + of_nat k" "s' = s + 32 + of_nat k"
      using less.IH [of "n - 32" "copied m d s 32" "d + 32" "s + 32"] by blast
    have "copy_up_ok d s (32 + k)" using less.prems(2) n k(1) unfolding copy_up_ok_def by simp
    then have "m' = copied m d s (32 + k)" using copied_then [of d s 32 k m] k(1,2) n less.prems(3) by simp
    then show ?thesis using k n by (intro exI [of _ "32 + k"]) simp
  qed
qed

lemma copy_fast_copied:
  assumes up: "copy_up_ok d s n" and len: "n \<le> 2 ^ 64"
  shows "copy_fast n m d s = copied m d s n"
proof (cases "\<not> n < 32 \<and> \<not> UNALIGNED2 s d")
  case True
  obtain n1 m1 d1 s1 where b: "copy_big n m d s = (n1, m1, d1, s1)" by (metis prod_cases4)
  obtain n2 m2 d2 s2 where l: "copy_little n1 m1 d1 s1 = (n2, m2, d2, s2)" by (metis prod_cases4)
  obtain k where k: "n = k + n1" "m1 = copied m d s k" "d1 = d + of_nat k" "s1 = s + of_nat k"
    using copy_big_copied [OF b up len] by blast
  have up1: "copy_up_ok d1 s1 n1" using copy_up_ok_rest up k by simp
  have "n1 \<le> 2 ^ 64" using len k(1) by simp
  then obtain j where j: "n1 = j + n2" "m2 = copied m1 d1 s1 j" "d2 = d1 + of_nat j" "s2 = s1 + of_nat j"
    using copy_little_copied [OF l up1] by blast
  have "copy_forward n2 m2 d2 s2 = copied m2 d2 s2 n2"
    using copy_up_ok_rest [of d1 s1 j n2] up1 j len k(1) by (intro copy_forward_copied) simp_all
  also have "\<dots> = copied m1 d1 s1 n1" unfolding j(2-4) using copied_then [of d1 s1 j n2 m1] up1 j(1) len k(1) by simp
  also have "\<dots> = copied m d s n" unfolding k(2-4) using copied_then [of d s k n1 m] up len k(1) by simp
  finally show ?thesis using True b l by (simp add: copy_fast_def)
next
  case False
  then show ?thesis using copy_forward_copied [OF up len] by (auto simp: copy_fast_def)
qed

lemma no_overlap_up:
  assumes "unat d + n < 2 ^ 64" and "unat s + n < 2 ^ 64" and "\<not> (s < d \<and> d < s + of_nat n)"
  shows "copy_up_ok d s n"
  unfolding copy_up_ok_def
proof (intro allI impI notI)
  fix i j
  assume ij: "i < j" "j < n" and eq: "d + of_nat i = s + of_nat j"
  have "unat d + i = unat s + j"
    using unat_offset [of d i] unat_offset [of s j] eq ij assms(1,2) by simp
  then have "s < d" "d < s + of_nat n"
    using ij unat_offset [of s n] assms(2) by (simp_all add: word_less_nat_alt)
  then show False using assms(3) by blast
qed

lemma overlap_down:
  assumes "unat d + n < 2 ^ 64" and "unat s + n < 2 ^ 64" and "s < d"
  shows "copy_down_ok d s n"
  unfolding copy_down_ok_def
proof (intro allI impI notI)
  fix i j
  assume ij: "i < j" "j < n" and eq: "d + of_nat j = s + of_nat i"
  have "unat d + j = unat s + i"
    using unat_offset [of d j] unat_offset [of s i] eq ij assms(1,2) by simp
  then show False using ij assms(3) by (simp add: word_less_nat_alt)
qed

section \<open>Filling\<close>

definition filled :: "memory \<Rightarrow> ptr \<Rightarrow> u8 \<Rightarrow> nat \<Rightarrow> memory" where
  "filled m s c n = (\<lambda>a. if unat (a - s) < n then c else m a)"

lemma filled_0 [simp]: "filled m s c 0 = m"
  by (simp add: filled_def)

lemma filled_byte: "m(s := c) = filled m s c 1"
  by (auto simp: filled_def fun_eq_iff unat_eq_0)

lemma filled_then:
  assumes "k + n \<le> 2 ^ 64"
  shows "filled (filled m s c k) (s + of_nat k) c n = filled m s c (k + n)"
proof
  fix a
  have w: "unat (a - (s + of_nat k)) < n \<longleftrightarrow> k \<le> unat (a - s) \<and> unat (a - s) < k + n"
    using offset_window [OF assms, of "a - s"] by (simp only: diff_diff_eq)
  show "filled (filled m s c k) (s + of_nat k) c n a = filled m s c (k + n) a"
    unfolding filled_def w by auto
qed

lemma fill_bytes_filled: "n \<le> 2 ^ 64 \<Longrightarrow> fill_bytes n m s c = filled m s c n"
proof (induction n arbitrary: m s)
  case (Suc n)
  then show ?case using filled_then [of 1 n m s c] by (simp add: filled_byte)
qed simp

lemma fill_to_boundary_filled:
  assumes "n \<le> 2 ^ 64"
  shows "case fill_to_boundary n m s c of
           (m1, None) \<Rightarrow> m1 = filled m s c n
         | (m1, Some (n1, s1)) \<Rightarrow> \<exists>k. n = k + n1 \<and> m1 = filled m s c k \<and> s1 = s + of_nat k"
  using assms
proof (induction n arbitrary: m s)
  case (Suc n)
  show ?case
  proof (cases "UNALIGNED s")
    case True
    let ?m = "filled m s c 1"
    have step: "fill_to_boundary (Suc n) m s c = fill_to_boundary n ?m (s + 1) c"
      using True by (simp add: filled_byte)
    have then1: "filled ?m (s + 1) c j = filled m s c (Suc j)" if "j \<le> n" for j
      using filled_then [of 1 j m s c] that Suc.prems by simp
    show ?thesis
    proof (cases "snd (fill_to_boundary n ?m (s + 1) c)")
      case None
      then obtain m1 where r: "fill_to_boundary n ?m (s + 1) c = (m1, None)" by (metis prod.collapse)
      then have "m1 = filled ?m (s + 1) c n" using Suc.IH [of ?m "s + 1"] Suc.prems by simp
      then show ?thesis using step r then1 [of n] by simp
    next
      case (Some x)
      obtain m1 n1 s1 where r: "fill_to_boundary n ?m (s + 1) c = (m1, Some (n1, s1))"
        using Some by (metis prod.collapse)
      then obtain k where "n = k + n1" "m1 = filled ?m (s + 1) c k" "s1 = s + 1 + of_nat k"
        using Suc.IH [of ?m "s + 1"] Suc.prems by auto
      then show ?thesis using step r then1 [of k] by (auto intro!: exI [of _ "Suc k"] simp: add_ac)
    qed
  qed (auto intro: exI [of _ 0])
qed (auto split: if_splits)

lemma byte_of_drop: "byte_of v i = ucast (drop_bit (8 * i) v)"
proof (rule unsigned_word_eqI)
  have "unat (byte_of v i) = unat v div 2 ^ (8 * i) mod 256"
    by (simp add: byte_of_def unat_of_nat power_mult)
  also have "\<dots> = unat (ucast (drop_bit (8 * i) v) :: u8)"
    using unsigned_less [of v, where 'a = nat]
    by (simp only: unsigned_ucast_eq unsigned_drop_bit_eq) (simp add: drop_bit_eq_div take_bit_eq_mod)
  finally show "unat (byte_of v i) = unat (ucast (drop_bit (8 * i) v) :: u8)" .
qed

lemma fill_pattern_byte:
  assumes "i < 8"
  shows "byte_of (fill_pattern c) i = ucast c"
proof (rule bit_word_eqI)
  fix j
  have ff: "c AND 0xff = take_bit 8 c" by (simp add: take_bit_eq_mask mask_numeral)
  assume "j < LENGTH(8)"
  moreover have "i = 0 \<or> i = 1 \<or> i = 2 \<or> i = 3 \<or> i = 4 \<or> i = 5 \<or> i = 6 \<or> i = 7" using assms by auto
  ultimately show "bit (byte_of (fill_pattern c) i) j = bit (ucast c :: u8) j"
    unfolding byte_of_drop fill_pattern_def Let_def ff
    by (elim disjE) (simp_all add: bit_simps)
qed

lemma filled_long: "store_long m s (fill_pattern c) = filled m s (ucast c) 8"
  by (auto simp: store_long_def filled_def fill_pattern_byte fun_eq_iff)

lemma filled_long4:
  "store_long (store_long (store_long (store_long m s (fill_pattern c)) (s + 8) (fill_pattern c))
     (s + 16) (fill_pattern c)) (s + 24) (fill_pattern c) = filled m s (ucast c) 32"
  unfolding filled_long
  using filled_then [of 8 8 m s "ucast c"] filled_then [of 16 8 m s "ucast c"] filled_then [of 24 8 m s "ucast c"]
  by simp

text \<open>A loop that fills \<open>w\<close> bytes in each step.\<close>

lemma fill_loop:
  assumes step: "\<And>n m s. loop n m s = (if w \<le> n then loop (n - w) (filled m s c w) (s + of_nat w) else (n, m, s))"
    and w: "0 < w" and "n \<le> 2 ^ 64" and "loop n m s = (n', m', s')"
  shows "\<exists>k. n = k + n' \<and> m' = filled m s c k \<and> s' = s + of_nat k"
  using assms(3,4)
proof (induction n arbitrary: m s rule: less_induct)
  case (less n)
  show ?case
  proof (cases "w \<le> n")
    case False
    then show ?thesis using less.prems(2) step [of n m s] by (intro exI [of _ 0]) simp
  next
    case True
    then have "loop (n - w) (filled m s c w) (s + of_nat w) = (n', m', s')" using less.prems(2) step [of n m s] by simp
    moreover have "n - w < n" "n - w \<le> 2 ^ 64" using True w less.prems(1) by linarith+
    ultimately obtain k where k: "n - w = k + n'" "m' = filled (filled m s c w) (s + of_nat w) c k"
        "s' = s + of_nat w + of_nat k"
      using less.IH by blast
    moreover have "m' = filled m s c (w + k)" using filled_then [of w k m s c] k(1,2) True less.prems(1) by simp
    ultimately show ?thesis using True by (intro exI [of _ "w + k"]) simp
  qed
qed

lemma fill_loops:
  assumes "n \<le> 2 ^ 64"
  shows "fill_big n m s (fill_pattern c) = (n', m', s') \<Longrightarrow>
           \<exists>k. n = k + n' \<and> m' = filled m s (ucast c) k \<and> s' = s + of_nat k"
    and "fill_little n m s (fill_pattern c) = (n', m', s') \<Longrightarrow>
           \<exists>k. n = k + n' \<and> m' = filled m s (ucast c) k \<and> s' = s + of_nat k"
proof -
  have big: "fill_big n m s (fill_pattern c) =
      (if 32 \<le> n then fill_big (n - 32) (filled m s (ucast c) 32) (s + of_nat 32) (fill_pattern c) else (n, m, s))" for n m s
    by (subst fill_big.simps) (simp add: filled_long4 Let_def)
  have little: "fill_little n m s (fill_pattern c) =
      (if 8 \<le> n then fill_little (n - 8) (filled m s (ucast c) 8) (s + of_nat 8) (fill_pattern c) else (n, m, s))" for n m s
    by (subst fill_little.simps) (simp add: filled_long)
  show "fill_big n m s (fill_pattern c) = (n', m', s') \<Longrightarrow>
      \<exists>k. n = k + n' \<and> m' = filled m s (ucast c) k \<and> s' = s + of_nat k"
    using fill_loop [OF big _ assms] by simp
  show "fill_little n m s (fill_pattern c) = (n', m', s') \<Longrightarrow>
      \<exists>k. n = k + n' \<and> m' = filled m s (ucast c) k \<and> s' = s + of_nat k"
    using fill_loop [OF little _ assms] by simp
qed

lemma memset_filled:
  assumes n: "n \<le> 2 ^ 64"
  shows "memset m s c n = (filled m s (ucast c) n, s)"
proof (cases "snd (fill_to_boundary n m s (ucast c))")
  case None
  then show ?thesis using fill_to_boundary_filled [OF n, of m s "ucast c"]
    by (auto simp: memset_def split: prod.splits)
next
  case (Some x)
  obtain m1 n1 s1 where r: "fill_to_boundary n m s (ucast c) = (m1, Some (n1, s1))"
    using Some by (metis prod.collapse)
  then obtain k where k: "n = k + n1" "m1 = filled m s (ucast c) k" "s1 = s + of_nat k"
    using fill_to_boundary_filled [OF n, of m s "ucast c"] by auto
  have le: "n1 \<le> 2 ^ 64" using n k(1) by simp
  have all: "filled m1 s1 (ucast c) n1 = filled m s (ucast c) n" unfolding k(2,3) using filled_then [of k n1] n k(1) by simp
  show ?thesis
  proof (cases "n1 < 8")
    case True
    then show ?thesis using r all fill_bytes_filled [OF le] by (simp add: memset_def)
  next
    case False
    obtain n2 m2 s2 where b: "fill_big n1 m1 s1 (fill_pattern c) = (n2, m2, s2)" by (metis prod_cases3)
    obtain n3 m3 s3 where l: "fill_little n2 m2 s2 (fill_pattern c) = (n3, m3, s3)" by (metis prod_cases3)
    obtain j where j: "n1 = j + n2" "m2 = filled m1 s1 (ucast c) j" "s2 = s1 + of_nat j"
      using fill_loops(1) [OF le b] by blast
    have le2: "n2 \<le> 2 ^ 64" using le j(1) by simp
    obtain i where i: "n2 = i + n3" "m3 = filled m2 s2 (ucast c) i" "s3 = s2 + of_nat i"
      using fill_loops(2) [OF le2 l] by blast
    have "fill_bytes n3 m3 s3 (ucast c) = filled m3 s3 (ucast c) n3" using le2 i(1) by (intro fill_bytes_filled) simp
    also have "\<dots> = filled m2 s2 (ucast c) n2" unfolding i(2,3) using filled_then [of i n3] le2 i(1) by simp
    also have "\<dots> = filled m1 s1 (ucast c) n1" unfolding j(2,3) using filled_then [of j n2] le j(1) by simp
    finally show ?thesis using r b l False all by (simp add: memset_def)
  qed
qed

section \<open>Comparing\<close>

lemma compare_bytes_skip:
  "\<forall>i < k. m (p + of_nat i) = m (q + of_nat i) \<Longrightarrow>
   compare_bytes (k + n) m p q = compare_bytes n m (p + of_nat k) (q + of_nat k)"
proof (induction k arbitrary: p q)
  case (Suc k)
  have "m p = m q" using spec [OF Suc.prems, of 0] by simp
  moreover have "\<forall>i < k. m (p + 1 + of_nat i) = m (q + 1 + of_nat i)"
  proof (intro allI impI)
    fix i
    assume "i < k"
    then have "m (p + of_nat (Suc i)) = m (q + of_nat (Suc i))" using Suc.prems by blast
    then show "m (p + 1 + of_nat i) = m (q + 1 + of_nat i)" by (simp add: add.assoc)
  qed
  ultimately show ?case using Suc.IH [of "p + 1" "q + 1"] by (simp add: add.assoc)
qed simp

lemma skip_equal_longs_same:
  "skip_equal_longs n m p q = (n', p', q') \<Longrightarrow> compare_bytes n' m p' q' = compare_bytes n m p q"
proof (induction n m p q rule: skip_equal_longs.induct)
  case (1 n m p q)
  show ?case
  proof (cases "8 \<le> n \<and> load_long m p = load_long m q")
    case True
    then have "skip_equal_longs (n - 8) m (p + 8) (q + 8) = (n', p', q')"
      using "1.prems" skip_equal_longs.simps [of n m p q] by simp
    moreover have "compare_bytes n m p q = compare_bytes (n - 8) m (p + 8) (q + 8)"
      using compare_bytes_skip [of 8 m p q "n - 8"] True by (simp add: load_long_eq_iff)
    ultimately show ?thesis using "1.IH" True by simp
  next
    case False
    then show ?thesis using "1.prems" skip_equal_longs.simps [of n m p q] by auto
  qed
qed

lemma memcmp_small_eq: "memcmp m p q n = memcmp_small m p q n"
  using skip_equal_longs_same [of n m p q]
  by (auto simp: memcmp_def memcmp_small_def split: prod.splits)

lemma byte_diff_sign: "byte_diff a b < 0 \<longleftrightarrow> a < b" "byte_diff a b = 0 \<longleftrightarrow> a = b"
  by (simp_all add: byte_diff_def word_less_def word_uint_eq_iff)

text \<open>The sign of the result is that of the first difference.\<close>

lemma compare_bytes_sign:
  "(compare_bytes n m p q < 0 \<longleftrightarrow>
      (\<exists>k < n. (\<forall>i < k. m (p + of_nat i) = m (q + of_nat i)) \<and> m (p + of_nat k) < m (q + of_nat k))) \<and>
   (compare_bytes n m p q = 0 \<longleftrightarrow> (\<forall>i < n. m (p + of_nat i) = m (q + of_nat i)))"
proof (cases "\<forall>i < n. m (p + of_nat i) = m (q + of_nat i)")
  case True
  then have "compare_bytes (n + 0) m p q = 0" by (subst compare_bytes_skip) auto
  then show ?thesis using True by auto
next
  case False
  define k where "k = (LEAST i. i < n \<and> m (p + of_nat i) \<noteq> m (q + of_nat i))"
  have k: "k < n" "m (p + of_nat k) \<noteq> m (q + of_nat k)"
    using False LeastI_ex [of "\<lambda>i. i < n \<and> m (p + of_nat i) \<noteq> m (q + of_nat i)"] unfolding k_def by auto
  have eq: "\<forall>i < k. m (p + of_nat i) = m (q + of_nat i)"
    using not_less_Least k(1) unfolding k_def by (metis (mono_tags, lifting) order.strict_trans)
  obtain r where r: "n = k + Suc r" using k(1) less_imp_Suc_add by auto
  have d: "compare_bytes n m p q = byte_diff (m (p + of_nat k)) (m (q + of_nat k))"
    unfolding r using compare_bytes_skip [OF eq, of "Suc r"] k(2) by (simp del: add_Suc_right)
  have "(\<forall>i < j. m (p + of_nat i) = m (q + of_nat i)) \<and> m (p + of_nat j) < m (q + of_nat j) \<longleftrightarrow>
      j = k \<and> m (p + of_nat k) < m (q + of_nat k)" for j
    using eq k(2) by (metis less_irrefl linorder_neqE_nat)
  then show ?thesis using d k False by (auto simp: byte_diff_sign)
qed

section \<open>The null byte test\<close>

lemma and_low_byte:
  fixes p q r s :: int
  assumes "0 \<le> p" "p < 256" "0 \<le> r" "r < 256"
  shows "(p + 256 * q) AND (r + 256 * s) = (p AND r) + 256 * (q AND s)"
proof -
  have c: "x + 256 * y = concat_bit 8 x y" if "0 \<le> x" "x < 256" for x y :: int
    using that by (simp add: concat_bit_eq take_bit_int_eq_self push_bit_eq_mult)
  have "0 \<le> p AND r" "p AND r < 256" using assms by (simp_all add: AND_upper2'')
  then have "(p AND r) + 256 * (q AND s) = concat_bit 8 (p AND r) (q AND s)" by (rule c)
  also have "\<dots> = concat_bit 8 p q AND concat_bit 8 r s"
    by (rule bit_eqI) (auto simp: bit_simps bit_concat_bit_iff)
  finally show ?thesis using c assms by simp
qed

fun ones :: "nat \<Rightarrow> int" where
  "ones 0 = 0"
| "ones (Suc n) = 1 + 256 * ones n"

lemma null_test_int:
  "(int (le_nat bs) - ones (length bs)) AND NOT (int (le_nat bs)) AND (128 * ones (length bs)) = 0 \<longleftrightarrow>
   0 \<notin> set bs"
proof (induction bs)
  case (Cons b bs)
  let ?y = "int (le_nat bs)" and ?n = "length bs"
  have b: "0 \<le> uint b" "uint b < 256" using unsigned_less [of b, where 'a = int] by simp_all
  let ?le = "int (le_nat (b # bs))"
  have le: "?le = uint b + 256 * ?y" by simp
  have n: "NOT ?le = (255 - uint b) + 256 * NOT ?y" by (simp add: not_int_def)
  have m: "128 * ones (length (b # bs)) = 128 + 256 * (128 * ones ?n)" by simp
  have conj: "(p + 256 * A) AND (q + 256 * B) AND (128 + 256 * C) = (p AND q AND 128) + 256 * (A AND B AND C)"
    if "0 \<le> p" "p < 256" "0 \<le> q" "q < 256" for p q A B C :: int
    using that by (simp add: and_low_byte AND_upper2'')
  show ?case
  proof (cases "b = 0")
    case True
    have "?le - ones (length (b # bs)) = 255 + 256 * (?y - ones ?n - 1)" using True by simp
    then have "(?le - ones (length (b # bs))) AND NOT ?le AND (128 * ones (length (b # bs))) =
        (255 AND (255 - uint b) AND 128) + 256 * ((?y - ones ?n - 1) AND NOT ?y AND (128 * ones ?n))"
      unfolding n m using b by (simp only: conj)
    moreover have "128 + 256 * x \<noteq> 0" for x :: int by presburger
    ultimately show ?thesis using True by (simp only:) simp
  next
    case False
    have "uint b \<noteq> 0" using False by (simp add: word_uint_eq_iff)
    then have pos: "1 \<le> uint b" using b by linarith
    have "?le - ones (length (b # bs)) = (uint b - 1) + 256 * (?y - ones ?n)" by simp
    then have "(?le - ones (length (b # bs))) AND NOT ?le AND (128 * ones (length (b # bs))) =
        ((uint b - 1) AND (255 - uint b) AND 128) + 256 * ((?y - ones ?n) AND NOT ?y AND (128 * ones ?n))"
      unfolding n m using pos b by (simp only:) (rule conj; linarith)
    moreover have "(uint b - 1) AND (255 - uint b) AND 128 = 0"
    proof -
      have "\<forall>x \<in> {1..255}. ((x::int) - 1) AND (255 - x) AND 128 = 0" by code_simp
      then show ?thesis using pos b by auto
    qed
    ultimately show ?thesis using Cons.IH False by (simp only:) simp
  qed
qed simp

lemma DETECTNULL_iff: "DETECTNULL (load_long m p) \<longleftrightarrow> (\<exists>i < 8. m (p + of_nat i) = 0)"
proof -
  let ?bs = "bytes_at m p 8" and ?x = "load_long m p"
  have len: "length ?bs = 8" by (simp add: bytes_at_def)
  have o: "ones 8 = 0x0101010101010101" by (simp add: numeral_eq_Suc)
  have x: "uint ?x = int (le_nat ?bs)" using unat_load_long [of m p] by (metis uint_nat)
  have "(?x - 0x0101010101010101) AND NOT ?x AND 0x8080808080808080 =
      word_of_int ((uint ?x - 0x0101010101010101) AND NOT (uint ?x) AND 0x8080808080808080)"
    by (simp add: of_int_and_eq of_int_not_eq)
  moreover have "word_of_int (y AND 0x8080808080808080) = (0 :: u64) \<longleftrightarrow> y AND 0x8080808080808080 = 0" for y :: int
  proof -
    define z where "z = y AND 0x8080808080808080"
    have "0 \<le> z" "z \<le> 0x8080808080808080" by (simp_all add: z_def AND_upper2)
    then have "2 ^ 64 dvd z \<longleftrightarrow> z = 0" using zdvd_not_zless [of z "2 ^ 64"] by auto
    then show ?thesis unfolding z_def [symmetric] by (simp add: word_of_int_eq_0_iff)
  qed
  ultimately have "DETECTNULL ?x \<longleftrightarrow> (uint ?x - 0x0101010101010101) AND NOT (uint ?x) AND 0x8080808080808080 \<noteq> 0"
    by (simp add: DETECTNULL_def and.assoc [symmetric])
  also have "\<dots> \<longleftrightarrow> 0 \<in> set ?bs"
    using null_test_int [of ?bs] unfolding len o x by simp
  also have "\<dots> \<longleftrightarrow> (\<exists>i < 8. m (p + of_nat i) = 0)" by (force simp: bytes_at_def)
  finally show ?thesis .
qed

end
