(* ===== verification/Kern_Libc_Strings.thy ===== *)
theory Kern_Libc_Strings
  imports Kern_Libc_Memory
begin

text \<open>
  The string routines of the kernel and the correctness of all memory and string routines.
\<close>

section \<open>Strings\<close>

lemma offset_Suc: "(p :: u64) + of_nat (Suc i) = p + 1 + of_nat i"
  by (simp add: add.assoc)

lemma copy_up_okD: "copy_up_ok d s n \<Longrightarrow> i < j \<Longrightarrow> j < n \<Longrightarrow> d + of_nat i \<noteq> s + of_nat j"
  by (simp add: copy_up_ok_def)

lemma copy_string_skip:
  assumes "\<forall>i < k. m (s + of_nat i) \<noteq> 0" and "copy_up_ok d s (k + n)" and "k + n \<le> 2 ^ 64"
  shows "copy_string (k + n) m d s = copy_string n (copied m d s k) (d + of_nat k) (s + of_nat k)"
  using assms
proof (induction k arbitrary: m d s)
  case (Suc k)
  let ?m = "copied m d s 1"
  have "m s \<noteq> 0" using spec [OF Suc.prems(1), of 0] by simp
  moreover have "?m (s + 1 + of_nat i) = m (s + 1 + of_nat i)" if "i < k" for i
  proof -
    have "d + of_nat 0 \<noteq> s + of_nat (Suc i)" by (rule copy_up_okD [OF Suc.prems(2)]) (use that in simp_all)
    then have "d \<noteq> s + 1 + of_nat i" unfolding offset_Suc by simp
    then show ?thesis unfolding copied_byte [symmetric] by simp
  qed
  then have "\<forall>i < k. ?m (s + 1 + of_nat i) \<noteq> 0" using Suc.prems(1) by (metis Suc_less_eq offset_Suc)
  moreover have "copy_up_ok (d + 1) (s + 1) (k + n)" using copy_up_ok_rest [of d s 1 "k + n"] Suc.prems(2) by simp
  ultimately have "copy_string (Suc k + n) m d s =
      copy_string n (copied ?m (d + 1) (s + 1) k) (d + 1 + of_nat k) (s + 1 + of_nat k)"
    using Suc.IH [of ?m "s + 1" "d + 1"] Suc.prems(3) by (simp add: copied_byte)
  moreover have "copy_up_ok d s (1 + k)" using Suc.prems(2) unfolding copy_up_ok_def by simp
  then have "copied ?m (d + 1) (s + 1) k = copied m d s (Suc k)"
    using copied_then [of d s 1 k m] Suc.prems(3) by simp
  ultimately show ?case by (simp add: add.assoc)
qed simp

definition strncpy_mem :: "nat \<Rightarrow> memory \<Rightarrow> ptr \<Rightarrow> ptr \<Rightarrow> memory" where
  "strncpy_mem n m d s = (let (k, m1, d1) = copy_string n m d s in fill_bytes k m1 d1 0)"

lemma copy_string_longs_same:
  assumes "copy_string_longs n m d s = (n', m', d', s')" and "copy_up_ok d s n" and "n \<le> 2 ^ 64"
  shows "strncpy_mem n' m' d' s' = strncpy_mem n m d s"
  using assms
proof (induction n m d s rule: copy_string_longs.induct)
  case (1 n m d s)
  show ?case
  proof (cases "8 \<le> n \<and> \<not> DETECTNULL (load_long m s)")
    case True
    have n: "8 + (n - 8) = n" using True by simp
    have step: "copy_string_longs (n - 8) (copied m d s 8) (d + 8) (s + 8) = (n', m', d', s')"
      using "1.prems"(1) True copy_string_longs.simps [of n m d s] by (simp add: copied_long)
    have "copy_string (8 + (n - 8)) m d s = copy_string (n - 8) (copied m d s 8) (d + of_nat 8) (s + of_nat 8)"
      using True "1.prems"(2,3) by (intro copy_string_skip) (simp_all add: DETECTNULL_iff)
    then have "strncpy_mem n m d s = strncpy_mem (n - 8) (copied m d s 8) (d + 8) (s + 8)"
      using n by (simp add: strncpy_mem_def)
    moreover have "copy_up_ok (d + 8) (s + 8) (n - 8)"
      using copy_up_ok_rest [of d s 8 "n - 8"] "1.prems"(2) n by simp
    ultimately show ?thesis using "1.IH" True step "1.prems"(3) by (simp add: copied_long)
  next
    case False
    then show ?thesis using "1.prems"(1) copy_string_longs.simps [of n m d s] by auto
  qed
qed

text \<open>The string at \<open>s\<close>, padded with null bytes.\<close>

definition padded :: "memory \<Rightarrow> ptr \<Rightarrow> nat \<Rightarrow> u8" where
  "padded m s i = (if \<exists>j \<le> i. m (s + of_nat j) = 0 then 0 else m (s + of_nat i))"

definition string_copied :: "memory \<Rightarrow> ptr \<Rightarrow> ptr \<Rightarrow> nat \<Rightarrow> memory" where
  "string_copied m d s n = (\<lambda>a. if unat (a - d) < n then padded m s (unat (a - d)) else m a)"

lemma strncpy_mem_copied:
  assumes up: "copy_up_ok d s n" and len: "n \<le> 2 ^ 64"
  shows "strncpy_mem n m d s = string_copied m d s n"
proof (cases "\<exists>i < n. m (s + of_nat i) = 0")
  case False
  then have nz: "\<forall>i < n. m (s + of_nat i) \<noteq> 0" by blast
  have "copy_string (n + 0) m d s = (0, copied m d s n, d + of_nat n)"
    using copy_string_skip [OF nz, of d 0] up len by simp
  then have "strncpy_mem n m d s = copied m d s n" by (simp add: strncpy_mem_def)
  also have "\<dots> = string_copied m d s n"
  proof
    fix a
    have "padded m s i = m (s + of_nat i)" if "i < n" for i using nz that by (auto simp: padded_def)
    then show "copied m d s n a = string_copied m d s n a" by (simp add: copied_at string_copied_def of_nat_unat_id)
  qed
  finally show ?thesis .
next
  case True
  define k where "k = (LEAST i. i < n \<and> m (s + of_nat i) = 0)"
  have k: "k < n" "m (s + of_nat k) = 0"
    using True LeastI_ex [of "\<lambda>i. i < n \<and> m (s + of_nat i) = 0"] unfolding k_def by auto
  have nz: "\<forall>i < k. m (s + of_nat i) \<noteq> 0"
    using not_less_Least k(1) unfolding k_def by (metis (mono_tags, lifting) order.strict_trans)
  obtain r where r: "n = k + Suc r" using k(1) less_imp_Suc_add by auto
  have same: "copied m d s k (s + of_nat k) = 0"
  proof -
    have "\<not> unat (s + of_nat k - d) < k"
      using copy_up_okD [OF up _ k(1), of "unat (s + of_nat k - d)"] by (auto simp: of_nat_unat_id)
    then show ?thesis using k(2) by (simp add: copied_at)
  qed
  have "copy_string n m d s = (r, (copied m d s k)(d + of_nat k := 0), d + of_nat k + 1)"
    unfolding r using copy_string_skip [OF nz, of d "Suc r"] up len r same by (simp del: add_Suc_right)
  then have "strncpy_mem n m d s = filled (filled (copied m d s k) (d + of_nat k) 0 1) (d + of_nat k + 1) 0 r"
    using fill_bytes_filled [of r] r len by (simp add: strncpy_mem_def filled_byte)
  also have "\<dots> = filled (copied m d s k) (d + of_nat k) 0 (1 + r)"
    using filled_then [of 1 r "copied m d s k" "d + of_nat k" 0] r len by simp
  also have "\<dots> = string_copied m d s n"
  proof
    fix a
    let ?x = "unat (a - d)"
    have w: "unat (a - (d + of_nat k)) < 1 + r \<longleftrightarrow> k \<le> ?x \<and> ?x < n"
      using offset_window [of k "1 + r" "a - d"] r len by (simp only: diff_diff_eq) simp
    have "padded m s i = (if i < k then m (s + of_nat i) else 0)" for i
      using k(2) nz le_less_trans [of _ i k] unfolding padded_def by (metis not_less)
    then show "filled (copied m d s k) (d + of_nat k) 0 (1 + r) a = string_copied m d s n a"
      unfolding filled_def w string_copied_def using k(1) by (auto simp: copied_at of_nat_unat_id)
  qed
  finally show ?thesis .
qed

lemma strncpy_copied:
  assumes up: "copy_up_ok d s n" and len: "n \<le> 2 ^ 64"
  shows "strncpy m d s n = (string_copied m d s n, d)" and "strncpy_small m d s n = (string_copied m d s n, d)"
proof -
  obtain n1 m1 d1 s1 where l: "copy_string_longs n m d s = (n1, m1, d1, s1)" by (metis prod_cases4)
  have "strncpy m d s n = (strncpy_mem n m d s, d)"
    using copy_string_longs_same [OF l up len] l
    by (cases "\<not> UNALIGNED2 s d \<and> \<not> n < 8") (auto simp: strncpy_def strncpy_mem_def split: prod.splits)
  then show "strncpy m d s n = (string_copied m d s n, d)" using strncpy_mem_copied [OF up len] by simp
  show "strncpy_small m d s n = (string_copied m d s n, d)"
    using strncpy_mem_copied [OF up len, of m] by (auto simp: strncpy_small_def strncpy_mem_def split: prod.splits)
qed

section \<open>Comparing strings\<close>

lemma byte_diff_same [simp]: "byte_diff a a = 0"
  by (simp add: byte_diff_def)

lemma strncmp_small_bytes: "n \<noteq> 0 \<Longrightarrow> strncmp_small m p q n = strncmp_bytes n m p q"
proof (induction n m p q rule: strncmp_bytes.induct)
  case (2 n m p q)
  then show ?case by (auto simp: strncmp_small_def split: prod.splits)
qed simp

lemma strncmp_bytes_skip:
  assumes "\<forall>i < k. m (p + of_nat i) = m (q + of_nat i)" and "\<forall>i < k. m (p + of_nat i) \<noteq> 0" and "n \<noteq> 0"
  shows "strncmp_bytes (k + n) m p q = strncmp_bytes n m (p + of_nat k) (q + of_nat k)"
  using assms
proof (induction k arbitrary: p q)
  case (Suc k)
  have "m p = m q" "m p \<noteq> 0" using spec [OF Suc.prems(1), of 0] spec [OF Suc.prems(2), of 0] by simp_all
  moreover have "\<forall>i < k. m (p + 1 + of_nat i) = m (q + 1 + of_nat i)" "\<forall>i < k. m (p + 1 + of_nat i) \<noteq> 0"
    using Suc.prems(1,2) by (metis Suc_less_eq offset_Suc)+
  ultimately show ?case using Suc.IH [of "p + 1" "q + 1"] Suc.prems(3) unfolding offset_Suc by simp
qed simp

lemma strncmp_bytes_zero:
  assumes "\<forall>i < k. m (p + of_nat i) = m (q + of_nat i)" and "k \<noteq> 0" and "n = 0 \<or> (\<exists>i < k. m (p + of_nat i) = 0)"
  shows "strncmp_bytes (k + n) m p q = 0"
  using assms
proof (induction k arbitrary: p q)
  case (Suc k)
  have eq: "m p = m q" using spec [OF Suc.prems(1), of 0] by simp
  show ?case
  proof (cases "m p = 0 \<or> k + n = 0")
    case True
    then show ?thesis using eq by auto
  next
    case False
    have e: "\<forall>i < k. m (p + 1 + of_nat i) = m (q + 1 + of_nat i)"
      using Suc.prems(1) by (metis Suc_less_eq offset_Suc)
    have z: "n = 0 \<or> (\<exists>i < k. m (p + 1 + of_nat i) = 0)"
    proof (cases "n = 0")
      case nz: False
      then obtain i where i: "i < Suc k" "m (p + of_nat i) = 0" using Suc.prems(3) by blast
      then obtain j where "i = Suc j" using False by (cases i) auto
      then have "j < k" "m (p + 1 + of_nat j) = 0" using i by (simp_all add: offset_Suc del: of_nat_Suc)
      then show ?thesis by blast
    qed simp
    then have "k \<noteq> 0" using False by auto
    then show ?thesis using Suc.IH [OF e _ z] False eq by simp
  qed
qed simp

lemma strncmp_longs_same:
  "n \<noteq> 0 \<Longrightarrow> strncmp_bytes n m p q =
     (case strncmp_longs n m p q of Inl r \<Rightarrow> r | Inr (n1, t1, t2) \<Rightarrow> strncmp_bytes n1 m t1 t2)"
proof (induction n m p q rule: strncmp_longs.induct)
  case (1 n m p q)
  show ?case
  proof (cases "8 \<le> n \<and> load_long m p = load_long m q")
    case False
    then show ?thesis using strncmp_longs.simps [of n m p q] by auto
  next
    case True
    have n: "8 + (n - 8) = n" using True by simp
    have eq: "\<forall>i < 8. m (p + of_nat i) = m (q + of_nat i)" using True by (simp add: load_long_eq_iff)
    show ?thesis
    proof (cases "n - 8 = 0 \<or> DETECTNULL (load_long m p)")
      case z: True
      then have "strncmp_bytes (8 + (n - 8)) m p q = 0"
        using strncmp_bytes_zero [OF eq, of "n - 8"] by (auto simp: DETECTNULL_iff)
      then show ?thesis using z True n strncmp_longs.simps [of n m p q] by simp
    next
      case nz: False
      then have "strncmp_bytes (8 + (n - 8)) m p q = strncmp_bytes (n - 8) m (p + of_nat 8) (q + of_nat 8)"
        by (intro strncmp_bytes_skip [OF eq]) (simp_all add: DETECTNULL_iff)
      then show ?thesis using nz True n strncmp_longs.simps [of n m p q] "1.IH" by simp
    qed
  qed
qed

lemma strncmp_small_eq: "strncmp m p q n = strncmp_small m p q n"
  using strncmp_longs_same [of n m p q] strncmp_small_bytes [of n m p q]
  by (auto simp: strncmp_def strncmp_small_def)

lemma strncmp_bytes_sign:
  "n \<noteq> 0 \<Longrightarrow>
   (strncmp_bytes n m p q < 0 \<longleftrightarrow>
      (\<exists>k < n. (\<forall>i < k. m (p + of_nat i) = m (q + of_nat i) \<and> m (p + of_nat i) \<noteq> 0) \<and>
               m (p + of_nat k) < m (q + of_nat k))) \<and>
   (strncmp_bytes n m p q = 0 \<longleftrightarrow>
      (\<forall>k < n. (\<forall>i < k. m (p + of_nat i) = m (q + of_nat i) \<and> m (p + of_nat i) \<noteq> 0) \<longrightarrow>
               m (p + of_nat k) = m (q + of_nat k)))"
proof (induction n arbitrary: p q)
  case (Suc n)
  let ?P = "\<lambda>p q k. \<forall>i < k. m (p + of_nat i) = m (q + of_nat i) \<and> m (p + of_nat i) \<noteq> 0"
  have pre: "?P p q (Suc k) \<longleftrightarrow> m p = m q \<and> m p \<noteq> 0 \<and> ?P (p + 1) (q + 1) k" for k
    unfolding All_less_Suc2 offset_Suc by simp
  have ex: "(\<exists>k < Suc n. ?P p q k \<and> m (p + of_nat k) < m (q + of_nat k)) \<longleftrightarrow>
      m p < m q \<or> m p = m q \<and> m p \<noteq> 0 \<and> (\<exists>k < n. ?P (p + 1) (q + 1) k \<and> m (p + 1 + of_nat k) < m (q + 1 + of_nat k))"
    unfolding Ex_less_Suc2 pre offset_Suc by auto
  have all: "(\<forall>k < Suc n. ?P p q k \<longrightarrow> m (p + of_nat k) = m (q + of_nat k)) \<longleftrightarrow>
      m p = m q \<and> (m p \<noteq> 0 \<longrightarrow> (\<forall>k < n. ?P (p + 1) (q + 1) k \<longrightarrow> m (p + 1 + of_nat k) = m (q + 1 + of_nat k)))"
    unfolding All_less_Suc2 pre offset_Suc by auto
  show ?case unfolding ex all using Suc.IH [of "p + 1" "q + 1"]
    by (cases "n = 0") (auto simp: byte_diff_sign)
qed simp

section \<open>Properties\<close>

text \<open>
  C23: \<open>memmove\<close> copies correctly whatever the overlap of the two areas and their alignment: both the
  small variant and the variant that copies words, unrolled four times, leave at the destination
  exactly what the source held before the call, change nothing else and return the destination.
\<close>

theorem memmove_copies:
  assumes "unat dst + n < 2 ^ 64" and "unat src + n < 2 ^ 64"
  shows "memmove m dst src n =
           (\<lambda>a. if unat (a - dst) < n then m (src + (a - dst)) else m a, dst) \<and>
         memmove_small m dst src n = memmove m dst src n"
proof (cases "src < dst \<and> dst < src + of_nat n")
  case True
  then have "copy_backward n m (dst + of_nat n) (src + of_nat n) = copied m dst src n"
    using overlap_down [OF assms] assms(1) by (intro copy_backward_copied) simp_all
  then show ?thesis using True by (simp add: memmove_def memmove_small_def copied_def)
next
  case False
  have up: "copy_up_ok dst src n" by (rule no_overlap_up [OF assms False])
  have "n \<le> 2 ^ 64" using assms(1) by simp
  then show ?thesis
    using False copy_fast_copied [OF up, of m] copy_forward_copied [OF up, of m]
    by (auto simp: memmove_def memmove_small_def copied_def)
qed

theorem memmove_copies_witness:
  "fst (memmove (\<lambda>a. ucast a) 2 1 3) 4 = 3 \<and> fst (memmove (\<lambda>a. ucast a) 2 1 3) 5 = 5"
  using memmove_copies [of 2 3 1 "\<lambda>a. ucast a"] by simp

lemma disjoint_up:
  assumes "unat d + n < 2 ^ 64" and "unat s + n < 2 ^ 64" and "unat d + n \<le> unat s \<or> unat s + n \<le> unat d"
  shows "copy_up_ok d s n"
proof (rule no_overlap_up [OF assms(1,2)])
  show "\<not> (s < d \<and> d < s + of_nat n)"
    using assms unat_offset [of s n] by (auto simp: word_less_nat_alt)
qed

text \<open>
  C24: \<open>memcpy\<close> of disjoint areas: the variant that copies words is equivalent to the byte loop, and
  both copy exactly the given number of bytes.
\<close>

theorem memcpy_copies:
  assumes "unat dst + n < 2 ^ 64" and "unat src + n < 2 ^ 64"
    and "unat dst + n \<le> unat src \<or> unat src + n \<le> unat dst"
  shows "memcpy m dst src n =
           (\<lambda>a. if unat (a - dst) < n then m (src + (a - dst)) else m a, dst) \<and>
         memcpy_small m dst src n = memcpy m dst src n"
proof -
  have up: "copy_up_ok dst src n" by (rule disjoint_up [OF assms])
  have "n \<le> 2 ^ 64" using assms(1) by simp
  then show ?thesis
    using copy_fast_copied [OF up, of m] copy_forward_copied [OF up, of m]
    by (simp add: memcpy_def memcpy_small_def copied_def)
qed

theorem memcpy_copies_witness:
  "fst (memcpy (\<lambda>a. ucast a) 64 128 40) 72 = 136 \<and> fst (memcpy (\<lambda>a. ucast a) 64 128 40) 104 = 104"
  using memcpy_copies [of 64 40 128 "\<lambda>a. ucast a"] by simp

text \<open>
  C25: \<open>memset\<close> fills exactly the given number of bytes with the low byte of the given character: the
  variant that first runs to a word boundary and then stores words that repeat the byte is
  equivalent to the byte loop, for every alignment and length.
\<close>

theorem memset_fills:
  assumes "n \<le> 2 ^ 64"
  shows "memset m s c n = (\<lambda>a. if unat (a - s) < n then ucast c else m a, s) \<and>
         memset_small m s c n = memset m s c n"
  using memset_filled [OF assms, of m s c] fill_bytes_filled [OF assms, of m s "ucast c"]
  by (simp add: memset_small_def filled_def)

theorem memset_fills_witness:
  "fst (memset (\<lambda>_. 0) 5 0x1AB 50) 54 = 0xAB \<and> fst (memset (\<lambda>_. 0) 5 0x1AB 50) 55 = 0"
  using memset_fills [of 50 "\<lambda>_. 0" 5 "0x1AB"] by simp

text \<open>
  C26: \<open>memcmp\<close>: the variant that skips equal words is equivalent to the byte loop; the result is zero
  exactly if all bytes agree, and negative exactly if the first difference is a smaller byte in
  the first area.
\<close>

theorem memcmp_compares:
  "memcmp m p q n = memcmp_small m p q n \<and>
   (memcmp m p q n = 0 \<longleftrightarrow> bytes_at m p n = bytes_at m q n) \<and>
   (memcmp m p q n < 0 \<longleftrightarrow>
      (\<exists>k < n. bytes_at m p k = bytes_at m q k \<and> m (p + of_nat k) < m (q + of_nat k)))"
proof -
  have "bytes_at m p k = bytes_at m q k \<longleftrightarrow> (\<forall>i < k. m (p + of_nat i) = m (q + of_nat i))" for k
    by (simp add: bytes_at_def list_eq_iff_nth_eq)
  then show ?thesis
    using compare_bytes_sign [of n m p q] by (simp add: memcmp_small_eq memcmp_small_def)
qed

text \<open>
  C27: \<open>strncpy\<close> between disjoint areas writes exactly \<open>n\<close> bytes: the string up to its terminator and
  null bytes from there on.  The variant that copies words as long as \<open>DETECTNULL\<close> finds no null byte
  in them is equivalent to the byte loop.
\<close>

theorem strncpy_copies_padded:
  assumes "unat dst + n < 2 ^ 64" and "unat src + n < 2 ^ 64"
    and "unat dst + n \<le> unat src \<or> unat src + n \<le> unat dst"
  shows "strncpy m dst src n =
           (\<lambda>a. if unat (a - dst) < n
                then (if \<exists>j \<le> unat (a - dst). m (src + of_nat j) = 0 then 0 else m (src + (a - dst)))
                else m a, dst) \<and>
         strncpy_small m dst src n = strncpy m dst src n"
proof -
  have up: "copy_up_ok dst src n" by (rule disjoint_up [OF assms])
  have le: "n \<le> 2 ^ 64" using assms(1) by simp
  have "padded m src (unat x) = (if \<exists>j \<le> unat x. m (src + of_nat j) = 0 then 0 else m (src + x))" for x
    by (auto simp: padded_def of_nat_unat_id)
  then have "string_copied m dst src n = (\<lambda>a. if unat (a - dst) < n
      then (if \<exists>j \<le> unat (a - dst). m (src + of_nat j) = 0 then 0 else m (src + (a - dst))) else m a)"
    by (intro ext) (simp only: string_copied_def)
  then show ?thesis using strncpy_copied [OF up le, of m] by simp
qed

theorem strncpy_copies_padded_witness:
  "fst (strncpy (\<lambda>a. if a = 130 then 0 else ucast a) 64 128 9) 65 = 129 \<and>
   fst (strncpy (\<lambda>a. if a = 130 then 0 else ucast a) 64 128 9) 66 = 0"
proof -
  let ?m = "\<lambda>a :: u64. if a = 130 then 0 else ucast a :: u8"
  have s: "fst (strncpy ?m 64 128 9) a = (if unat (a - 64) < 9
      then (if \<exists>j \<le> unat (a - 64). ?m (128 + of_nat j) = 0 then 0 else ?m (128 + (a - 64))) else ?m a)" for a
    using strncpy_copies_padded [of 64 9 128 ?m] by simp
  have "\<not> (\<exists>j \<le> 1. ?m (128 + of_nat j) = 0)" 
  proof
    assume "\<exists>j \<le> 1. ?m (128 + of_nat j) = 0"
    then obtain j :: nat where "j = 0 \<or> j = 1" "?m (128 + of_nat j) = 0" by (auto simp: le_Suc_eq)
    then show False by auto
  qed
  moreover have "\<exists>j \<le> 2. ?m (128 + of_nat j) = 0" by (intro exI [of _ 2]) simp
  ultimately show ?thesis using s [of 65] s [of 66] by simp
qed

text \<open>
  C28: \<open>strncmp\<close>: both variants give the same result for every alignment; it is zero exactly if the
  strings agree up to a common terminator or for \<open>n\<close> characters, and negative exactly if at the
  first position where they differ, before any terminator, the first string has the smaller
  unsigned character.
\<close>

theorem strncmp_compares:
  "strncmp m p q n = strncmp_small m p q n \<and>
   (strncmp m p q n = 0 \<longleftrightarrow>
      (\<forall>k < n. bytes_at m p k = bytes_at m q k \<and> 0 \<notin> set (bytes_at m p k) \<longrightarrow> m (p + of_nat k) = m (q + of_nat k))) \<and>
   (strncmp m p q n < 0 \<longleftrightarrow>
      (\<exists>k < n. bytes_at m p k = bytes_at m q k \<and> 0 \<notin> set (bytes_at m p k) \<and> m (p + of_nat k) < m (q + of_nat k)))"
proof -
  have "bytes_at m p k = bytes_at m q k \<and> 0 \<notin> set (bytes_at m p k) \<longleftrightarrow>
      (\<forall>i < k. m (p + of_nat i) = m (q + of_nat i) \<and> m (p + of_nat i) \<noteq> 0)" for k
    by (force simp: bytes_at_def list_eq_iff_nth_eq)
  then have "strncmp_bytes n m p q < 0 \<longleftrightarrow>
      (\<exists>k < n. bytes_at m p k = bytes_at m q k \<and> 0 \<notin> set (bytes_at m p k) \<and> m (p + of_nat k) < m (q + of_nat k))"
    "strncmp_bytes n m p q = 0 \<longleftrightarrow>
      (\<forall>k < n. bytes_at m p k = bytes_at m q k \<and> 0 \<notin> set (bytes_at m p k) \<longrightarrow> m (p + of_nat k) = m (q + of_nat k))"
    if "n \<noteq> 0"
    using strncmp_bytes_sign [OF that, of m p q] unfolding conj_assoc [symmetric] by simp_all
  then show ?thesis
    using strncmp_small_bytes [of n m p q]
    by (cases "n = 0") (simp_all add: strncmp_small_eq, simp add: strncmp_small_def)
qed

theorem strncmp_compares_witness:
  "strncmp (\<lambda>a. if a = 66 then 3 else if a = 130 then 7 else 5) 64 128 2 = 0 \<and>
   strncmp (\<lambda>a. if a = 66 then 3 else if a = 130 then 7 else 5) 64 128 3 < 0"
proof -
  let ?m = "\<lambda>a :: u64. if a = 66 then 3 else if a = 130 then 7 else 5 :: u8"
  have "?m (64 + of_nat k) = ?m (128 + of_nat k)" if "k < 2" for k
  proof -
    have "k = 0 \<or> k = 1" using that by auto
    then show ?thesis by auto
  qed
  then have "strncmp ?m 64 128 2 = 0" using strncmp_compares [of ?m 64 128 2] by blast
  moreover have "bytes_at ?m 64 2 = bytes_at ?m 128 2" "0 \<notin> set (bytes_at ?m 64 2)" "?m (64 + of_nat 2) < ?m (128 + of_nat 2)"
    by (simp_all add: bytes_at_def upt_rec)
  then have "strncmp ?m 64 128 3 < 0"
    by (intro strncmp_compares [THEN conjunct2, THEN conjunct2, THEN iffD2] exI [of _ 2] conjI) simp_all
  ultimately show ?thesis by blast
qed

end
