(* ===== verification/Slab_Alloc.thy ===== *)
theory Slab_Alloc
  imports Prelude
begin

text \<open>
  The slab allocator (\<open>src/source/runtime/common/slab_alloc.h\<close>, \<open>slab_alloc.cc\<close>): a stack of free
  objects linked through their first word, whose head is changed by compare and exchange, the heap
  of objects of one size on top of it, and the fallback to \<open>malloc\<close>.

  The operations of a single thread are functions on the state.  The interleaved execution of
  several threads is a step relation whose steps are the accesses to shared memory: the load of the
  head, the read of \<open>ret->next\<close>, the write of \<open>node->next\<close> and the compare and exchange, which may
  fail spuriously.
\<close>

section \<open>SlabAllocator\<close>

text \<open>Addresses are 64 bit words, null is 0.  \<open>nexts\<close> is the first word of every object.\<close>

record SlabAllocator =
  sa_head :: addr
  sa_size :: size_t
  nexts :: "addr \<Rightarrow> addr"

definition SlabAllocator_Initialize :: "SlabAllocator \<Rightarrow> size_t \<Rightarrow> SlabAllocator" where
  "SlabAllocator_Initialize a sz = a\<lparr>sa_size := sz\<rparr>"

definition SlabAllocator_Allocate :: "SlabAllocator \<Rightarrow> SlabAllocator \<times> addr" where
  "SlabAllocator_Allocate a =
     (let ret = sa_head a in
      if ret = 0 then (a, ret) else (a\<lparr>sa_head := nexts a ret\<rparr>, ret))"

definition SlabAllocator_Free :: "SlabAllocator \<Rightarrow> addr \<Rightarrow> SlabAllocator" where
  "SlabAllocator_Free a node =
     (let cur_head = sa_head a in
      a\<lparr>nexts := (nexts a)(node := cur_head), sa_head := node\<rparr>)"

section \<open>SlabHeap\<close>

record SlabHeap =
  allocator :: SlabAllocator
  sh_start :: addr
  sh_end :: addr
  slab_memory :: addr

definition new_SlabHeap :: SlabHeap where
  "new_SlabHeap = \<lparr>allocator = \<lparr>sa_head = 0, sa_size = 0, nexts = (\<lambda>_. 0)\<rparr>, sh_start = 0, sh_end = 0,
     slab_memory = 0\<rparr>"

definition Contains :: "SlabHeap \<Rightarrow> addr \<Rightarrow> bool" where
  "Contains h a \<longleftrightarrow> sh_start h \<le> a \<and> a < sh_end h"

definition GetObjectSize :: "SlabHeap \<Rightarrow> size_t" where
  "GetObjectSize h = sa_size (allocator h)"

definition GetSlabHeapSize :: "SlabHeap \<Rightarrow> size_t" where
  "GetSlabHeapSize h = (sh_end h - sh_start h) div GetObjectSize h"

definition GetObjectIndexImpl :: "SlabHeap \<Rightarrow> addr \<Rightarrow> size_t" where
  "GetObjectIndexImpl h obj = (obj - sh_start h) div GetObjectSize h"

definition SlabHeap_Allocate :: "SlabHeap \<Rightarrow> SlabHeap \<times> addr" where
  "SlabHeap_Allocate h =
     (let (a, obj) = SlabAllocator_Allocate (allocator h) in (h\<lparr>allocator := a\<rparr>, obj))"

definition SlabHeap_Free :: "SlabHeap \<Rightarrow> addr \<Rightarrow> SlabHeap result" where
  "SlabHeap_Free h obj =
     res_bind (ASSERT (Contains h obj)) (\<lambda>_.
       Inr (h\<lparr>allocator := SlabAllocator_Free (allocator h) obj\<rparr>))"

text \<open>
  \<open>New\<close> and \<open>Delete\<close> run the constructor and the destructor of the object, which are parameters:
  the word that the constructor leaves at the start of the object and that the destructor sees.
\<close>

definition SlabHeap_New :: "addr \<Rightarrow> SlabHeap \<Rightarrow> SlabHeap \<times> addr" where
  "SlabHeap_New word h =
     (let (h1, obj) = SlabHeap_Allocate h in
      if obj \<noteq> 0
      then (h1\<lparr>allocator := (allocator h1)\<lparr>nexts := (nexts (allocator h1))(obj := word)\<rparr>\<rparr>, obj)
      else (h1, obj))"

definition SlabHeap_Delete :: "SlabHeap \<Rightarrow> addr \<Rightarrow> SlabHeap result" where
  "SlabHeap_Delete h obj = SlabHeap_Free h obj"

fun free_objects :: "nat \<Rightarrow> size_t \<Rightarrow> SlabAllocator \<Rightarrow> addr \<Rightarrow> SlabAllocator" where
  "free_objects 0 object_size a cur = a"
| "free_objects (Suc n) object_size a cur =
     free_objects n object_size (SlabAllocator_Free a (cur - object_size)) (cur - object_size)"

definition SlabHeap_Initialize :: "size_t \<Rightarrow> SlabHeap \<Rightarrow> addr \<Rightarrow> size_t \<Rightarrow> SlabHeap result" where
  "SlabHeap_Initialize object_size h memory memory_size =
     res_bind (ASSERT (memory \<noteq> 0)) (\<lambda>_.
     (let a = SlabAllocator_Initialize (allocator h) object_size;
          num_obj = memory_size div object_size;
          e = memory + num_obj * object_size
      in Inr (h\<lparr>allocator := free_objects (unat num_obj) object_size a e,
                 sh_start := memory, sh_end := e\<rparr>)))"

text \<open>The overload that takes the number of objects and allocates the memory with \<open>malloc\<close>.\<close>

definition SlabHeap_Initialize_count ::
  "(size_t \<Rightarrow> addr) \<Rightarrow> size_t \<Rightarrow> SlabHeap \<Rightarrow> size_t \<Rightarrow> SlabHeap result" where
  "SlabHeap_Initialize_count malloc object_size h n =
     (let memory = malloc (object_size * n) in
      SlabHeap_Initialize object_size (h\<lparr>slab_memory := memory\<rparr>) memory (object_size * n))"

text \<open>The addresses passed to \<open>free\<close> by the destructor.\<close>

definition SlabHeap_destructor :: "SlabHeap \<Rightarrow> addr list" where
  "SlabHeap_destructor h = (if slab_memory h \<noteq> 0 then [slab_memory h] else [])"

section \<open>SlabObject\<close>

text \<open>
  Where an object of a class with \<open>operator new\<close> comes from and where it goes: the slab heap, or
  \<open>malloc\<close> and \<open>free\<close>, whose calls are recorded by the address.
\<close>

datatype object_source = FromSlab addr | FromMalloc addr

datatype object_target = ToSlab addr | ToFree addr

definition TryAllocate :: "(size_t \<Rightarrow> addr) \<Rightarrow> bool \<Rightarrow> size_t \<Rightarrow> SlabHeap \<Rightarrow> SlabHeap \<times> object_source" where
  "TryAllocate malloc override object_size h =
     (if override then
        (let (h1, res) = SlabHeap_Allocate h in
         if res \<noteq> 0 then (h1, FromSlab res) else (h1, FromMalloc (malloc object_size)))
      else (h, FromMalloc (malloc object_size)))"

definition TryFree :: "bool \<Rightarrow> SlabHeap \<Rightarrow> addr \<Rightarrow> (SlabHeap \<times> object_target) result" where
  "TryFree override h obj =
     (if override \<and> Contains h obj
      then res_bind (SlabHeap_Free h obj) (\<lambda>h1. Inr (h1, ToSlab obj))
      else Inr (h, ToFree obj))"

definition operator_new ::
  "(size_t \<Rightarrow> addr) \<Rightarrow> bool \<Rightarrow> size_t \<Rightarrow> SlabHeap \<Rightarrow> size_t \<Rightarrow> (SlabHeap \<times> object_source) result" where
  "operator_new malloc override object_size h sz =
     res_bind (ASSERT (sz = object_size)) (\<lambda>_. Inr (TryAllocate malloc override object_size h))"

section \<open>Several threads\<close>

text \<open>
  The program counter of a thread: in the loop of \<open>Allocate\<close> with the value \<open>ret\<close>, with
  \<open>ret->next\<close> also read, in the loop of \<open>Free\<close> with the value \<open>cur_head\<close>, with \<open>node->next\<close> also
  written.  \<open>owned\<close> are the objects that a thread has been given and has not freed.
\<close>

datatype pc = Idle | AllocLoop addr | AllocCas addr addr | FreeLoop addr addr | FreeCas addr addr

record threads =
  th_head :: addr
  th_nexts :: "addr \<Rightarrow> addr"
  th_pc :: "nat \<Rightarrow> pc"
  owned :: "nat \<Rightarrow> addr set"

inductive alloc_step :: "nat \<Rightarrow> threads \<Rightarrow> threads \<Rightarrow> bool" where
  load_head: "th_pc c t = Idle \<Longrightarrow>
    alloc_step t c (c\<lparr>th_pc := (th_pc c)(t := AllocLoop (th_head c))\<rparr>)"
| no_object: "th_pc c t = AllocLoop 0 \<Longrightarrow>
    alloc_step t c (c\<lparr>th_pc := (th_pc c)(t := Idle)\<rparr>)"
| read_next: "th_pc c t = AllocLoop ret \<Longrightarrow> ret \<noteq> 0 \<Longrightarrow>
    alloc_step t c (c\<lparr>th_pc := (th_pc c)(t := AllocCas ret (th_nexts c ret))\<rparr>)"
| exchange: "th_pc c t = AllocCas ret n \<Longrightarrow> th_head c = ret \<Longrightarrow>
    alloc_step t c (c\<lparr>th_head := n, th_pc := (th_pc c)(t := Idle),
                      owned := (owned c)(t := insert ret (owned c t))\<rparr>)"
| retry: "th_pc c t = AllocCas ret n \<Longrightarrow>
    alloc_step t c (c\<lparr>th_pc := (th_pc c)(t := AllocLoop (th_head c))\<rparr>)"

inductive free_step :: "nat \<Rightarrow> threads \<Rightarrow> threads \<Rightarrow> bool" where
  load_head: "th_pc c t = Idle \<Longrightarrow> node \<in> owned c t \<Longrightarrow>
    free_step t c (c\<lparr>th_pc := (th_pc c)(t := FreeLoop node (th_head c)),
                     owned := (owned c)(t := owned c t - {node})\<rparr>)"
| write_next: "th_pc c t = FreeLoop node cur \<Longrightarrow>
    free_step t c (c\<lparr>th_nexts := (th_nexts c)(node := cur),
                     th_pc := (th_pc c)(t := FreeCas node cur)\<rparr>)"
| exchange: "th_pc c t = FreeCas node cur \<Longrightarrow> th_head c = cur \<Longrightarrow>
    free_step t c (c\<lparr>th_head := node, th_pc := (th_pc c)(t := Idle)\<rparr>)"
| retry: "th_pc c t = FreeCas node cur \<Longrightarrow>
    free_step t c (c\<lparr>th_pc := (th_pc c)(t := FreeLoop node (th_head c))\<rparr>)"

text \<open>The owner of an object may write to it.\<close>

inductive owner_step :: "nat \<Rightarrow> threads \<Rightarrow> threads \<Rightarrow> bool" where
  "obj \<in> owned c t \<Longrightarrow> owner_step t c (c\<lparr>th_nexts := (th_nexts c)(obj := word)\<rparr>)"

inductive_cases alloc_stepE: "alloc_step t c c'"
inductive_cases free_stepE: "free_step t c c'"
inductive_cases owner_stepE: "owner_step t c c'"

definition allocs :: "threads \<Rightarrow> threads \<Rightarrow> bool" where
  "allocs c c' \<longleftrightarrow> (\<exists>t. alloc_step t c c' \<or> owner_step t c c')"

definition any_step :: "threads \<Rightarrow> threads \<Rightarrow> bool" where
  "any_step c c' \<longleftrightarrow> (\<exists>t. alloc_step t c c' \<or> free_step t c c' \<or> owner_step t c c')"

end
