(* ===== verification/Slab_Proofs.thy ===== *)
theory Slab_Proofs
  imports Slab_Alloc
begin

text \<open>
  The slab heap of \<^verbatim>\<open>runtime/common/slab_alloc.h\<close>: its free list as a stack of objects, the interface
  \<open>object_stack\<close> of such a stack with what its clients may rely on, the heap as an instance of it, and
  the lock-free operations under interleaving.
\<close>

section \<open>The free list\<close>

fun flist :: "(addr \<Rightarrow> addr) \<Rightarrow> addr \<Rightarrow> addr list \<Rightarrow> bool" where
  "flist nx h [] \<longleftrightarrow> h = 0"
| "flist nx h (x # xs) \<longleftrightarrow> h = x \<and> x \<noteq> 0 \<and> flist nx (nx x) xs"

lemma flist_upd: "flist nx h xs \<Longrightarrow> y \<notin> set xs \<Longrightarrow> flist (nx(y := v)) h xs"
  by (induction xs arbitrary: h) auto

lemma flist_unique: "flist nx h xs \<Longrightarrow> flist nx h ys \<Longrightarrow> xs = ys"
proof (induction xs arbitrary: h ys)
  case Nil
  then show ?case by (cases ys) auto
next
  case (Cons x xs)
  then show ?case by (cases ys) auto
qed

lemma flist_distinct: "flist nx h xs \<Longrightarrow> distinct xs"
proof (rule ccontr)
  have suffix: "flist nx h (as @ bs) \<Longrightarrow> \<exists>h'. flist nx h' bs" for as bs h
    by (induction as arbitrary: h) auto
  assume f: "flist nx h xs" and "\<not> distinct xs"
  then obtain as bs cs c where xs: "xs = as @ [c] @ bs @ [c] @ cs" using not_distinct_decomp by blast
  obtain h1 h2 where "flist nx h1 (c # bs @ c # cs)" "flist nx h2 (c # cs)"
    using suffix [of h as "c # bs @ c # cs"] suffix [of h "as @ c # bs" "c # cs"] f xs by auto
  moreover have "h1 = c" "h2 = c" using calculation by simp_all
  ultimately have "c # bs @ c # cs = c # cs" using flist_unique by blast
  then have "length (c # bs @ c # cs) = length (c # cs)" by (rule arg_cong)
  then show False by simp
qed

text \<open>The free objects of a heap, read off the links.\<close>

fun walk_free :: "nat \<Rightarrow> (addr \<Rightarrow> addr) \<Rightarrow> addr \<Rightarrow> addr list" where
  "walk_free 0 nx h = []"
| "walk_free (Suc k) nx h = (if h = 0 then [] else h # walk_free k nx (nx h))"

lemma walk_free_flist: "flist nx h xs \<Longrightarrow> length xs \<le> k \<Longrightarrow> walk_free k nx h = xs"
proof (induction k arbitrary: h xs)
  case (Suc k)
  then show ?case by (cases xs) auto
qed simp

section \<open>The objects of a heap\<close>

text \<open>
  The heap of \<open>n\<close> objects of \<open>sz\<close> bytes at \<open>m\<close>.  An object has room for a link, and the memory does
  not wrap around.
\<close>

definition layout :: "addr \<Rightarrow> size_t \<Rightarrow> nat \<Rightarrow> bool" where
  "layout m sz n \<longleftrightarrow> m \<noteq> 0 \<and> 8 \<le> unat sz \<and> unat m + n * unat sz < 2 ^ 64"

definition obj_at :: "addr \<Rightarrow> size_t \<Rightarrow> nat \<Rightarrow> addr" where
  "obj_at m sz i = m + of_nat i * sz"

lemma unat_obj_at:
  assumes "layout m sz n" and "i \<le> n"
  shows "unat (obj_at m sz i) = unat m + i * unat sz"
proof -
  have "i * unat sz \<le> n * unat sz" using assms(2) by simp
  then have b: "unat m + i * unat sz < 2 ^ 64" using assms(1) unfolding layout_def by linarith
  moreover have "obj_at m sz i = of_nat (unat m + i * unat sz)"
    by (simp add: obj_at_def)
  ultimately show ?thesis using unat_of_nat_small [of "unat m + i * unat sz", where 'a = 64] by simp
qed

lemma obj_at_inj:
  assumes "layout m sz n" and "i \<le> n" and "j \<le> n" and "obj_at m sz i = obj_at m sz j"
  shows "i = j"
proof -
  have "unat m + i * unat sz = unat m + j * unat sz"
    using unat_obj_at [OF assms(1,2)] unat_obj_at [OF assms(1,3)] assms(4) by metis
  then show ?thesis using assms(1) by (simp add: layout_def)
qed

lemma obj_at_nonzero: "layout m sz n \<Longrightarrow> i \<le> n \<Longrightarrow> obj_at m sz i \<noteq> 0"
  using unat_obj_at [of m sz n i] by (auto simp: layout_def unat_eq_0)

definition objects :: "addr \<Rightarrow> size_t \<Rightarrow> nat \<Rightarrow> addr list" where
  "objects m sz n = map (obj_at m sz) [0..<n]"

lemma objects_distinct: "layout m sz n \<Longrightarrow> distinct (objects m sz n)"
  unfolding objects_def distinct_map by (auto intro!: inj_onI obj_at_inj [of m sz n])

lemma free_objects_list:
  assumes "layout m sz n" and "k \<le> n" and "flist (nexts a) (sa_head a) xs"
    and "\<forall>i < k. obj_at m sz i \<notin> set xs"
  shows "flist (nexts (free_objects k sz a (obj_at m sz k))) (sa_head (free_objects k sz a (obj_at m sz k)))
           (objects m sz k @ xs) \<and> sa_size (free_objects k sz a (obj_at m sz k)) = sa_size a"
  using assms
proof (induction k arbitrary: a xs)
  case 0
  then show ?case by (simp add: objects_def)
next
  case (Suc k)
  have pred: "obj_at m sz (Suc k) - sz = obj_at m sz k" by (simp add: obj_at_def algebra_simps)
  let ?x = "obj_at m sz k" and ?a = "SlabAllocator_Free a (obj_at m sz k)"
  have f: "flist (nexts ?a) (sa_head ?a) (?x # xs)"
    using Suc.prems obj_at_nonzero [of m sz n k] by (auto simp: SlabAllocator_Free_def Let_def flist_upd)
  have "obj_at m sz i \<notin> set (?x # xs)" if "i < k" for i
    using Suc.prems(2,4) that obj_at_inj [OF Suc.prems(1), of i k] by auto
  then have "flist (nexts (free_objects k sz ?a ?x)) (sa_head (free_objects k sz ?a ?x)) (objects m sz k @ ?x # xs) \<and>
      sa_size (free_objects k sz ?a ?x) = sa_size ?a"
    using Suc.IH [OF Suc.prems(1) _ f] Suc.prems(2) by simp
  then show ?case using pred by (simp add: objects_def SlabAllocator_Free_def Let_def)
qed

section \<open>The allocator as a stack of objects\<close>

text \<open>A client that allocates and releases objects in any order; it releases what it holds.\<close>

datatype client_op = AllocOp | ReleaseOp nat

fun run_ops :: "('s \<Rightarrow> 's \<times> 'a option) \<Rightarrow> ('s \<Rightarrow> 'a \<Rightarrow> 's result) \<Rightarrow> client_op list \<Rightarrow> 's \<Rightarrow> 'a list \<Rightarrow>
    ('s \<times> 'a list) result" where
  "run_ops alloc release [] s live = Inr (s, live)"
| "run_ops alloc release (AllocOp # ops) s live =
     (case alloc s of
        (s1, None) \<Rightarrow> run_ops alloc release ops s1 live
      | (s1, Some x) \<Rightarrow> run_ops alloc release ops s1 (x # live))"
| "run_ops alloc release (ReleaseOp k # ops) s live =
     (if k < length live
      then res_bind (release s (live ! k)) (\<lambda>s1.
             run_ops alloc release ops s1 (take k live @ drop (Suc k) live))
      else run_ops alloc release ops s live)"

locale object_stack =
  fixes inv :: "'s \<Rightarrow> bool" and avail :: "'s \<Rightarrow> 'a list" and space :: "'a list"
    and alloc :: "'s \<Rightarrow> 's \<times> 'a option" and release :: "'s \<Rightarrow> 'a \<Rightarrow> 's result"
  assumes alloc_empty: "inv s \<Longrightarrow> avail s = [] \<Longrightarrow> alloc s = (s, None)"
    and alloc_pop: "inv s \<Longrightarrow> avail s = x # xs \<Longrightarrow> \<exists>s'. alloc s = (s', Some x) \<and> inv s' \<and> avail s' = xs"
    and release_push: "inv s \<Longrightarrow> x \<in> set space \<Longrightarrow> x \<notin> set (avail s) \<Longrightarrow>
      \<exists>s'. release s x = Inr s' \<and> inv s' \<and> avail s' = x # avail s"
    and space_distinct: "distinct space"
begin

definition apart :: "'s \<Rightarrow> 'a list \<Rightarrow> bool" where
  "apart s live \<longleftrightarrow> inv s \<and> mset (avail s @ live) = mset space"

lemma remove_nth_mset: "k < length xs \<Longrightarrow> mset (take k xs @ drop (Suc k) xs) + {#xs ! k#} = mset xs"
  by (metis id_take_nth_drop mset_append mset.simps(2) add_mset_add_single union_assoc add.commute)

lemma client_keeps_apart:
  "apart s live \<Longrightarrow> \<exists>s' live'. run_ops alloc release ops s live = Inr (s', live') \<and> apart s' live'"
proof (induction ops arbitrary: s live)
  case (Cons op ops)
  show ?case
  proof (cases op)
    case AllocOp
    show ?thesis
    proof (cases "avail s")
      case Nil
      then show ?thesis using Cons AllocOp alloc_empty [of s] by (simp add: apart_def)
    next
      case c: (Cons x xs)
      obtain s1 where s1: "alloc s = (s1, Some x)" "inv s1" "avail s1 = xs"
        using alloc_pop c Cons.prems unfolding apart_def by blast
      then have "apart s1 (x # live)" using Cons.prems c by (simp add: apart_def)
      then show ?thesis using Cons.IH AllocOp s1(1) by simp
    qed
  next
    case (ReleaseOp k)
    show ?thesis
    proof (cases "k < length live")
      case True
      have m: "mset (avail s @ live) = mset space" and i: "inv s" using Cons.prems by (simp_all add: apart_def)
      have "live ! k \<in> set space" using m True by (metis UnCI nth_mem set_append set_mset_mset)
      moreover have "distinct (avail s @ live)" using m space_distinct by (metis mset_eq_imp_distinct_iff)
      then have "live ! k \<notin> set (avail s)" using nth_mem [OF True] by auto
      ultimately obtain s1 where s1: "release s (live ! k) = Inr s1" "inv s1" "avail s1 = live ! k # avail s"
        using release_push i by blast
      then have "apart s1 (take k live @ drop (Suc k) live)"
        using m remove_nth_mset [OF True, symmetric] by (simp add: apart_def)
      then show ?thesis using Cons.IH ReleaseOp True s1(1) by simp
    qed (use Cons ReleaseOp in simp)
  qed
qed simp

lemma apart_facts:
  assumes "apart s live"
  shows "distinct live" and "set live \<subseteq> set space" and "snd (alloc s) = None \<longleftrightarrow> length live = length space"
    and "snd (alloc s) = Some x \<Longrightarrow> x \<in> set space \<and> x \<notin> set live"
proof -
  have m: "mset (avail s @ live) = mset space" and i: "inv s" using assms by (simp_all add: apart_def)
  have d: "distinct (avail s @ live)" using m space_distinct by (metis mset_eq_imp_distinct_iff)
  have set: "set (avail s @ live) = set space" using m by (metis set_mset_mset)
  have len: "length (avail s) + length live = length space" using m by (metis length_append size_mset)
  show "distinct live" "set live \<subseteq> set space" using d set by auto
  show "snd (alloc s) = None \<longleftrightarrow> length live = length space"
    using alloc_empty [OF i] alloc_pop [OF i] len by (cases "avail s") auto
  show "snd (alloc s) = Some x \<Longrightarrow> x \<in> set space \<and> x \<notin> set live"
    using alloc_empty [OF i] alloc_pop [OF i] set d by (cases "avail s") auto
qed

end

section \<open>The slab heap implements the stack\<close>

definition heap_free :: "SlabHeap \<Rightarrow> addr list" where
  "heap_free h = walk_free (unat (GetSlabHeapSize h)) (nexts (allocator h)) (sa_head (allocator h))"

definition heap_alloc :: "SlabHeap \<Rightarrow> SlabHeap \<times> addr option" where
  "heap_alloc h = (let (h1, obj) = SlabHeap_Allocate h in (h1, if obj = 0 then None else Some obj))"

definition heap_inv :: "addr \<Rightarrow> size_t \<Rightarrow> nat \<Rightarrow> SlabHeap \<Rightarrow> bool" where
  "heap_inv m sz n h \<longleftrightarrow>
     layout m sz n \<and> sh_start h = m \<and> sh_end h = obj_at m sz n \<and> sa_size (allocator h) = sz \<and>
     (\<exists>xs. flist (nexts (allocator h)) (sa_head (allocator h)) xs \<and> set xs \<subseteq> set (objects m sz n))"

lemma heap_size:
  assumes "layout m sz n" and "sh_start h = m" and "sh_end h = obj_at m sz n" and "sa_size (allocator h) = sz"
  shows "unat (GetSlabHeapSize h) = n"
proof -
  have "GetSlabHeapSize h = of_nat (n * unat sz) div sz"
    using assms by (simp add: GetSlabHeapSize_def GetObjectSize_def obj_at_def)
  moreover have "unat (of_nat (n * unat sz) :: u64) = n * unat sz"
    using assms(1) unfolding layout_def by (intro unat_of_nat_small) simp
  ultimately have "unat (GetSlabHeapSize h) = n * unat sz div unat sz" by (simp add: unat_div)
  then show ?thesis using assms(1) by (simp add: layout_def)
qed

lemma heap_free_list:
  assumes "heap_inv m sz n h"
  shows "flist (nexts (allocator h)) (sa_head (allocator h)) (heap_free h)"
    and "set (heap_free h) \<subseteq> set (objects m sz n)"
proof -
  obtain xs where xs: "flist (nexts (allocator h)) (sa_head (allocator h)) xs" "set xs \<subseteq> set (objects m sz n)"
    using assms by (auto simp: heap_inv_def)
  have "length xs \<le> length (objects m sz n)"
    using flist_distinct [OF xs(1)] xs(2) by (metis List.finite_set card_mono card_length distinct_card le_trans)
  then have "heap_free h = xs"
    using walk_free_flist [OF xs(1)] heap_size [of m sz n h] assms by (simp add: heap_free_def heap_inv_def objects_def)
  then show "flist (nexts (allocator h)) (sa_head (allocator h)) (heap_free h)"
      "set (heap_free h) \<subseteq> set (objects m sz n)" using xs by simp_all
qed

lemma heap_free_eq:
  assumes "heap_inv m sz n h" and "flist (nexts (allocator h)) (sa_head (allocator h)) xs"
  shows "heap_free h = xs"
  using heap_free_list(1) [OF assms(1)] flist_unique assms(2) by blast

lemma objects_contained:
  assumes "heap_inv m sz n h" and "x \<in> set (objects m sz n)"
  shows "Contains h x" and "x \<noteq> 0"
proof -
  obtain i where i: "i < n" "x = obj_at m sz i" using assms(2) by (auto simp: objects_def)
  have l: "layout m sz n" using assms(1) by (simp add: heap_inv_def)
  then have "i * unat sz < n * unat sz" using i(1) by (simp add: layout_def)
  then show "Contains h x"
    using assms(1) unat_obj_at [OF l, of i] unat_obj_at [OF l, of n] i
    by (simp add: Contains_def heap_inv_def word_le_nat_alt word_less_nat_alt)
  show "x \<noteq> 0" using obj_at_nonzero [OF l, of i] i by simp
qed

lemma heap_alloc_empty: "heap_inv m sz n h \<Longrightarrow> heap_free h = [] \<Longrightarrow> heap_alloc h = (h, None)"
  using heap_free_list(1) [of m sz n h]
  by (simp add: heap_alloc_def SlabHeap_Allocate_def SlabAllocator_Allocate_def)

lemma heap_alloc_pop:
  assumes "heap_inv m sz n h" and "heap_free h = x # xs"
  shows "\<exists>h'. heap_alloc h = (h', Some x) \<and> heap_inv m sz n h' \<and> heap_free h' = xs"
proof -
  let ?h = "h\<lparr>allocator := (allocator h)\<lparr>sa_head := nexts (allocator h) x\<rparr>\<rparr>"
  have f: "sa_head (allocator h) = x" "x \<noteq> 0" "flist (nexts (allocator h)) (nexts (allocator h) x) xs"
    and s: "set (x # xs) \<subseteq> set (objects m sz n)"
    using heap_free_list [OF assms(1)] assms(2) by simp_all
  have "heap_alloc h = (?h, Some x)"
    using f by (simp add: heap_alloc_def SlabHeap_Allocate_def SlabAllocator_Allocate_def Let_def)
  moreover have "heap_inv m sz n ?h" using assms(1) f s by (auto simp: heap_inv_def)
  moreover have "heap_free ?h = xs" using heap_free_eq [OF calculation(2)] f(3) by simp
  ultimately show ?thesis by blast
qed

lemma heap_release_push:
  assumes "heap_inv m sz n h" and "x \<in> set (objects m sz n)" and "x \<notin> set (heap_free h)"
  shows "\<exists>h'. SlabHeap_Free h x = Inr h' \<and> heap_inv m sz n h' \<and> heap_free h' = x # heap_free h"
proof -
  let ?h = "h\<lparr>allocator := SlabAllocator_Free (allocator h) x\<rparr>"
  have "SlabHeap_Free h x = Inr ?h" using objects_contained [OF assms(1,2)] by (simp add: SlabHeap_Free_def)
  moreover have f: "flist (nexts (allocator ?h)) (sa_head (allocator ?h)) (x # heap_free h)"
    using heap_free_list(1) [OF assms(1)] objects_contained(2) [OF assms(1,2)] assms(3)
    by (simp add: SlabAllocator_Free_def Let_def flist_upd)
  then have "heap_inv m sz n ?h"
    using assms(1,2) heap_free_list(2) [OF assms(1)] unfolding heap_inv_def
    by (auto simp: SlabAllocator_Free_def Let_def intro!: exI [of _ "x # heap_free h"])
  moreover have "heap_free ?h = x # heap_free h" using heap_free_eq [OF calculation(2) f] .
  ultimately show ?thesis by blast
qed

text \<open>The invariant with no layout is empty, so that the interpretation needs no hypothesis.\<close>

interpretation slab: object_stack "heap_inv m sz n" heap_free "if layout m sz n then objects m sz n else []"
  heap_alloc SlabHeap_Free for m :: addr and sz :: size_t and n :: nat
proof unfold_locales
  show "heap_inv m sz n h \<Longrightarrow> heap_free h = [] \<Longrightarrow> heap_alloc h = (h, None)" for h
    by (rule heap_alloc_empty)
  show "heap_inv m sz n h \<Longrightarrow> heap_free h = x # xs \<Longrightarrow>
      \<exists>h'. heap_alloc h = (h', Some x) \<and> heap_inv m sz n h' \<and> heap_free h' = xs" for h x xs
    by (rule heap_alloc_pop)
  show "heap_inv m sz n h \<Longrightarrow> x \<in> set (if layout m sz n then objects m sz n else []) \<Longrightarrow> x \<notin> set (heap_free h) \<Longrightarrow>
      \<exists>h'. SlabHeap_Free h x = Inr h' \<and> heap_inv m sz n h' \<and> heap_free h' = x # heap_free h" for h x
    using heap_release_push [of m sz n h x] by (simp split: if_splits)
  show "distinct (if layout m sz n then objects m sz n else [])" using objects_distinct by simp
qed

lemma SlabHeap_Initialize_inv:
  assumes l: "layout m sz n" and "unat ms div unat sz = n"
  shows "\<exists>h. SlabHeap_Initialize sz new_SlabHeap m ms = Inr h \<and> heap_inv m sz n h \<and> heap_free h = objects m sz n"
proof -
  have q: "unat (ms div sz) = n" using assms(2) by (simp add: unat_div)
  have e: "m + ms div sz * sz = obj_at m sz n"
    unfolding obj_at_def q [symmetric] of_nat_unat_id by (rule refl)
  let ?a = "SlabAllocator_Initialize (allocator new_SlabHeap) sz"
  let ?h = "new_SlabHeap\<lparr>allocator := free_objects n sz ?a (obj_at m sz n), sh_start := m, sh_end := obj_at m sz n\<rparr>"
  have r: "SlabHeap_Initialize sz new_SlabHeap m ms = Inr ?h"
    using l by (simp add: SlabHeap_Initialize_def Let_def q e layout_def)
  have f: "flist (nexts (allocator ?h)) (sa_head (allocator ?h)) (objects m sz n)" "sa_size (allocator ?h) = sz"
    using free_objects_list [OF l order.refl, of ?a "[]"]
    by (simp_all add: new_SlabHeap_def SlabAllocator_Initialize_def)
  then have "heap_inv m sz n ?h" using l by (auto simp: heap_inv_def)
  then show ?thesis using r heap_free_eq f(1) by blast
qed

section \<open>Several threads\<close>

text \<open>A thread that runs alone performs the operations of the single-threaded model.\<close>

lemma any_step_alloc: "alloc_step t c c' \<Longrightarrow> any_step\<^sup>*\<^sup>* c c'"
  by (rule r_into_rtranclp) (auto simp: any_step_def)

lemma any_step_free: "free_step t c c' \<Longrightarrow> any_step\<^sup>*\<^sup>* c c'"
  by (rule r_into_rtranclp) (auto simp: any_step_def)

lemma run_read:
  assumes "th_pc c t = Idle" and "th_head c = r" and "r \<noteq> 0"
  shows "any_step\<^sup>*\<^sup>* c (c\<lparr>th_pc := (th_pc c)(t := AllocCas r (th_nexts c r))\<rparr>)"
proof -
  let ?c1 = "c\<lparr>th_pc := (th_pc c)(t := AllocLoop r)\<rparr>"
  have "any_step\<^sup>*\<^sup>* c ?c1" using any_step_alloc [OF alloc_step.load_head [of c t]] assms by simp
  moreover have "any_step\<^sup>*\<^sup>* ?c1 (?c1\<lparr>th_pc := (th_pc ?c1)(t := AllocCas r (th_nexts ?c1 r))\<rparr>)"
    using any_step_alloc [OF alloc_step.read_next [of ?c1 t r]] assms(3) by simp
  ultimately show ?thesis by simp
qed

lemma run_Allocate:
  assumes "th_pc c t = Idle" and "th_head c = r" and "r \<noteq> 0"
  shows "any_step\<^sup>*\<^sup>* c (c\<lparr>th_head := th_nexts c r, owned := (owned c)(t := insert r (owned c t))\<rparr>)"
proof -
  let ?c1 = "c\<lparr>th_pc := (th_pc c)(t := AllocCas r (th_nexts c r))\<rparr>"
  have "any_step\<^sup>*\<^sup>* ?c1 (?c1\<lparr>th_head := th_nexts c r, th_pc := (th_pc ?c1)(t := Idle),
      owned := (owned ?c1)(t := insert r (owned ?c1 t))\<rparr>)"
    using any_step_alloc [OF alloc_step.exchange [of ?c1 t r "th_nexts c r"]] assms(2) by simp
  moreover have "(th_pc c)(t := Idle) = th_pc c" using assms(1) by auto
  ultimately show ?thesis using run_read [OF assms] by simp
qed

lemma run_Free:
  assumes "th_pc c t = Idle" and "x \<in> owned c t"
  shows "any_step\<^sup>*\<^sup>* c (c\<lparr>th_head := x, th_nexts := (th_nexts c)(x := th_head c),
           owned := (owned c)(t := owned c t - {x})\<rparr>)"
proof -
  let ?c1 = "c\<lparr>th_pc := (th_pc c)(t := FreeLoop x (th_head c)), owned := (owned c)(t := owned c t - {x})\<rparr>"
  let ?c2 = "?c1\<lparr>th_nexts := (th_nexts c)(x := th_head c), th_pc := (th_pc c)(t := FreeCas x (th_head c))\<rparr>"
  have 1: "any_step\<^sup>*\<^sup>* c ?c1" by (rule any_step_free [OF free_step.load_head [OF assms]])
  have 2: "any_step\<^sup>*\<^sup>* ?c1 ?c2" using any_step_free [OF free_step.write_next [of ?c1 t x "th_head c"]] by simp
  have 3: "any_step\<^sup>*\<^sup>* ?c2 (?c2\<lparr>th_head := x, th_pc := (th_pc ?c2)(t := Idle)\<rparr>)"
    by (rule any_step_free [OF free_step.exchange [of ?c2 t x "th_head c"]]) simp_all
  have "(th_pc c)(t := Idle) = th_pc c" using assms(1) by auto
  then show ?thesis using rtranclp_trans [OF rtranclp_trans [OF 1 2] 3] by (cases c) simp
qed

text \<open>
  Threads that only allocate: the free list shrinks from the front, so that a successful exchange
  installs the successor of the head.
\<close>

definition sharing_inv :: "addr set \<Rightarrow> threads \<Rightarrow> addr list \<Rightarrow> bool" where
  "sharing_inv U c xs \<longleftrightarrow>
     flist (th_nexts c) (th_head c) xs \<and> set xs \<union> (\<Union>t. owned c t) = U \<and>
     (\<forall>t. owned c t \<inter> set xs = {}) \<and> (\<forall>t u. t \<noteq> u \<longrightarrow> owned c t \<inter> owned c u = {}) \<and>
     (\<forall>t r n. th_pc c t = AllocCas r n \<longrightarrow> r \<noteq> 0 \<and> (r \<in> set xs \<longrightarrow> n = th_nexts c r))"

lemma alloc_step_inv:
  assumes "alloc_step t c c'" and "sharing_inv U c xs"
  shows "\<exists>ys. sharing_inv U c' ys"
  using assms(1)
proof cases
  case (exchange ret n)
  have "ret \<noteq> 0" using assms(2) exchange(2) by (auto simp: sharing_inv_def)
  moreover have "flist (th_nexts c) ret xs" using assms(2) exchange(3) by (auto simp: sharing_inv_def)
  ultimately obtain ys where xs: "xs = ret # ys" by (cases xs) auto
  then have n: "n = th_nexts c ret" using assms(2) exchange(2) by (auto simp: sharing_inv_def)
  have d: "ret \<notin> set ys" using flist_distinct [of "th_nexts c" ret xs] assms(2) xs exchange(3) by (auto simp: sharing_inv_def)
  have f: "flist (th_nexts c) n ys" using assms(2) xs n by (simp add: sharing_inv_def)
  have o: "\<And>u. ret \<notin> owned c u" using assms(2) xs by (auto simp: sharing_inv_def)
  have "sharing_inv U c' ys"
    unfolding sharing_inv_def exchange(1)
  proof (intro conjI allI impI, goal_cases)
    case 2
    have "(\<Union>u. ((owned c)(t := insert ret (owned c t))) u) = insert ret (\<Union>u. owned c u)" by (auto split: if_splits)
    then show ?case using assms(2) xs by (simp add: sharing_inv_def)
  qed (use assms(2) xs f d o in \<open>auto simp: sharing_inv_def split: if_splits\<close>)
  then show ?thesis by blast
qed (use assms(2) in \<open>auto simp: sharing_inv_def intro!: exI [of _ xs]\<close>)

lemma owner_step_inv:
  assumes "owner_step t c c'" and "sharing_inv U c xs"
  shows "sharing_inv U c' xs"
  using assms(1)
proof cases
  case (1 obj word)
  then have "obj \<notin> set xs" using assms(2) by (auto simp: sharing_inv_def)
  then show ?thesis using assms(2) 1 by (auto simp: sharing_inv_def flist_upd)
qed

lemma allocs_inv: "allocs\<^sup>*\<^sup>* c c' \<Longrightarrow> sharing_inv U c xs \<Longrightarrow> \<exists>ys. sharing_inv U c' ys"
proof (induction rule: rtranclp_induct)
  case (step c1 c2)
  then show ?case using alloc_step_inv owner_step_inv unfolding allocs_def by blast
qed blast

section \<open>Properties\<close>

text \<open>
  C29: the slab heap hands out disjoint objects.  Whatever sequence of allocations and releases a
  client makes on a heap of \<open>n\<close> objects, no operation fails, the objects it holds are distinct objects
  of the heap, the next allocation returns none of them, and it returns null exactly if all \<open>n\<close> objects
  are in use.
\<close>

theorem slab_heap_objects_disjoint:
  assumes "m \<noteq> 0" and "8 \<le> unat sz" and "unat m + unat ms < 2 ^ 64" and "unat ms div unat sz = n"
  shows "\<exists>h. SlabHeap_Initialize sz new_SlabHeap m ms = Inr h \<and> unat (GetSlabHeapSize h) = n \<and>
           (\<forall>ops. \<exists>h' live. run_ops heap_alloc SlabHeap_Free ops h [] = Inr (h', live) \<and> distinct live \<and>
              set live \<subseteq> (\<lambda>i. m + of_nat i * sz) ` {..<n} \<and>
              (snd (heap_alloc h') = None \<longleftrightarrow> length live = n) \<and>
              (\<forall>x. snd (heap_alloc h') = Some x \<longrightarrow> x \<notin> set live))"
proof -
  have "n * unat sz \<le> unat ms" using assms(4) div_times_less_eq_dividend by blast
  then have l: "layout m sz n" using assms(1-3) by (simp add: layout_def)
  obtain h where h: "SlabHeap_Initialize sz new_SlabHeap m ms = Inr h" "heap_inv m sz n h" "heap_free h = objects m sz n"
    using SlabHeap_Initialize_inv [OF l assms(4)] by blast
  have a: "slab.apart m sz n h []" unfolding slab.apart_def using h l by simp
  have "\<exists>h' live. run_ops heap_alloc SlabHeap_Free ops h [] = Inr (h', live) \<and> distinct live \<and>
      set live \<subseteq> (\<lambda>i. m + of_nat i * sz) ` {..<n} \<and> (snd (heap_alloc h') = None \<longleftrightarrow> length live = n) \<and>
      (\<forall>x. snd (heap_alloc h') = Some x \<longrightarrow> x \<notin> set live)" for ops
  proof -
    obtain h' live where r: "run_ops heap_alloc SlabHeap_Free ops h [] = Inr (h', live)" "slab.apart m sz n h' live"
      using slab.client_keeps_apart [OF a] by blast
    have "set (objects m sz n) = (\<lambda>i. m + of_nat i * sz) ` {..<n}" "length (objects m sz n) = n"
      by (auto simp: objects_def obj_at_def)
    then show ?thesis using r slab.apart_facts [OF r(2)] l by auto
  qed
  moreover have "unat (GetSlabHeapSize h) = n" using heap_size [OF l] h(2) by (simp add: heap_inv_def)
  ultimately show ?thesis using h(1) by blast
qed

theorem slab_heap_objects_disjoint_witness:
  "\<exists>h h' live. SlabHeap_Initialize 16 new_SlabHeap 4096 40 = Inr h \<and>
     run_ops heap_alloc SlabHeap_Free [AllocOp, AllocOp, AllocOp, ReleaseOp 0] h [] = Inr (h', live) \<and> distinct live"
  using slab_heap_objects_disjoint [of 4096 16 40 2] by fastforce


definition three_free :: threads where
  "three_free = \<lparr>th_head = 8, th_nexts = (\<lambda>_. 0)(8 := 16, 16 := 24), th_pc = (\<lambda>_. Idle), owned = (\<lambda>_. {})\<rparr>"


text \<open>
  C31: concurrent allocation with frees is not exclusive.  From every state with at least two free
  objects in which two threads are idle there is an interleaving after which both threads own the
  same object: the exchange of the first thread succeeds although the head has been allocated and
  freed again in between, and it installs a successor that is in use.
\<close>

theorem allocate_free_race_shares_object:
  assumes "flist (th_nexts c) (th_head c) (x # y # zs)" and "th_pc c t = Idle" and "th_pc c u = Idle" and "t \<noteq> u"
    and "x \<noteq> y"
  shows "\<exists>c'. any_step\<^sup>*\<^sup>* c c' \<and> y \<in> owned c' t \<and> y \<in> owned c' u"
proof -
  have f: "th_head c = x" "x \<noteq> 0" "th_nexts c x = y" "y \<noteq> 0" using assms(1) by auto
  let ?c1 = "c\<lparr>th_pc := (th_pc c)(t := AllocCas x y)\<rparr>"
  let ?c2 = "?c1\<lparr>th_head := y, owned := (owned ?c1)(u := insert x (owned ?c1 u))\<rparr>"
  let ?c3 = "?c2\<lparr>th_head := th_nexts c y, owned := (owned ?c2)(u := insert y (owned ?c2 u))\<rparr>"
  let ?c4 = "?c3\<lparr>th_head := x, th_nexts := (th_nexts ?c3)(x := th_head ?c3), owned := (owned ?c3)(u := owned ?c3 u - {x})\<rparr>"
  let ?c5 = "?c4\<lparr>th_head := y, th_pc := (th_pc ?c4)(t := Idle), owned := (owned ?c4)(t := insert x (owned ?c4 t))\<rparr>"
  let ?c6 = "?c5\<lparr>th_head := th_nexts ?c5 y, owned := (owned ?c5)(t := insert y (owned ?c5 t))\<rparr>"
  have 1: "any_step\<^sup>*\<^sup>* c ?c1" using run_read [OF assms(2) f(1,2)] f(3) by simp
  have 2: "any_step\<^sup>*\<^sup>* ?c1 ?c2" using run_Allocate [of ?c1 u x] assms(3,4) f by simp
  have 3: "any_step\<^sup>*\<^sup>* ?c2 ?c3" using run_Allocate [of ?c2 u y] assms(3,4) f by simp
  have 4: "any_step\<^sup>*\<^sup>* ?c3 ?c4" by (rule run_Free [of ?c3 u x]) (use assms(3,4) in simp_all)
  have 5: "any_step\<^sup>*\<^sup>* ?c4 ?c5"
    by (rule any_step_alloc [OF alloc_step.exchange [of ?c4 t x y]]) (use assms(4) in simp_all)
  have 6: "any_step\<^sup>*\<^sup>* ?c5 ?c6" by (rule run_Allocate [of ?c5 t y]) (use f(4) in simp_all)
  have "any_step\<^sup>*\<^sup>* c ?c6"
    by (rule rtranclp_trans [OF rtranclp_trans [OF rtranclp_trans [OF 1 2] rtranclp_trans [OF 3 4]] rtranclp_trans [OF 5 6]])
  moreover have "y \<in> owned ?c6 t" "y \<in> owned ?c6 u" using assms(4,5) by simp_all
  ultimately show ?thesis by blast
qed

theorem allocate_free_race_shares_object_witness:
  "\<exists>c'. any_step\<^sup>*\<^sup>* three_free c' \<and> 16 \<in> owned c' 0 \<and> 16 \<in> owned c' 1"
  by (rule allocate_free_race_shares_object [of _ 8 16 "[24]"]) (simp_all add: three_free_def)

end
