(* ===== verification/System_Calls.thy ===== *)
theory System_Calls
  imports Prelude
begin

text \<open>
  The system calls of the memory and file components as a parameter: a record of functions on a
  state \<open>'w\<close> of the operating system, each returning its result and the state after the call.
  Operations of the program that make such calls return a result or an error, and the state after
  them in both cases.  Also here: \<^verbatim>\<open>base/alignment.h\<close>, the helpers for anonymous shared memory on Apple
  systems, which \<^verbatim>\<open>host/host_memory.cpp\<close> and \<^verbatim>\<open>runtime/backend/mem_map.cpp\<close> have in common, and the page
  vector of \<^verbatim>\<open>host/virtual_vector.h\<close>.
\<close>

section \<open>Operations on the state of the operating system\<close>

type_synonym ('w, 'a) io = "'w \<Rightarrow> 'a result \<times> 'w"

definition io_return :: "'a \<Rightarrow> ('w, 'a) io" where
  "io_return x w = (Inr x, w)"

definition io_throw :: "error \<Rightarrow> ('w, 'a) io" where
  "io_throw e w = (Inl e, w)"

definition io_bind :: "('w, 'a) io \<Rightarrow> ('a \<Rightarrow> ('w, 'b) io) \<Rightarrow> ('w, 'b) io" where
  "io_bind m f w = (case m w of (Inl e, w1) \<Rightarrow> (Inl e, w1) | (Inr x, w1) \<Rightarrow> f x w1)"

definition io_call :: "('w \<Rightarrow> 'a \<times> 'w) \<Rightarrow> ('w, 'a) io" where
  "io_call f w = (let (x, w1) = f w in (Inr x, w1))"

definition io_ASSERT :: "bool \<Rightarrow> ('w, unit) io" where
  "io_ASSERT c = (if c then io_return () else io_throw AssertFailed)"

text \<open>An exception that leaves a \<open>noexcept\<close> function or a destructor ends the program.\<close>

definition noexcept :: "('w, 'a) io \<Rightarrow> ('w, 'a) io" where
  "noexcept m w = (case m w of (Inl e, w1) \<Rightarrow> (Inl Abort, w1) | (Inr x, w1) \<Rightarrow> (Inr x, w1))"

definition catch_bad_alloc :: "('w, 'a) io \<Rightarrow> ('w, 'a) io \<Rightarrow> ('w, 'a) io" where
  "catch_bad_alloc m handler w =
     (case m w of (Inl BadAlloc, w1) \<Rightarrow> handler w1 | (r, w1) \<Rightarrow> (r, w1))"

lemma io_return_simp [simp]: "io_return x w = (Inr x, w)"
  by (simp add: io_return_def)

lemma io_throw_simp [simp]: "io_throw e w = (Inl e, w)"
  by (simp add: io_throw_def)

lemma io_ASSERT_simps [simp]: "io_ASSERT True w = (Inr (), w)" "io_ASSERT False w = (Inl AssertFailed, w)"
  by (simp_all add: io_ASSERT_def)

lemma io_ASSERT_Inr [simp]: "io_ASSERT c w = (Inr u, w1) \<longleftrightarrow> c \<and> w1 = w"
  by (auto simp: io_ASSERT_def)

lemma io_bind_Inr: "m w = (Inr x, w1) \<Longrightarrow> io_bind m f w = f x w1"
  by (simp add: io_bind_def)

lemma io_bind_Inl: "m w = (Inl e, w1) \<Longrightarrow> io_bind m f w = (Inl e, w1)"
  by (simp add: io_bind_def)

lemma io_bind_return [simp]: "io_bind (io_return x) f = f x"
  by (rule ext) (simp add: io_bind_def)

lemma io_bind_ASSERT [simp]: "io_bind (io_ASSERT c) f w = (if c then f () w else (Inl AssertFailed, w))"
  by (simp add: io_bind_def io_ASSERT_def)

lemma io_bind_call [simp]: "io_bind (io_call g) f w = f (fst (g w)) (snd (g w))"
  by (simp add: io_bind_def io_call_def split_beta)

lemma io_bind_InrE [elim]:
  assumes "io_bind m f w = (Inr y, w2)"
  obtains x w1 where "m w = (Inr x, w1)" and "f x w1 = (Inr y, w2)"
  using assms by (auto simp: io_bind_def split: prod.splits sum.splits)

section \<open>The calls\<close>

datatype platform = Linux | Android | FreeBSD | FreeBSD12 | Apple

datatype map_flag = MAP_SHARED | MAP_PRIVATE | MAP_ANONYMOUS | MAP_FIXED | MAP_NORESERVE | MAP_ALIGNED_SUPER

datatype advice = MADV_HUGEPAGE | MADV_DONTNEED | MADV_REMOVE

definition MAP_FAILED :: addr where
  "MAP_FAILED = - 1"

definition PROT_NONE :: u32 where "PROT_NONE = 0"
definition PROT_READ :: u32 where "PROT_READ = 1"
definition PROT_WRITE :: u32 where "PROT_WRITE = 2"
definition PROT_EXEC :: u32 where "PROT_EXEC = 4"

text \<open>
  \<open>sysconf_pagesize\<close> is the page size that \<open>sysconf\<close> reports, \<open>PageAlignment\<close> the value of
  \<open>getpagesize()\<close> that the program stores when it starts.  \<open>shm_open\<close> also gives whether the failure
  is \<open>EEXIST\<close>.  File descriptors are integers, -1 is the error value.
\<close>

record 'w posix =
  platform :: platform
  sysconf_pagesize :: size_t
  PageAlignment :: size_t
  memfd_create :: "'w \<Rightarrow> int \<times> 'w"
  shm_open_SHM_ANON :: "'w \<Rightarrow> int \<times> 'w"
  clock_gettime :: "'w \<Rightarrow> u64 \<times> 'w"
  shm_open :: "string \<Rightarrow> 'w \<Rightarrow> (int \<times> bool) \<times> 'w"
  shm_unlink :: "string \<Rightarrow> 'w \<Rightarrow> int \<times> 'w"
  ftruncate :: "int \<Rightarrow> size_t \<Rightarrow> 'w \<Rightarrow> int \<times> 'w"
  mmap :: "addr \<Rightarrow> size_t \<Rightarrow> u32 \<Rightarrow> map_flag set \<Rightarrow> int \<Rightarrow> size_t \<Rightarrow> 'w \<Rightarrow> addr \<times> 'w"
  munmap :: "addr \<Rightarrow> size_t \<Rightarrow> 'w \<Rightarrow> int \<times> 'w"
  mprotect :: "addr \<Rightarrow> size_t \<Rightarrow> u32 \<Rightarrow> 'w \<Rightarrow> int \<times> 'w"
  madvise :: "addr \<Rightarrow> size_t \<Rightarrow> advice \<Rightarrow> 'w \<Rightarrow> int \<times> 'w"
  mach_vm_remap :: "addr \<Rightarrow> size_t \<Rightarrow> bool \<Rightarrow> 'w \<Rightarrow> addr option \<times> 'w"
  close_fd :: "int \<Rightarrow> 'w \<Rightarrow> int \<times> 'w"

section \<open>Anonymous shared memory on Apple systems\<close>

definition shm_unlink_or_close :: "'w posix \<Rightarrow> string \<Rightarrow> int \<Rightarrow> ('w, int) io" where
  "shm_unlink_or_close os name fd =
     io_bind (io_call (shm_unlink os name)) (\<lambda>r.
     if r = -1 then io_bind (io_call (close_fd os fd)) (\<lambda>_. io_return (-1))
     else io_return fd)"

text \<open>The ten digits between the prefix and the end of the 16 byte buffer, lowest octal digit first.\<close>

fun fill_octal :: "nat \<Rightarrow> u64 \<Rightarrow> string" where
  "fill_octal 0 r = []"
| "fill_octal (Suc n) r = char_of (48 + unat (r mod 8)) # fill_octal n (r div 8)"

fun shm_open_tries :: "'w posix \<Rightarrow> nat \<Rightarrow> ('w, int) io" where
  "shm_open_tries os 0 = io_return (-1)"
| "shm_open_tries os (Suc n) =
     io_bind (io_call (clock_gettime os)) (\<lambda>r.
     let name = ''/shm-'' @ fill_octal 10 r in
     io_bind (io_call (shm_open os name)) (\<lambda>(fd, eexist).
     if fd \<noteq> -1 then shm_unlink_or_close os name fd
     else if \<not> eexist then io_return (-1)
     else shm_open_tries os n))"

definition shm_open_anon :: "'w posix \<Rightarrow> ('w, int) io" where
  "shm_open_anon os = shm_open_tries os 4"

section \<open>Alignment\<close>

definition AlignUp :: "u64 \<Rightarrow> size_t \<Rightarrow> u64" where
  "AlignUp v sz =
     (let md = v mod sz; v1 = v - md in if md = 0 then v1 else v1 + sz)"

definition AlignDown :: "u64 \<Rightarrow> size_t \<Rightarrow> u64" where
  "AlignDown v sz = v - v mod sz"

section \<open>Page vectors\<close>

definition AllocateMemoryPages :: "'w posix \<Rightarrow> size_t \<Rightarrow> ('w, addr) io" where
  "AllocateMemoryPages os sz =
     noexcept (io_bind (io_call (mmap os 0 sz (PROT_READ OR PROT_WRITE) {MAP_ANONYMOUS, MAP_PRIVATE} (-1) 0)) (\<lambda>p.
       let base = (if p = MAP_FAILED then 0 else p) in
       io_bind (io_ASSERT (base \<noteq> 0)) (\<lambda>_. io_return base)))"

definition FreeMemoryPages :: "'w posix \<Rightarrow> addr \<Rightarrow> size_t \<Rightarrow> ('w, unit) io" where
  "FreeMemoryPages os base sz =
     noexcept (if base = 0 then io_return ()
       else io_bind (io_call (munmap os base sz)) (\<lambda>r. io_ASSERT (r = 0)))"

record VirtualVector =
  alloc_size :: size_t
  base_ptr :: addr
  start_index :: size_t

definition VirtualVector_new :: "'w posix \<Rightarrow> size_t \<Rightarrow> size_t \<Rightarrow> ('w, VirtualVector) io" where
  "VirtualVector_new os sizeof_T n =
     io_bind (AllocateMemoryPages os (n * sizeof_T)) (\<lambda>p.
     io_return \<lparr>alloc_size = n * sizeof_T, base_ptr = p, start_index = 0\<rparr>)"

definition VirtualVector_destructor :: "'w posix \<Rightarrow> VirtualVector \<Rightarrow> ('w, unit) io" where
  "VirtualVector_destructor os v = FreeMemoryPages os (base_ptr v) (alloc_size v)"

definition VirtualVector_move_assign :: "VirtualVector \<Rightarrow> VirtualVector \<Rightarrow> VirtualVector \<times> VirtualVector" where
  "VirtualVector_move_assign v other =
     (v\<lparr>alloc_size := alloc_size other, base_ptr := base_ptr other\<rparr>, other\<lparr>alloc_size := 0, base_ptr := 0\<rparr>)"

definition VirtualVector_resize :: "'w posix \<Rightarrow> size_t \<Rightarrow> VirtualVector \<Rightarrow> size_t \<Rightarrow> ('w, VirtualVector) io" where
  "VirtualVector_resize os sizeof_T v n =
     (let new_size = n * sizeof_T in
      if new_size = alloc_size v then io_return v
      else io_bind (FreeMemoryPages os (base_ptr v) (alloc_size v)) (\<lambda>_.
           io_bind (AllocateMemoryPages os new_size) (\<lambda>p.
           io_return (v\<lparr>alloc_size := new_size, base_ptr := p\<rparr>))))"

definition VirtualVector_size :: "size_t \<Rightarrow> VirtualVector \<Rightarrow> size_t" where
  "VirtualVector_size sizeof_T v = alloc_size v div sizeof_T"

definition SetStartIndex :: "VirtualVector \<Rightarrow> size_t \<Rightarrow> VirtualVector" where
  "SetStartIndex v index = v\<lparr>start_index := index\<rparr>"

text \<open>The address of the element, and whether it lies inside the pages.\<close>

definition VirtualVector_at :: "size_t \<Rightarrow> VirtualVector \<Rightarrow> size_t \<Rightarrow> addr result" where
  "VirtualVector_at sizeof_T v index =
     (let i = index - start_index v in
      if i < VirtualVector_size sizeof_T v then Inr (base_ptr v + i * sizeof_T) else Inl OutOfBounds)"

text \<open>The comparison of the signed index with the unsigned size converts the index to unsigned.\<close>

definition Overlap :: "size_t \<Rightarrow> VirtualVector \<Rightarrow> size_t \<Rightarrow> bool" where
  "Overlap sizeof_T v index =
     (let i = index - start_index v in 0 \<le> sint i \<and> i \<le> VirtualVector_size sizeof_T v)"

end
