(* ===== verification/Host_Memory.thy ===== *)
theory Host_Memory
  imports System_Calls
begin

text \<open>
  The memory of the guest on the host, \<^verbatim>\<open>host/host_memory.cpp\<close>, for Linux, FreeBSD and Apple systems: a
  file that backs the physical memory of the guest and a reserved address range into which parts of
  the file are mapped.
\<close>

definition HugePageSize :: size_t where
  "HugePageSize = 0x200000"

section \<open>HostMemory::Impl\<close>

record HM_Impl =
  hi_fd :: int
  hi_backing_size :: size_t
  hi_virtual_size :: size_t
  hi_backing_base :: addr
  hi_virtual_base :: addr

definition HM_Release :: "'w posix \<Rightarrow> HM_Impl \<Rightarrow> ('w, unit) io" where
  "HM_Release os i =
     io_bind (if hi_virtual_base i \<noteq> MAP_FAILED
              then io_bind (io_call (munmap os (hi_virtual_base i) (hi_virtual_size i))) (\<lambda>ret. io_ASSERT (ret = 0))
              else io_return ()) (\<lambda>_.
     io_bind (if hi_backing_base i \<noteq> MAP_FAILED
              then io_bind (io_call (munmap os (hi_backing_base i) (hi_backing_size i))) (\<lambda>ret. io_ASSERT (ret = 0))
              else io_return ()) (\<lambda>_.
     if hi_fd i \<noteq> -1
     then io_bind (io_call (close_fd os (hi_fd i))) (\<lambda>ret. io_ASSERT (ret = 0))
     else io_return ()))"

text \<open>\<open>throw std::bad_alloc\<close> in a constructor: the scope guard releases what has been acquired.\<close>

definition HM_bad_alloc :: "'w posix \<Rightarrow> HM_Impl \<Rightarrow> ('w, HM_Impl) io" where
  "HM_bad_alloc os i = io_bind (noexcept (HM_Release os i)) (\<lambda>_. io_throw BadAlloc)"

definition HM_backing_fd :: "'w posix \<Rightarrow> ('w, int) io" where
  "HM_backing_fd os =
     (case platform os of
        FreeBSD12 \<Rightarrow> io_call (shm_open_SHM_ANON os)
      | Apple \<Rightarrow> shm_open_anon os
      | _ \<Rightarrow> io_call (memfd_create os))"

definition HM_Impl_kern :: "'w posix \<Rightarrow> size_t \<Rightarrow> ('w, HM_Impl) io" where
  "HM_Impl_kern os backing_size =
     (let i = \<lparr>hi_fd = -1, hi_backing_size = backing_size, hi_virtual_size = 0,
               hi_backing_base = MAP_FAILED, hi_virtual_base = MAP_FAILED\<rparr> in
      if sysconf_pagesize os \<noteq> PageAlignment os then HM_bad_alloc os i
      else io_bind (HM_backing_fd os) (\<lambda>fd.
        let i1 = i\<lparr>hi_fd := fd\<rparr> in
        if fd = -1 then HM_bad_alloc os i1
        else io_bind (io_call (ftruncate os fd backing_size)) (\<lambda>ret.
          if ret \<noteq> 0 then HM_bad_alloc os i1
          else io_bind (io_call (mmap os 0 backing_size (PROT_READ OR PROT_WRITE) {MAP_SHARED} fd 0)) (\<lambda>p.
            let i2 = i1\<lparr>hi_backing_base := p\<rparr> in
            if p = MAP_FAILED then HM_bad_alloc os i2 else io_return i2))))"

definition HM_reserve :: "'w posix \<Rightarrow> size_t \<Rightarrow> ('w, addr) io" where
  "HM_reserve os virtual_size =
     (if platform os = FreeBSD \<or> platform os = FreeBSD12 then
        io_bind (io_call (mmap os 0 virtual_size PROT_NONE {MAP_PRIVATE, MAP_ANONYMOUS, MAP_ALIGNED_SUPER} (-1) 0)) (\<lambda>p.
        if p = MAP_FAILED then io_call (mmap os 0 virtual_size PROT_NONE {MAP_PRIVATE, MAP_ANONYMOUS} (-1) 0)
        else io_return p)
      else io_call (mmap os 0 virtual_size PROT_NONE {MAP_PRIVATE, MAP_ANONYMOUS, MAP_NORESERVE} (-1) 0))"

definition HM_Impl_user :: "'w posix \<Rightarrow> int \<Rightarrow> size_t \<Rightarrow> size_t \<Rightarrow> ('w, HM_Impl) io" where
  "HM_Impl_user os fd backing_size virtual_size =
     (let i = \<lparr>hi_fd = fd, hi_backing_size = backing_size, hi_virtual_size = virtual_size,
               hi_backing_base = MAP_FAILED, hi_virtual_base = MAP_FAILED\<rparr> in
      if sysconf_pagesize os \<noteq> PageAlignment os then HM_bad_alloc os i
      else if fd = -1 then HM_bad_alloc os i
      else io_bind (HM_reserve os virtual_size) (\<lambda>p.
        let i1 = i\<lparr>hi_virtual_base := p\<rparr> in
        if p = MAP_FAILED then HM_bad_alloc os i1
        else if platform os = Linux \<or> platform os = Android
        then io_bind (io_call (madvise os p virtual_size MADV_HUGEPAGE)) (\<lambda>_. io_return i1)
        else io_return i1))"

definition HM_Impl_destructor :: "'w posix \<Rightarrow> HM_Impl \<Rightarrow> ('w, unit) io" where
  "HM_Impl_destructor os i = noexcept (HM_Release os i)"

definition HM_Impl_Map :: "'w posix \<Rightarrow> HM_Impl \<Rightarrow> size_t \<Rightarrow> size_t \<Rightarrow> size_t \<Rightarrow> ('w, unit) io" where
  "HM_Impl_Map os i virtual_offset host_offset len =
     io_bind (io_call (mmap os (hi_virtual_base i + virtual_offset) len (PROT_READ OR PROT_WRITE)
                         {MAP_SHARED, MAP_FIXED} (hi_fd i) host_offset)) (\<lambda>ret.
     io_ASSERT (ret \<noteq> MAP_FAILED))"

definition HM_Impl_Unmap :: "'w posix \<Rightarrow> HM_Impl \<Rightarrow> size_t \<Rightarrow> size_t \<Rightarrow> ('w, unit) io" where
  "HM_Impl_Unmap os i virtual_offset len =
     io_bind (io_call (mmap os (hi_virtual_base i + virtual_offset) len PROT_NONE
                         {MAP_PRIVATE, MAP_ANONYMOUS, MAP_FIXED} (-1) 0)) (\<lambda>ret.
     io_ASSERT (ret \<noteq> MAP_FAILED))"

definition HM_Impl_Free :: "'w posix \<Rightarrow> HM_Impl \<Rightarrow> size_t \<Rightarrow> size_t \<Rightarrow> ('w, unit) io" where
  "HM_Impl_Free os i host_offset len =
     io_bind (io_call (madvise os (hi_backing_base i + host_offset) len
                         (if platform os = Apple then MADV_DONTNEED else MADV_REMOVE))) (\<lambda>_. io_return ())"

definition protect_flags :: "bool \<Rightarrow> bool \<Rightarrow> bool \<Rightarrow> u32" where
  "protect_flags rd wr ex =
     (let f0 = PROT_NONE;
          f1 = (if rd then f0 OR PROT_READ else f0);
          f2 = (if wr then f1 OR PROT_WRITE else f1)
      in if ex then f2 OR PROT_EXEC else f2)"

definition HM_Impl_Protect ::
  "'w posix \<Rightarrow> HM_Impl \<Rightarrow> size_t \<Rightarrow> size_t \<Rightarrow> bool \<Rightarrow> bool \<Rightarrow> bool \<Rightarrow> ('w, unit) io" where
  "HM_Impl_Protect os i virtual_offset len rd wr ex =
     io_bind (io_call (mprotect os (hi_virtual_base i + virtual_offset) len (protect_flags rd wr ex))) (\<lambda>ret.
     io_ASSERT (ret = 0))"

section \<open>HostMemory\<close>

record HostMemory =
  backing_size :: size_t
  virtual_size :: size_t
  impl :: "HM_Impl option"
  backing_base :: addr
  virtual_base :: addr
  virtual_base_offset :: size_t
  fallback_buffer :: "VirtualVector option"

definition HM_fallback :: "'w posix \<Rightarrow> HostMemory \<Rightarrow> ('w, HostMemory) io" where
  "HM_fallback os h =
     io_bind (VirtualVector_new os 1 (backing_size h)) (\<lambda>v.
     io_return (h\<lparr>fallback_buffer := Some v, backing_base := base_ptr v, virtual_base := 0\<rparr>))"

definition HM_blank :: "size_t \<Rightarrow> size_t \<Rightarrow> HostMemory" where
  "HM_blank bs vs = \<lparr>backing_size = bs, virtual_size = vs, impl = None, backing_base = 0, virtual_base = 0,
     virtual_base_offset = 0, fallback_buffer = None\<rparr>"

definition CreateForKern :: "'w posix \<Rightarrow> size_t \<Rightarrow> ('w, HostMemory) io" where
  "CreateForKern os bs =
     (let h = HM_blank bs 0 in
      catch_bad_alloc
        (io_bind (HM_Impl_kern os (AlignUp bs (PageAlignment os))) (\<lambda>i.
         io_return (h\<lparr>impl := Some i, backing_base := hi_backing_base i\<rparr>)))
        (HM_fallback os h))"

definition align_virtual_base :: "HostMemory \<Rightarrow> HM_Impl \<Rightarrow> HostMemory" where
  "align_virtual_base h i =
     (if virtual_base h \<noteq> 0 then
        (let b1 = virtual_base h + (2 * HugePageSize - 1);
             b2 = b1 - (b1 AND (HugePageSize - 1))
         in h\<lparr>virtual_base := b2, virtual_base_offset := b2 - hi_virtual_base i\<rparr>)
      else h)"

definition CreateForUser :: "'w posix \<Rightarrow> int \<Rightarrow> size_t \<Rightarrow> size_t \<Rightarrow> ('w, HostMemory) io" where
  "CreateForUser os fd bs vs =
     (let h = HM_blank bs vs in
      catch_bad_alloc
        (io_bind (HM_Impl_user os fd (AlignUp bs (PageAlignment os))
                    (AlignUp vs (PageAlignment os) + 3 * HugePageSize)) (\<lambda>i.
         io_return (align_virtual_base (h\<lparr>impl := Some i, backing_base := hi_backing_base i,
                                          virtual_base := hi_virtual_base i\<rparr>) i)))
        (HM_fallback os h))"

text \<open>The destructor destroys the members in reverse order.\<close>

definition HostMemory_destructor :: "'w posix \<Rightarrow> HostMemory \<Rightarrow> ('w, unit) io" where
  "HostMemory_destructor os h =
     io_bind (case fallback_buffer h of None \<Rightarrow> io_return () | Some v \<Rightarrow> VirtualVector_destructor os v) (\<lambda>_.
     case impl h of None \<Rightarrow> io_return () | Some i \<Rightarrow> HM_Impl_destructor os i)"

text \<open>The move constructor: the new object and what is left of the old one.\<close>

definition HostMemory_move :: "HostMemory \<Rightarrow> HostMemory \<times> HostMemory" where
  "HostMemory_move h = (h, h\<lparr>impl := None, fallback_buffer := None\<rparr>)"

definition HostMemory_Map :: "'w posix \<Rightarrow> HostMemory \<Rightarrow> size_t \<Rightarrow> size_t \<Rightarrow> size_t \<Rightarrow> ('w, unit) io" where
  "HostMemory_Map os h virtual_offset host_offset len =
     io_bind (io_ASSERT (virtual_offset mod PageAlignment os = 0)) (\<lambda>_.
     io_bind (io_ASSERT (host_offset mod PageAlignment os = 0)) (\<lambda>_.
     io_bind (io_ASSERT (len mod PageAlignment os = 0)) (\<lambda>_.
     io_bind (io_ASSERT (virtual_offset + len \<le> virtual_size h)) (\<lambda>_.
     io_bind (io_ASSERT (host_offset + len \<le> backing_size h)) (\<lambda>_.
     case impl h of
       None \<Rightarrow> io_return ()
     | Some i \<Rightarrow>
         if len = 0 \<or> virtual_base h = 0 then io_return ()
         else HM_Impl_Map os i (virtual_offset + virtual_base_offset h) host_offset len)))))"

definition HostMemory_Unmap :: "'w posix \<Rightarrow> HostMemory \<Rightarrow> size_t \<Rightarrow> size_t \<Rightarrow> ('w, unit) io" where
  "HostMemory_Unmap os h virtual_offset len =
     io_bind (io_ASSERT (virtual_offset mod PageAlignment os = 0)) (\<lambda>_.
     io_bind (io_ASSERT (len mod PageAlignment os = 0)) (\<lambda>_.
     io_bind (io_ASSERT (virtual_offset + len \<le> virtual_size h)) (\<lambda>_.
     case impl h of
       None \<Rightarrow> io_return ()
     | Some i \<Rightarrow>
         if len = 0 \<or> virtual_base h = 0 then io_return ()
         else HM_Impl_Unmap os i (virtual_offset + virtual_base_offset h) len)))"

definition HostMemory_Free :: "'w posix \<Rightarrow> HostMemory \<Rightarrow> size_t \<Rightarrow> size_t \<Rightarrow> ('w, unit) io" where
  "HostMemory_Free os h host_offset len =
     io_bind (io_ASSERT (host_offset mod PageAlignment os = 0)) (\<lambda>_.
     io_bind (io_ASSERT (len mod PageAlignment os = 0)) (\<lambda>_.
     io_bind (io_ASSERT (host_offset + len \<le> backing_size h)) (\<lambda>_.
     case impl h of
       None \<Rightarrow> io_return ()
     | Some i \<Rightarrow> if len = 0 then io_return () else HM_Impl_Free os i host_offset len)))"

definition HostMemory_Protect ::
  "'w posix \<Rightarrow> HostMemory \<Rightarrow> size_t \<Rightarrow> size_t \<Rightarrow> bool \<Rightarrow> bool \<Rightarrow> bool \<Rightarrow> ('w, unit) io" where
  "HostMemory_Protect os h virtual_offset len rd wr ex =
     io_bind (io_ASSERT (virtual_offset mod PageAlignment os = 0)) (\<lambda>_.
     io_bind (io_ASSERT (len mod PageAlignment os = 0)) (\<lambda>_.
     io_bind (io_ASSERT (virtual_offset + len \<le> virtual_size h)) (\<lambda>_.
     case impl h of
       None \<Rightarrow> io_return ()
     | Some i \<Rightarrow>
         if len = 0 \<or> virtual_base h = 0 then io_return ()
         else HM_Impl_Protect os i (virtual_offset + virtual_base_offset h) len rd wr ex)))"

end
