(* ===== verification/Host_Memory_Proofs.thy ===== *)
theory Host_Memory_Proofs
  imports Host_Memory
begin

text \<open>
  The guest memory of \<^verbatim>\<open>host/host_memory.cpp\<close>: the range of the guest inside the reserved address range, the
  operations as updates of a page table, and the range check on offsets that wrap around.
\<close>

section \<open>Alignment\<close>

lemma unat_AlignUp:
  assumes "sz \<noteq> 0" and "unat v + unat sz \<le> 2 ^ 64"
  shows "unat v \<le> unat (AlignUp v sz)" and "unat (AlignUp v sz) < unat v + unat sz"
    and "unat (AlignUp v sz) mod unat sz = 0"
proof -
  define d r where "d = unat v div unat sz" and "r = unat v mod unat sz"
  have v: "unat v = d * unat sz + r" and r: "r < unat sz"
    using assms(1) by (simp_all add: d_def r_def unat_gt_0)
  have md: "unat (v mod sz) = r" unfolding r_def by (rule unat_mod)
  then have down: "unat (v - v mod sz) = d * unat sz"
    using unat_sub [of "v mod sz" v] v by (simp add: word_le_nat_alt)
  have "unat (AlignUp v sz) = (if r = 0 then d * unat sz else (d + 1) * unat sz)"
  proof (cases "r = 0")
    case True
    then show ?thesis using md down by (simp add: AlignUp_def Let_def unat_eq_zero)
  next
    case False
    then have "unat (v - v mod sz + sz) = d * unat sz + unat sz"
      using down assms(2) v by (simp add: unat_word_ariths)
    moreover have "v mod sz \<noteq> 0" using md False by (metis unsigned_0)
    ultimately show ?thesis using False by (simp add: AlignUp_def Let_def)
  qed
  then show "unat v \<le> unat (AlignUp v sz)" "unat (AlignUp v sz) < unat v + unat sz"
    "unat (AlignUp v sz) mod unat sz = 0" using v r by auto
qed

lemma huge_page: "unat HugePageSize = 2 ^ 21" "HugePageSize - 1 = mask 21"
  by (simp_all add: HugePageSize_def mask_eq_exp_minus_1)

lemma unat_round_up:
  fixes b :: addr
  assumes "unat b + 2 ^ 22 \<le> 2 ^ 64"
  shows "unat (b + (2 * HugePageSize - 1) - ((b + (2 * HugePageSize - 1)) AND (HugePageSize - 1)))
           = (unat b + 2 ^ 22 - 1) div 2 ^ 21 * 2 ^ 21"
proof -
  let ?b = "b + (2 * HugePageSize - 1)"
  have "unat (2 * HugePageSize - 1 :: addr) = 2 ^ 22 - 1" by (simp add: HugePageSize_def)
  then have b: "unat ?b = unat b + 2 ^ 22 - 1" using assms by (simp add: unat_word_ariths)
  have m: "unat (?b AND (HugePageSize - 1)) = unat ?b mod 2 ^ 21"
    unfolding huge_page(2) by (rule unat_and_mask)
  then have "unat (?b - (?b AND (HugePageSize - 1))) = unat ?b - unat ?b mod 2 ^ 21"
    by (subst unat_sub) (simp_all add: word_le_nat_alt mod_less_eq_dividend)
  then show ?thesis using b by (simp only: minus_mod_eq_div_mult)
qed

lemma round_up_bounds: "b + 2 ^ 21 \<le> (b + 2 ^ 22 - 1) div 2 ^ 21 * 2 ^ 21" "(b + 2 ^ 22 - 1) div 2 ^ 21 * 2 ^ 21 < b + (2 ^ 22 :: nat)"
proof -
  define q r where "q = (b + 2 ^ 22 - 1) div 2 ^ 21" and "r = (b + 2 ^ 22 - 1) mod 2 ^ 21"
  have "b + 2 ^ 22 - 1 = q * 2 ^ 21 + r" "r < 2 ^ 21" by (simp_all add: q_def r_def)
  then show "b + 2 ^ 21 \<le> (b + 2 ^ 22 - 1) div 2 ^ 21 * 2 ^ 21" "(b + 2 ^ 22 - 1) div 2 ^ 21 * 2 ^ 21 < b + (2 ^ 22 :: nat)"
    unfolding q_def [symmetric] by simp_all
qed

section \<open>What the operating system promises\<close>

text \<open>
  The documented behaviour of \<open>mmap\<close>.  \<open>view w a\<close> is the byte of a file that is visible at the address
  \<open>a\<close>.  Without \<open>MAP_FIXED\<close> a successful call returns the address of an area of the address space; with
  it a successful call replaces what the area at the given address shows.
\<close>

definition mmap_laws :: "'w posix \<Rightarrow> ('w \<Rightarrow> addr \<Rightarrow> (int \<times> size_t) option) \<Rightarrow> bool" where
  "mmap_laws os view \<longleftrightarrow>
     (\<forall>len prot fl fd off w p w1. mmap os 0 len prot fl fd off w = (p, w1) \<longrightarrow> MAP_FIXED \<notin> fl \<longrightarrow> p \<noteq> MAP_FAILED \<longrightarrow>
        p \<noteq> 0 \<and> unat p + unat len \<le> 2 ^ 64) \<and>
     (\<forall>a len prot fl fd off w p w1. mmap os a len prot fl fd off w = (p, w1) \<longrightarrow> MAP_FIXED \<in> fl \<longrightarrow> p \<noteq> MAP_FAILED \<longrightarrow>
        view w1 = (\<lambda>b. if b - a < len then (if MAP_ANONYMOUS \<in> fl then None else Some (fd, off + (b - a))) else view w b)) \<and>
     (\<forall>a len prot w r w1. mprotect os a len prot w = (r, w1) \<longrightarrow> view w1 = view w)"

lemma mmap_area:
  assumes "mmap_laws os view" and "mmap os 0 len prot fl fd off w = (p, w1)" and "MAP_FIXED \<notin> fl" and "p \<noteq> MAP_FAILED"
  shows "p \<noteq> 0 \<and> unat p + unat len \<le> 2 ^ 64"
  by (rule assms(1) [unfolded mmap_laws_def, THEN conjunct1, rule_format, OF assms(2-4)])

lemma mmap_fixed:
  assumes "mmap_laws os view" and "mmap os a len prot fl fd off w = (p, w1)" and "MAP_FIXED \<in> fl" and "p \<noteq> MAP_FAILED"
  shows "view w1 = (\<lambda>b. if b - a < len then (if MAP_ANONYMOUS \<in> fl then None else Some (fd, off + (b - a))) else view w b)"
  by (rule assms(1) [unfolded mmap_laws_def, THEN conjunct2, THEN conjunct1, rule_format, OF assms(2-4)])

lemma mprotect_view:
  assumes "mmap_laws os view" and "mprotect os a len prot w = (r, w1)"
  shows "view w1 = view w"
  by (rule assms(1) [unfolded mmap_laws_def, THEN conjunct2, THEN conjunct2, rule_format, OF assms(2)])

section \<open>The reserved area\<close>

text \<open>
  \<open>arena h i\<close>: the range of the guest starts at a huge page and lies inside the area that the
  implementation has reserved.
\<close>

definition arena :: "HostMemory \<Rightarrow> HM_Impl \<Rightarrow> bool" where
  "arena h i \<longleftrightarrow> impl h = Some i \<and> virtual_base h \<noteq> 0 \<and>
     virtual_base h = hi_virtual_base i + virtual_base_offset h \<and>
     unat (virtual_base h) mod 2 ^ 21 = 0 \<and>
     unat (hi_virtual_base i) + 2 ^ 21 \<le> unat (virtual_base h) \<and> unat (virtual_base_offset h) < 2 ^ 22 \<and>
     unat (virtual_base h) + unat (virtual_size h) \<le> unat (hi_virtual_base i) + unat (hi_virtual_size i) \<and>
     unat (hi_virtual_base i) + unat (hi_virtual_size i) \<le> 2 ^ 64"

lemma HM_reserve_area:
  assumes "mmap_laws os view" and "HM_reserve os len w = (Inr p, w1)" and "p \<noteq> MAP_FAILED"
  shows "p \<noteq> 0" and "unat p + unat len \<le> 2 ^ 64"
proof -
  obtain fl w2 where "MAP_FIXED \<notin> fl" "mmap os 0 len PROT_NONE fl (-1) 0 w2 = (p, w1)"
  proof (cases "platform os = FreeBSD \<or> platform os = FreeBSD12")
    case True
    let ?m = "mmap os 0 len PROT_NONE {MAP_PRIVATE, MAP_ANONYMOUS, MAP_ALIGNED_SUPER} (-1) 0 w"
    show ?thesis
    proof (cases "fst ?m = MAP_FAILED")
      case True
      then show ?thesis using assms(2) \<open>platform os = FreeBSD \<or> platform os = FreeBSD12\<close>
        by (intro that [of "{MAP_PRIVATE, MAP_ANONYMOUS}" "snd ?m"])
          (auto simp: HM_reserve_def io_call_def split: prod.splits)
    next
      case False
      then show ?thesis using assms(2) \<open>platform os = FreeBSD \<or> platform os = FreeBSD12\<close>
        by (intro that [of "{MAP_PRIVATE, MAP_ANONYMOUS, MAP_ALIGNED_SUPER}" w])
          (auto simp: HM_reserve_def prod_eq_iff)
    qed
  next
    case False
    then show ?thesis using assms(2)
      by (intro that [of "{MAP_PRIVATE, MAP_ANONYMOUS, MAP_NORESERVE}" w])
        (auto simp: HM_reserve_def io_call_def split: prod.splits)
  qed
  then show "p \<noteq> 0" "unat p + unat len \<le> 2 ^ 64" using mmap_area [OF assms(1)] assms(3) by blast+
qed

lemma HM_bad_alloc_fails: "fst (HM_bad_alloc os i w) \<noteq> Inr x"
  by (auto simp: HM_bad_alloc_def io_bind_def split: prod.splits sum.splits)

lemma HM_Impl_user_area:
  assumes "mmap_laws os view" and "HM_Impl_user os fd bs vs w = (Inr i, w1)"
  shows "hi_fd i = fd" and "hi_virtual_size i = vs" and "hi_virtual_base i \<noteq> 0"
    and "unat (hi_virtual_base i) + unat vs \<le> 2 ^ 64"
proof -
  have no: "HM_bad_alloc os j w2 = (Inr x, w3) \<Longrightarrow> False" for j w2 x w3
    using HM_bad_alloc_fails [of os j w2 x] by simp
  obtain p w2 where p: "HM_reserve os vs w = (Inr p, w2)"
    using assms(2) by (auto simp: HM_Impl_user_def Let_def dest: no split: if_splits)
  then have q: "p \<noteq> MAP_FAILED" "hi_fd i = fd \<and> hi_virtual_size i = vs \<and> hi_virtual_base i = p"
    using assms(2) by (auto simp: HM_Impl_user_def Let_def io_bind_Inr dest: no split: if_splits)
  then show "hi_fd i = fd" "hi_virtual_size i = vs" "hi_virtual_base i \<noteq> 0"
    "unat (hi_virtual_base i) + unat vs \<le> 2 ^ 64"
    using HM_reserve_area [OF assms(1) p] by auto
qed

lemma align_virtual_base_arena:
  assumes "virtual_base h = hi_virtual_base i" and "impl h = Some i" and "hi_virtual_base i \<noteq> 0"
    and "unat (hi_virtual_base i) + unat (hi_virtual_size i) \<le> 2 ^ 64"
    and "unat (virtual_size h) + 3 * 2 ^ 21 \<le> unat (hi_virtual_size i)"
  shows "arena (align_virtual_base h i) i"
proof -
  let ?b = "unat (hi_virtual_base i)"
  let ?h = "align_virtual_base h i"
  have r: "unat (virtual_base ?h) = (?b + 2 ^ 22 - 1) div 2 ^ 21 * 2 ^ 21"
    using unat_round_up [of "hi_virtual_base i"] assms by (simp add: align_virtual_base_def Let_def)
  then have le: "?b + 2 ^ 21 \<le> unat (virtual_base ?h)" "unat (virtual_base ?h) < ?b + 2 ^ 22"
    using round_up_bounds [of ?b] by simp_all
  have o: "virtual_base_offset ?h = virtual_base ?h - hi_virtual_base i" "virtual_size ?h = virtual_size h" "impl ?h = Some i"
    using assms by (simp_all add: align_virtual_base_def Let_def)
  then have "unat (virtual_base_offset ?h) = unat (virtual_base ?h) - ?b"
    using unat_sub [of "hi_virtual_base i" "virtual_base ?h"] le(1) by (simp add: word_le_nat_alt)
  moreover have "unat (virtual_base ?h) mod 2 ^ 21 = 0" unfolding r by simp
  moreover have "virtual_base ?h \<noteq> 0" using le(1) by auto
  ultimately show ?thesis unfolding arena_def using le o assms(4,5) by auto
qed

lemma CreateForUser_arena:
  assumes "mmap_laws os view" and "PageAlignment os \<noteq> 0"
    and "unat vs + unat (PageAlignment os) + 3 * 2 ^ 21 \<le> 2 ^ 64"
    and "CreateForUser os fd bs vs w = (Inr h, w1)" and "impl h = Some i"
  shows "arena h i" and "hi_fd i = fd" and "virtual_size h = vs" and "backing_size h = bs"
proof -
  let ?vs = "AlignUp vs (PageAlignment os) + 3 * HugePageSize"
  have vs: "unat vs + 3 * 2 ^ 21 \<le> unat ?vs"
  proof -
    have "unat (3 * HugePageSize) = 3 * 2 ^ 21" by (simp add: HugePageSize_def)
    then have "unat ?vs = unat (AlignUp vs (PageAlignment os)) + 3 * 2 ^ 21"
      using unat_AlignUp(2) [OF assms(2), of vs] assms(3) by (simp add: unat_word_ariths)
    then show ?thesis using unat_AlignUp(1) [OF assms(2), of vs] assms(3) by simp
  qed
  have nofb: "HM_fallback os (HM_blank bs vs) w2 = (Inr h, w1) \<Longrightarrow> False" for w2
    using assms(5) by (auto simp: HM_fallback_def HM_blank_def elim!: io_bind_InrE)
  obtain j where j: "HM_Impl_user os fd (AlignUp bs (PageAlignment os)) ?vs w = (Inr j, w1)"
    "h = align_virtual_base (HM_blank bs vs\<lparr>impl := Some j, backing_base := hi_backing_base j,
           virtual_base := hi_virtual_base j\<rparr>) j"
    using assms(4) by (auto simp: CreateForUser_def Let_def catch_bad_alloc_def io_bind_def
        dest: nofb split: prod.splits sum.splits error.splits)
  then have ij: "j = i" using assms(5) by (auto simp: align_virtual_base_def Let_def split: if_splits)
  note area = HM_Impl_user_area [OF assms(1) j(1)]
  show "arena h i" unfolding j(2) ij
    by (rule align_virtual_base_arena) (use area vs ij in \<open>auto simp: HM_blank_def\<close>)
  show "hi_fd i = fd" "virtual_size h = vs" "backing_size h = bs"
    using area ij j(2) by (auto simp: HM_blank_def align_virtual_base_def Let_def)
qed

section \<open>The guest's view\<close>

text \<open>What the guest sees at the offset \<open>v\<close>, and the same as a table of pages with two operations.\<close>

definition guest_view :: "('w \<Rightarrow> addr \<Rightarrow> (int \<times> size_t) option) \<Rightarrow> HostMemory \<Rightarrow> 'w \<Rightarrow> size_t \<Rightarrow> (int \<times> size_t) option" where
  "guest_view view h w v = (if v < virtual_size h then view w (virtual_base h + v) else None)"

datatype hm_op = MapOp size_t size_t size_t | UnmapOp size_t size_t | ProtectOp size_t size_t bool bool bool

fun run_hm_op :: "'w posix \<Rightarrow> HostMemory \<Rightarrow> hm_op \<Rightarrow> ('w, unit) io" where
  "run_hm_op os h (MapOp v ho len) = HostMemory_Map os h v ho len"
| "run_hm_op os h (UnmapOp v len) = HostMemory_Unmap os h v len"
| "run_hm_op os h (ProtectOp v len rd wr ex) = HostMemory_Protect os h v len rd wr ex"

fun run_hm_ops :: "'w posix \<Rightarrow> HostMemory \<Rightarrow> hm_op list \<Rightarrow> ('w, unit) io" where
  "run_hm_ops os h [] = io_return ()"
| "run_hm_ops os h (op # ops) = io_bind (run_hm_op os h op) (\<lambda>_. run_hm_ops os h ops)"

fun page_op :: "int \<Rightarrow> hm_op \<Rightarrow> (size_t \<Rightarrow> (int \<times> size_t) option) \<Rightarrow> size_t \<Rightarrow> (int \<times> size_t) option" where
  "page_op fd (MapOp v ho len) pt = (\<lambda>x. if x \<in> {v..<v + len} then Some (fd, ho + (x - v)) else pt x)"
| "page_op fd (UnmapOp v len) pt = (\<lambda>x. if x \<in> {v..<v + len} then None else pt x)"
| "page_op fd (ProtectOp v len rd wr ex) pt = pt"

text \<open>The range of the operation does not wrap around.\<close>

fun op_fits :: "hm_op \<Rightarrow> bool" where
  "op_fits (MapOp v ho len) \<longleftrightarrow> unat v + unat len < 2 ^ 64"
| "op_fits (UnmapOp v len) \<longleftrightarrow> unat v + unat len < 2 ^ 64"
| "op_fits (ProtectOp v len rd wr ex) \<longleftrightarrow> unat v + unat len < 2 ^ 64"

lemma range_offset:
  fixes v len x :: size_t
  assumes "unat v + unat len < 2 ^ 64"
  shows "x - v < len \<longleftrightarrow> x \<in> {v..<v + len}"
proof -
  have s: "unat (v + len) = unat v + unat len" using assms by (simp add: unat_word_ariths)
  show ?thesis
  proof (cases "v \<le> x")
    case True
    then show ?thesis using s unat_sub [OF True] by (auto simp: word_less_nat_alt word_le_nat_alt)
  next
    case False
    then have "unat (x - v) = 2 ^ 64 - (unat v - unat x)"
      using unat_sub_if_size [of x v] by (simp add: word_size word_le_nat_alt)
    then show ?thesis using False assms by (auto simp: word_less_nat_alt word_le_nat_alt)
  qed
qed

lemma override_view:
  assumes "unat v + unat len < 2 ^ 64" and "virtual_base h = hi_virtual_base i + virtual_base_offset h"
    and "v + len \<le> virtual_size h"
    and "view w1 = (\<lambda>b. if b - (hi_virtual_base i + (v + virtual_base_offset h)) < len
                        then g (b - (hi_virtual_base i + (v + virtual_base_offset h))) else view w b)"
  shows "guest_view view h w1 = (\<lambda>x. if x \<in> {v..<v + len} then g (x - v) else guest_view view h w x)"
proof
  fix x
  have e: "virtual_base h + x - (hi_virtual_base i + (v + virtual_base_offset h)) = x - v"
    using assms(2) by (simp add: algebra_simps)
  have "view w1 (virtual_base h + x) = (if x \<in> {v..<v + len} then g (x - v) else view w (virtual_base h + x))"
    by (simp only: assms(4) e range_offset [OF assms(1)])
  moreover have "x \<in> {v..<v + len} \<Longrightarrow> x < virtual_size h" using assms(3) by auto
  ultimately show "guest_view view h w1 x = (if x \<in> {v..<v + len} then g (x - v) else guest_view view h w x)"
    by (auto simp: guest_view_def)
qed

lemma HostMemory_Map_call:
  assumes "HostMemory_Map os h v ho len w = (Inr (), w1)" and "arena h i" and "len \<noteq> 0"
  obtains p where "mmap os (hi_virtual_base i + (v + virtual_base_offset h)) len (PROT_READ OR PROT_WRITE)
        {MAP_SHARED, MAP_FIXED} (hi_fd i) ho w = (p, w1)" and "p \<noteq> MAP_FAILED" and "v + len \<le> virtual_size h"
  using assms by (cases "mmap os (hi_virtual_base i + (v + virtual_base_offset h)) len (PROT_READ OR PROT_WRITE)
        {MAP_SHARED, MAP_FIXED} (hi_fd i) ho w")
    (auto simp: HostMemory_Map_def HM_Impl_Map_def arena_def split: if_splits)

lemma HostMemory_Unmap_call:
  assumes "HostMemory_Unmap os h v len w = (Inr (), w1)" and "arena h i" and "len \<noteq> 0"
  obtains p where "mmap os (hi_virtual_base i + (v + virtual_base_offset h)) len PROT_NONE
        {MAP_PRIVATE, MAP_ANONYMOUS, MAP_FIXED} (-1) 0 w = (p, w1)" and "p \<noteq> MAP_FAILED" and "v + len \<le> virtual_size h"
  using assms by (cases "mmap os (hi_virtual_base i + (v + virtual_base_offset h)) len PROT_NONE
        {MAP_PRIVATE, MAP_ANONYMOUS, MAP_FIXED} (-1) 0 w")
    (auto simp: HostMemory_Unmap_def HM_Impl_Unmap_def arena_def split: if_splits)

lemma HostMemory_Protect_view:
  assumes "HostMemory_Protect os h v len rd wr ex w = (Inr (), w1)" and "arena h i" and "mmap_laws os view"
  shows "view w1 = view w"
  using assms(1,2) mprotect_view [OF assms(3)]
  by (cases "mprotect os (hi_virtual_base i + (v + virtual_base_offset h)) len (protect_flags rd wr ex) w")
    (auto simp: HostMemory_Protect_def HM_Impl_Protect_def arena_def split: if_splits)

lemma empty_op_keeps_world:
  "HostMemory_Map os h v ho 0 w = (Inr (), w1) \<Longrightarrow> w1 = w"
  "HostMemory_Unmap os h v 0 w = (Inr (), w1) \<Longrightarrow> w1 = w"
  by (auto simp: HostMemory_Map_def HostMemory_Unmap_def split: if_splits option.splits)

lemma run_hm_op_view:
  assumes "mmap_laws os view" and "arena h i" and "op_fits op" and "run_hm_op os h op w = (Inr (), w1)"
  shows "guest_view view h w1 = page_op (hi_fd i) op (guest_view view h w)"
proof (cases op)
  case (MapOp v ho len)
  show ?thesis
  proof (cases "len = 0")
    case False
    then obtain p where p: "mmap os (hi_virtual_base i + (v + virtual_base_offset h)) len (PROT_READ OR PROT_WRITE)
        {MAP_SHARED, MAP_FIXED} (hi_fd i) ho w = (p, w1)" "p \<noteq> MAP_FAILED" "v + len \<le> virtual_size h"
      using assms(2,4) MapOp HostMemory_Map_call by (metis run_hm_op.simps(1))
    have f: "unat v + unat len < 2 ^ 64" and b: "virtual_base h = hi_virtual_base i + virtual_base_offset h"
      using assms(2,3) MapOp by (simp_all add: arena_def)
    have "view w1 = (\<lambda>b. if b - (hi_virtual_base i + (v + virtual_base_offset h)) < len
        then Some (hi_fd i, ho + (b - (hi_virtual_base i + (v + virtual_base_offset h)))) else view w b)"
      using mmap_fixed [OF assms(1) p(1) _ p(2)] by (simp add: fun_eq_iff)
    from override_view [OF f b p(3), of _ _ "\<lambda>d. Some (hi_fd i, ho + d)", OF this] show ?thesis using MapOp by (simp add: fun_eq_iff)
  qed (use assms(4) MapOp empty_op_keeps_world in \<open>fastforce simp: fun_eq_iff\<close>)
next
  case (UnmapOp v len)
  show ?thesis
  proof (cases "len = 0")
    case False
    then obtain p where p: "mmap os (hi_virtual_base i + (v + virtual_base_offset h)) len PROT_NONE
        {MAP_PRIVATE, MAP_ANONYMOUS, MAP_FIXED} (-1) 0 w = (p, w1)" "p \<noteq> MAP_FAILED" "v + len \<le> virtual_size h"
      using assms(2,4) UnmapOp HostMemory_Unmap_call by (metis run_hm_op.simps(2))
    have f: "unat v + unat len < 2 ^ 64" and b: "virtual_base h = hi_virtual_base i + virtual_base_offset h"
      using assms(2,3) UnmapOp by (simp_all add: arena_def)
    have "view w1 = (\<lambda>b. if b - (hi_virtual_base i + (v + virtual_base_offset h)) < len
        then None else view w b)"
      using mmap_fixed [OF assms(1) p(1) _ p(2)] by (simp add: fun_eq_iff)
    from override_view [OF f b p(3), of _ _ "\<lambda>_. None", OF this] show ?thesis using UnmapOp by (simp add: fun_eq_iff)
  qed (use assms(4) UnmapOp empty_op_keeps_world in \<open>fastforce simp: fun_eq_iff\<close>)
next
  case (ProtectOp v len rd wr ex)
  then have "view w1 = view w" using HostMemory_Protect_view assms by fastforce
  then show ?thesis using ProtectOp by (simp add: guest_view_def fun_eq_iff)
qed

lemma run_hm_ops_view:
  "mmap_laws os view \<Longrightarrow> arena h i \<Longrightarrow> list_all op_fits ops \<Longrightarrow> run_hm_ops os h ops w = (Inr (), w1) \<Longrightarrow>
     guest_view view h w1 = fold (page_op (hi_fd i)) ops (guest_view view h w)"
proof (induction ops arbitrary: w)
  case (Cons op ops)
  then obtain w2 where "run_hm_op os h op w = (Inr (), w2)" "run_hm_ops os h ops w2 = (Inr (), w1)"
    by (auto elim!: io_bind_InrE)
  then show ?case using Cons run_hm_op_view by fastforce
qed simp

lemma arenaD:
  assumes "arena h i"
  shows "unat (hi_virtual_base i) \<le> unat (virtual_base h)" and "unat (virtual_base h) mod 0x200000 = 0"
    and "unat (virtual_base h) + unat (virtual_size h) \<le> unat (hi_virtual_base i) + unat (hi_virtual_size i)"
    and "unat (virtual_base h) < unat (hi_virtual_base i) + 0x400000"
proof -
  have u: "unat (virtual_base h) \<le> unat (hi_virtual_base i) + unat (virtual_base_offset h)"
    using assms unat_word_ariths(1) [of "hi_virtual_base i" "virtual_base_offset h"] by (simp only: arena_def mod_less_eq_dividend)
  show "unat (hi_virtual_base i) \<le> unat (virtual_base h)" "unat (virtual_base h) mod 0x200000 = 0"
    "unat (virtual_base h) + unat (virtual_size h) \<le> unat (hi_virtual_base i) + unat (hi_virtual_size i)"
    "unat (virtual_base h) < unat (hi_virtual_base i) + 0x400000"
    using assms [unfolded arena_def] u by (elim conjE; simp)+
qed

section \<open>Properties\<close>

text \<open>An operating system whose state is what the addresses show.\<close>

definition example_os :: "(addr \<Rightarrow> (int \<times> size_t) option) posix" where
  "example_os = \<lparr>platform = Linux, sysconf_pagesize = 0x1000, PageAlignment = 0x1000,
     memfd_create = (\<lambda>w. (3, w)), shm_open_SHM_ANON = (\<lambda>w. (3, w)), clock_gettime = (\<lambda>w. (0, w)),
     shm_open = (\<lambda>_ w. ((3, False), w)), shm_unlink = (\<lambda>_ w. (0, w)), ftruncate = (\<lambda>_ _ w. (0, w)),
     mmap = (\<lambda>a len prot fl fd off w.
       if MAP_FIXED \<in> fl
       then (a, \<lambda>b. if b - a < len then (if MAP_ANONYMOUS \<in> fl then None else Some (fd, off + (b - a))) else w b)
       else (if len \<le> 0x10000000 then 0x7F0000001000 else MAP_FAILED, w)),
     munmap = (\<lambda>_ _ w. (0, w)), mprotect = (\<lambda>_ _ _ w. (0, w)), madvise = (\<lambda>_ _ _ w. (0, w)),
     mach_vm_remap = (\<lambda>_ _ _ w. (None, w)), close_fd = (\<lambda>_ w. (0, w))\<rparr>"

lemma example_os_laws: "mmap_laws example_os id"
  by (auto simp: mmap_laws_def example_os_def MAP_FAILED_def word_le_nat_alt split: if_splits)

lemma example_page: "PageAlignment example_os = 0x1000"
  by (simp add: example_os_def)

definition example_memory :: HostMemory where
  "example_memory = (case fst (CreateForUser example_os 5 0x1000000 0x2000 Map.empty) of Inr h \<Rightarrow> h)"

lemma example_created: "CreateForUser example_os 5 0x1000000 0x2000 Map.empty = (Inr example_memory, Map.empty)"
  by code_simp

lemma example_memory:
  "impl example_memory = Some \<lparr>hi_fd = 5, hi_backing_size = 0x1000000, hi_virtual_size = 0x602000,
     hi_backing_base = MAP_FAILED, hi_virtual_base = 0x7F0000001000\<rparr>"
  "virtual_base example_memory = 0x7F0000400000"
  by code_simp+



text \<open>
  C33: on ranges that do not wrap around, the operations on guest memory implement a page table.  After
  any sequence of successful operations the guest sees at each offset exactly the byte of the backing
  file that the page table names, and nothing where there is none.
\<close>

theorem host_memory_refines_page_table:
  assumes "mmap_laws os view" and "PageAlignment os \<noteq> 0"
    and "unat vs + unat (PageAlignment os) + 3 * 0x200000 \<le> 2 ^ 64"
    and "CreateForUser os fd bs vs w = (Inr h, w1)" and "impl h = Some i"
    and "list_all op_fits ops" and "run_hm_ops os h ops w1 = (Inr (), w2)"
  shows "guest_view view h w2 = fold (page_op fd) ops (guest_view view h w1)"
  using run_hm_ops_view [OF assms(1) _ assms(6,7)] CreateForUser_arena [OF assms(1,2) _ assms(4,5)] assms(3) by simp

theorem host_memory_refines_page_table_witness:
  "guest_view id example_memory
     (snd (run_hm_ops example_os example_memory [MapOp 0 0x5000 0x2000, UnmapOp 0x1000 0x1000] Map.empty)) 0x17 = Some (5, 0x5017)"
proof -
  let ?ops = "[MapOp 0 0x5000 0x2000, UnmapOp 0x1000 0x1000]"
  have fits: "list_all op_fits ?ops" by simp
  have run: "run_hm_ops example_os example_memory ?ops Map.empty =
      (Inr (), snd (run_hm_ops example_os example_memory ?ops Map.empty))"
    unfolding prod_eq_iff by (intro conjI) (code_simp, simp)
  have "guest_view id example_memory (snd (run_hm_ops example_os example_memory ?ops Map.empty)) =
      fold (page_op 5) ?ops (guest_view id example_memory Map.empty)"
    by (rule host_memory_refines_page_table [OF example_os_laws _ _ example_created example_memory(1) fits run])
      (simp_all add: example_page)
  then show ?thesis by (simp only:) simp
qed

text \<open>
  C34: the range check of \<open>Map\<close> does not detect a sum that wraps around.  A mapping at the offset \<open>- d\<close> of
  length \<open>d\<close> plus one page passes all checks; if the system call succeeds, it replaces memory before
  the start of the address range that was reserved for the guest.
\<close>

theorem Map_range_check_wraps:
  assumes "mmap_laws os view" and "unat (PageAlignment os) = 2 ^ k" and "k < 63"
    and "unat vs + unat (PageAlignment os) + 3 * 0x200000 \<le> 2 ^ 64"
    and "CreateForUser os fd bs vs w = (Inr h, w1)" and "impl h = Some i"
    and "unat d mod 2 ^ k = 0" and "0x400000 \<le> unat d" and "unat d + 2 ^ k \<le> unat bs" and "2 ^ k \<le> unat vs"
    and "unat d \<le> unat (virtual_base h)"
    and "fst (mmap os (virtual_base h - d) (d + PageAlignment os) (PROT_READ OR PROT_WRITE) {MAP_SHARED, MAP_FIXED} fd 0 w1)
           \<noteq> MAP_FAILED"
  shows "\<exists>w2. HostMemory_Map os h (- d) 0 (d + PageAlignment os) w1 = (Inr (), w2) \<and>
              view w2 (virtual_base h - d) = Some (fd, 0) \<and> unat (virtual_base h - d) < unat (hi_virtual_base i)"
proof -
  have p0: "PageAlignment os \<noteq> 0" using assms(2) by auto
  have a: "arena h i" "hi_fd i = fd" "virtual_size h = vs" "backing_size h = bs"
    using CreateForUser_arena [OF assms(1) p0 _ assms(5,6)] assms(4) by simp_all
  have dvd: "x mod PageAlignment os = 0" if "unat x mod 2 ^ k = 0" for x
    using that unat_mod [of x "PageAlignment os"] assms(2) by (simp only: flip: unat_eq_zero)
  have u: "unat (- d) = 2 ^ 64 - unat d" "unat (d + PageAlignment os) = unat d + 2 ^ k"
    using assms(2,8,9) unsigned_less [of bs, where 'a = nat] unat_sub_if_size [of 0 d]
    by (auto simp: unat_word_ariths word_size word_le_nat_alt)
  have "2 ^ k dvd (2 :: nat) ^ 64" using assms(3) by (intro le_imp_power_dvd) simp
  then have "(2 ^ 64 - unat d) mod 2 ^ k = 0"
    using assms(7) by (metis dvd_diff_nat dvd_eq_mod_eq_0)
  then have al: "- d mod PageAlignment os = 0" "(d + PageAlignment os) mod PageAlignment os = 0"
    using assms(7) u by (auto intro!: dvd)
  have range: "- d + (d + PageAlignment os) \<le> vs" "d + PageAlignment os \<le> bs" "d + PageAlignment os \<noteq> 0"
    using u assms(2,8,9,10) by (auto simp: word_le_nat_alt)
  have e: "hi_virtual_base i + (virtual_base_offset h - d) = virtual_base h - d"
    using a(1) by (simp add: arena_def)
  have b: "virtual_base h \<noteq> 0" using a(1) unfolding arena_def by blast
  obtain p w2 where m: "mmap os (virtual_base h - d) (d + PageAlignment os) (PROT_READ OR PROT_WRITE) {MAP_SHARED, MAP_FIXED} fd 0 w1 = (p, w2)"
    by fastforce
  have "HostMemory_Map os h (- d) 0 (d + PageAlignment os) w1 = (Inr (), w2)"
    using al range m b a(2-4) assms(6,12) by (simp add: HostMemory_Map_def HM_Impl_Map_def e)
  moreover have "view w2 (virtual_base h - d) = Some (fd, 0)"
    using mmap_fixed [OF assms(1) m] assms(12) m range(3) by (simp add: word_gt_0)
  moreover have "unat (virtual_base h - d) < unat (hi_virtual_base i)"
  proof -
    have "unat (virtual_base h - d) = unat (virtual_base h) - unat d"
      using assms(11) by (intro unat_sub) (simp add: word_le_nat_alt)
    then show ?thesis using arenaD(4) [OF a(1)] assms(8,11) by linarith
  qed
  ultimately show ?thesis by blast
qed

theorem Map_range_check_wraps_witness:
  "\<exists>w2. HostMemory_Map example_os example_memory (- 0x800000) 0 0x801000 Map.empty = (Inr (), w2) \<and>
        w2 0x7EFFFFC00000 = Some (5, 0)"
proof -
  let ?c = "fst (mmap example_os (virtual_base example_memory - 0x800000) (0x800000 + PageAlignment example_os)
      (PROT_READ OR PROT_WRITE) {MAP_SHARED, MAP_FIXED} 5 0 Map.empty)"
  have "?c \<noteq> MAP_FAILED" by (simp add: example_memory example_os_def MAP_FAILED_def)
  then show ?thesis
    using Map_range_check_wraps [OF example_os_laws _ _ _ example_created example_memory(1), of 12 "0x800000"]
    by (simp add: example_page example_memory(2))
qed

end
