(* ===== verification/Mem_Map.thy ===== *)
theory Mem_Map
  imports System_Calls
begin

text \<open>
  The memory of generated code: \<^verbatim>\<open>runtime/backend/mem_map.cpp\<close>, a file descriptor whose pages can be
  mapped several times, and \<^verbatim>\<open>runtime/backend/code_cache.cpp\<close>, which gives out pieces of such a memory.
  The allocator \<^verbatim>\<open>dlmalloc\<close> is a parameter.
\<close>

section \<open>MemMap\<close>

datatype Mode = Mode_None | Mode_Read | Mode_Write | Mode_Executable | ReadWrite | ReadExe | RWX

fun mode_bits :: "Mode \<Rightarrow> u32" where
  "mode_bits Mode_None = 0"
| "mode_bits Mode_Read = 1"
| "mode_bits Mode_Write = 2"
| "mode_bits Mode_Executable = 4"
| "mode_bits ReadWrite = 1 OR 2"
| "mode_bits ReadExe = 1 OR 4"
| "mode_bits RWX = 1 OR 2 OR 4"

definition GetProtectFlags :: "Mode \<Rightarrow> u32" where
  "GetProtectFlags mode =
     (let r0 = PROT_NONE;
          r1 = (if mode_bits mode AND mode_bits Mode_Read \<noteq> 0 then r0 OR PROT_READ else r0);
          r2 = (if mode_bits mode AND mode_bits Mode_Write \<noteq> 0 then r1 OR PROT_WRITE else r1)
      in if mode_bits mode AND mode_bits Mode_Executable \<noteq> 0 then r2 OR PROT_EXEC else r2)"

record MemMap_Impl =
  mm_executable :: bool
  mm_fd :: int
  backing_memory :: addr
  map_size :: u32

definition MirrorMemory :: "'w posix \<Rightarrow> addr \<Rightarrow> size_t \<Rightarrow> bool \<Rightarrow> ('w, addr) io" where
  "MirrorMemory os base sz copy =
     io_bind (io_call (mach_vm_remap os base sz copy)) (\<lambda>ret.
     case ret of None \<Rightarrow> io_return 0 | Some mirror \<Rightarrow> io_return mirror)"

definition Impl_Map :: "'w posix \<Rightarrow> MemMap_Impl \<Rightarrow> u32 \<Rightarrow> u32 \<Rightarrow> Mode \<Rightarrow> bool \<Rightarrow> ('w, addr) io" where
  "Impl_Map os i sz offset mode pri =
     (let flags = GetProtectFlags mode in
      if platform os = Apple \<and> mm_fd i = 0 then
        io_bind (MirrorMemory os (ucast offset + backing_memory i) (ucast sz) pri) (\<lambda>res.
        io_bind (io_ASSERT (res \<noteq> 0)) (\<lambda>_.
        io_bind (io_call (mprotect os res (ucast sz) flags)) (\<lambda>r.
        io_bind (io_ASSERT (r = 0)) (\<lambda>_. io_return res))))
      else
        io_bind (io_call (mmap os 0 (ucast sz) flags (if pri then {MAP_PRIVATE} else {MAP_SHARED}) (mm_fd i) (ucast offset)))
          (\<lambda>res. if res = MAP_FAILED then io_throw BadAlloc else io_return res))"

text \<open>
  The constructor.  \<open>backing_memory\<close> has no initialiser: its value before the first assignment is the
  argument \<open>uninit\<close>.
\<close>

definition Impl_fd :: "'w posix \<Rightarrow> u32 \<Rightarrow> MemMap_Impl \<Rightarrow> ('w, MemMap_Impl) io" where
  "Impl_fd os sz i =
     (case platform os of
        FreeBSD12 \<Rightarrow> io_bind (io_call (shm_open_SHM_ANON os)) (\<lambda>fd. io_return (i\<lparr>mm_fd := fd\<rparr>))
      | Apple \<Rightarrow>
          if \<not> mm_executable i then io_bind (shm_open_anon os) (\<lambda>fd. io_return (i\<lparr>mm_fd := fd\<rparr>))
          else io_bind (io_call (mmap os 0 (ucast sz) (PROT_READ OR PROT_WRITE) {MAP_PRIVATE, MAP_ANONYMOUS} 0 0))
                 (\<lambda>p. io_return (i\<lparr>backing_memory := p\<rparr>))
      | Android \<Rightarrow> io_bind (io_call (memfd_create os)) (\<lambda>fd. io_return (i\<lparr>mm_fd := fd\<rparr>))
      | _ \<Rightarrow> io_return i)"

definition MemMap_Impl_new :: "'w posix \<Rightarrow> addr \<Rightarrow> u32 \<Rightarrow> bool \<Rightarrow> ('w, MemMap_Impl) io" where
  "MemMap_Impl_new os uninit sz exec =
     (let i0 = \<lparr>mm_executable = exec, mm_fd = 0, backing_memory = uninit, map_size = sz\<rparr> in
      if sysconf_pagesize os \<noteq> PageAlignment os then io_throw BadAlloc
      else io_bind (Impl_fd os sz i0) (\<lambda>i.
        io_bind (if mm_fd i = -1 then io_throw BadAlloc
                 else if mm_fd i \<noteq> 0 then
                   io_bind (io_call (ftruncate os (mm_fd i) (ucast (map_size i)))) (\<lambda>ret.
                   if ret \<noteq> 0 then io_throw BadAlloc else io_return ())
                 else io_return ()) (\<lambda>_.
        if backing_memory i = 0 then
          io_bind (Impl_Map os i sz 0 ReadWrite False) (\<lambda>p. io_return (i\<lparr>backing_memory := p\<rparr>))
        else io_return i)))"

definition Impl_Free :: "'w posix \<Rightarrow> MemMap_Impl \<Rightarrow> u32 \<Rightarrow> u32 \<Rightarrow> ('w, unit) io" where
  "Impl_Free os i host_offset len =
     io_bind (io_call (madvise os (backing_memory i + ucast host_offset) (ucast len)
                         (if platform os = Apple then MADV_DONTNEED else MADV_REMOVE))) (\<lambda>_. io_return ())"

definition Impl_Unmap :: "'w posix \<Rightarrow> addr \<Rightarrow> u32 \<Rightarrow> ('w, bool) io" where
  "Impl_Unmap os mem sz = io_bind (io_call (munmap os mem (ucast sz))) (\<lambda>r. io_return (r \<noteq> 0))"

record MemMap =
  mm_impl :: MemMap_Impl
  arena_size :: u32

definition MemMap_new :: "'w posix \<Rightarrow> addr \<Rightarrow> u32 \<Rightarrow> bool \<Rightarrow> ('w, MemMap) io" where
  "MemMap_new os uninit sz exec =
     io_bind (MemMap_Impl_new os uninit sz exec) (\<lambda>i. io_return \<lparr>mm_impl = i, arena_size = sz\<rparr>)"

definition MemMap_Map :: "'w posix \<Rightarrow> MemMap \<Rightarrow> u32 \<Rightarrow> u32 \<Rightarrow> Mode \<Rightarrow> bool \<Rightarrow> ('w, addr) io" where
  "MemMap_Map os m sz offset mode pri = Impl_Map os (mm_impl m) sz offset mode pri"

definition MemMap_Protect :: "MemMap \<Rightarrow> u32 \<Rightarrow> u32 \<Rightarrow> Mode \<Rightarrow> ('w, unit) io" where
  "MemMap_Protect m sz offset mode = io_return ()"

definition MemMap_Unmap :: "'w posix \<Rightarrow> addr \<Rightarrow> u32 \<Rightarrow> ('w, unit) io" where
  "MemMap_Unmap os mem sz = io_bind (Impl_Unmap os mem sz) (\<lambda>_. io_return ())"

definition MemMap_Free :: "'w posix \<Rightarrow> MemMap \<Rightarrow> u32 \<Rightarrow> u32 \<Rightarrow> ('w, unit) io" where
  "MemMap_Free os m offset sz = Impl_Free os (mm_impl m) offset sz"

definition GetMemory :: "MemMap \<Rightarrow> addr" where
  "GetMemory m = backing_memory (mm_impl m)"

section \<open>CodeCache\<close>

datatype ISA = kNone | kArm | kArm64 | kX86 | kX86_64 | kRiscv32 | kRiscv64 | kLoongArch

fun GetInstructionSetInstructionAlignment :: "ISA \<Rightarrow> size_t result" where
  "GetInstructionSetInstructionAlignment kArm = Inr 4"
| "GetInstructionSetInstructionAlignment kArm64 = Inr 4"
| "GetInstructionSetInstructionAlignment kX86 = Inr 1"
| "GetInstructionSetInstructionAlignment kX86_64 = Inr 1"
| "GetInstructionSetInstructionAlignment kRiscv32 = Inr 4"
| "GetInstructionSetInstructionAlignment kRiscv64 = Inr 4"
| "GetInstructionSetInstructionAlignment kLoongArch = Inr 4"
| "GetInstructionSetInstructionAlignment kNone = Inl AssertFailed"

text \<open>The allocator: a space \<open>'m\<close> is created on a memory area; the calls return its new state.\<close>

record ('w, 'm) dlmalloc =
  create_mspace_with_base :: "addr \<Rightarrow> size_t \<Rightarrow> 'm option"
  mspace_memalign :: "'m \<Rightarrow> size_t \<Rightarrow> size_t \<Rightarrow> addr \<times> 'm"
  mspace_free :: "'m \<Rightarrow> addr \<Rightarrow> 'm"
  destroy_mspace :: "'m \<Rightarrow> 'w \<Rightarrow> 'w"

record 'm CodeCache =
  inst_alignment :: size_t
  max_size :: u32
  space_code :: "'m option"
  space_data :: "'m option"
  code_mem :: MemMap
  data_mem :: MemMap
  code_mem_mapped :: addr

record CodeBuffer =
  exec_data :: addr
  rw_data :: addr
  cb_size :: size_t

definition CodeCache_Init ::
  "'w posix \<Rightarrow> ('w, 'm) dlmalloc \<Rightarrow> addr \<Rightarrow> addr \<Rightarrow> size_t \<Rightarrow> u32 \<Rightarrow> ('w, 'm CodeCache) io" where
  "CodeCache_Init os dl uninit1 uninit2 align sz =
     io_bind (MemMap_new os uninit1 sz True) (\<lambda>cm.
     io_bind (if platform os = Apple then MemMap_Map os cm (arena_size cm) 0 ReadExe False else io_return 0) (\<lambda>mapped.
     let sc = create_mspace_with_base dl (GetMemory cm) (ucast (arena_size cm)) in
     io_bind (MemMap_new os uninit2 sz False) (\<lambda>dm.
     let sd = create_mspace_with_base dl (GetMemory dm) (ucast (arena_size dm)) in
     io_return \<lparr>inst_alignment = align, max_size = sz, space_code = sc, space_data = sd,
                code_mem = cm, data_mem = dm, code_mem_mapped = mapped\<rparr>)))"

definition CodeCache_new ::
  "'w posix \<Rightarrow> ('w, 'm) dlmalloc \<Rightarrow> addr \<Rightarrow> addr \<Rightarrow> ISA \<Rightarrow> u32 \<Rightarrow> ('w, 'm CodeCache) io" where
  "CodeCache_new os dl uninit1 uninit2 isa sz =
     (case GetInstructionSetInstructionAlignment isa of
        Inl e \<Rightarrow> io_throw e
      | Inr align \<Rightarrow> CodeCache_Init os dl uninit1 uninit2 align sz)"

definition CodeCache_destructor :: "('w, 'm) dlmalloc \<Rightarrow> 'm CodeCache \<Rightarrow> 'w \<Rightarrow> 'w" where
  "CodeCache_destructor dl c w =
     (let w1 = (case space_code c of None \<Rightarrow> w | Some s \<Rightarrow> destroy_mspace dl s w)
      in case space_data c of None \<Rightarrow> w1 | Some s \<Rightarrow> destroy_mspace dl s w1)"

definition AllocCode :: "('w, 'm) dlmalloc \<Rightarrow> 'm CodeCache \<Rightarrow> size_t \<Rightarrow> ('m CodeCache \<times> CodeBuffer option) result" where
  "AllocCode dl c sz =
     (case space_code c of
        None \<Rightarrow> Inl NullDeref
      | Some s \<Rightarrow>
          (let (result, s1) = mspace_memalign dl s (inst_alignment c) sz; c1 = c\<lparr>space_code := Some s1\<rparr> in
           if result = 0 then Inr (c1, None)
           else (let buf = \<lparr>exec_data = result, rw_data = result, cb_size = sz\<rparr> in
                 Inr (c1, Some (if code_mem_mapped c \<noteq> 0
                                then buf\<lparr>exec_data := result - GetMemory (code_mem c) + code_mem_mapped c\<rparr>
                                else buf)))))"

definition FreeCode :: "('w, 'm) dlmalloc \<Rightarrow> 'm CodeCache \<Rightarrow> addr \<Rightarrow> ('m CodeCache \<times> bool) result" where
  "FreeCode dl c exec_ptr =
     (case space_code c of
        None \<Rightarrow> Inl NullDeref
      | Some s \<Rightarrow>
          (let p = (if code_mem_mapped c \<noteq> 0 then GetMemory (code_mem c) + (exec_ptr - code_mem_mapped c) else exec_ptr)
           in Inr (c\<lparr>space_code := Some (mspace_free dl s p)\<rparr>, True)))"

definition CodeCache_Contain :: "'m CodeCache \<Rightarrow> addr \<Rightarrow> bool" where
  "CodeCache_Contain c exec_ptr = False"

end
