(* ===== verification/Code_Cache.thy ===== *)
theory Code_Cache
  imports Mem_Map
begin

text \<open>
  The clients of the code cache of \<^verbatim>\<open>runtime/backend/code_cache.cpp\<close>: what the allocator of the spaces
  promises, sequences of allocations and releases, and that code buffers never overlap.
\<close>

section \<open>What the allocator promises\<close>

text \<open>
  The documented behaviour of \<^verbatim>\<open>dlmalloc\<close> spaces.  \<open>area s\<close> is the memory of the space, \<open>live s\<close> the blocks in
  use with their sizes: a new block lies inside the area, does not overlap a block in use and has an
  address of its own; a freed block is no longer in use.
\<close>

type_synonym block = "addr \<times> nat"

definition inside :: "addr \<times> nat \<Rightarrow> block \<Rightarrow> bool" where
  "inside a b \<longleftrightarrow> unat (fst a) \<le> unat (fst b) \<and> unat (fst b) + snd b \<le> unat (fst a) + snd a"

definition clear_of :: "block \<Rightarrow> block \<Rightarrow> bool" where
  "clear_of b c \<longleftrightarrow> fst b \<noteq> fst c \<and> (unat (fst b) + snd b \<le> unat (fst c) \<or> unat (fst c) + snd c \<le> unat (fst b))"

definition mspace_laws :: "('w, 'm) dlmalloc \<Rightarrow> ('m \<Rightarrow> addr \<times> nat) \<Rightarrow> ('m \<Rightarrow> block set) \<Rightarrow> bool" where
  "mspace_laws dl area live \<longleftrightarrow>
     (\<forall>base sz s. create_mspace_with_base dl base sz = Some s \<longrightarrow> area s = (base, unat sz) \<and> live s = {}) \<and>
     (\<forall>s al n p s1. mspace_memalign dl s al n = (p, s1) \<longrightarrow> area s1 = area s \<and>
        (if p = 0 then live s1 = live s
         else live s1 = insert (p, unat n) (live s) \<and> inside (area s) (p, unat n) \<and> (\<forall>b\<in>live s. clear_of (p, unat n) b))) \<and>
     (\<forall>s p. area (mspace_free dl s p) = area s \<and> live (mspace_free dl s p) = {b \<in> live s. fst b \<noteq> p})"

lemma mspace_lawsD:
  assumes "mspace_laws dl area live"
  shows "create_mspace_with_base dl base sz = Some s \<Longrightarrow> area s = (base, unat sz) \<and> live s = {}"
    and "mspace_memalign dl s al n = (p, s1) \<Longrightarrow> area s1 = area s"
    and "mspace_memalign dl s al n = (0, s1) \<Longrightarrow> live s1 = live s"
    and "mspace_memalign dl s al n = (p, s1) \<Longrightarrow> p \<noteq> 0 \<Longrightarrow>
      live s1 = insert (p, unat n) (live s) \<and> inside (area s) (p, unat n) \<and> (\<forall>b\<in>live s. clear_of (p, unat n) b)"
    and "area (mspace_free dl s p) = area s" and "live (mspace_free dl s p) = {b \<in> live s. fst b \<noteq> p}"
proof -
  note l = assms [unfolded mspace_laws_def]
  show "create_mspace_with_base dl base sz = Some s \<Longrightarrow> area s = (base, unat sz) \<and> live s = {}" using l by blast
  show "area (mspace_free dl s p) = area s" "live (mspace_free dl s p) = {b \<in> live s. fst b \<noteq> p}" using l by blast+
  have m: "mspace_memalign dl s al n = (p, s1) \<Longrightarrow> area s1 = area s \<and>
        (if p = 0 then live s1 = live s
         else live s1 = insert (p, unat n) (live s) \<and> inside (area s) (p, unat n) \<and> (\<forall>b\<in>live s. clear_of (p, unat n) b))" for p
    by (rule l [THEN conjunct2, THEN conjunct1, rule_format])
  show "mspace_memalign dl s al n = (p, s1) \<Longrightarrow> area s1 = area s" using m by blast
  show "mspace_memalign dl s al n = (0, s1) \<Longrightarrow> live s1 = live s" using m [of 0] by simp
  show "mspace_memalign dl s al n = (p, s1) \<Longrightarrow> p \<noteq> 0 \<Longrightarrow>
      live s1 = insert (p, unat n) (live s) \<and> inside (area s) (p, unat n) \<and> (\<forall>b\<in>live s. clear_of (p, unat n) b)"
    using m [of p] by simp
qed

section \<open>Clients of the code cache\<close>

text \<open>A client allocates code and frees the code at a position of its list of buffers.\<close>

datatype code_op = CodeAlloc size_t | CodeFree nat

fun run_code :: "('w, 'm) dlmalloc \<Rightarrow> code_op list \<Rightarrow> 'm CodeCache \<Rightarrow> CodeBuffer list \<Rightarrow> ('m CodeCache \<times> CodeBuffer list) result" where
  "run_code dl [] c bufs = Inr (c, bufs)"
| "run_code dl (CodeAlloc n # ops) c bufs =
     res_bind (AllocCode dl c n) (\<lambda>(c1, r). run_code dl ops c1 (case r of None \<Rightarrow> bufs | Some b \<Rightarrow> b # bufs))"
| "run_code dl (CodeFree k # ops) c bufs =
     (if k < length bufs
      then res_bind (FreeCode dl c (exec_data (bufs ! k))) (\<lambda>(c1, _). run_code dl ops c1 (take k bufs @ drop (Suc k) bufs))
      else run_code dl ops c bufs)"

definition exec_base :: "'m CodeCache \<Rightarrow> addr" where
  "exec_base c = (if code_mem_mapped c \<noteq> 0 then code_mem_mapped c else GetMemory (code_mem c))"

definition rw_block :: "CodeBuffer \<Rightarrow> block" where
  "rw_block b = (rw_data b, unat (cb_size b))"

definition exec_block :: "CodeBuffer \<Rightarrow> block" where
  "exec_block b = (exec_data b, unat (cb_size b))"

definition code_inv :: "('m \<Rightarrow> addr \<times> nat) \<Rightarrow> ('m \<Rightarrow> block set) \<Rightarrow> nat \<Rightarrow> 'm CodeCache \<Rightarrow> CodeBuffer list \<Rightarrow> bool" where
  "code_inv area live n c bufs \<longleftrightarrow>
     (\<exists>s. space_code c = Some s \<and> area s = (GetMemory (code_mem c), n) \<and> live s = rw_block ` set bufs) \<and>
     sorted_wrt (\<lambda>x y. clear_of (rw_block x) (rw_block y)) bufs \<and>
     (\<forall>b\<in>set bufs. inside (GetMemory (code_mem c), n) (rw_block b) \<and>
        exec_data b = exec_base c + (rw_data b - GetMemory (code_mem c)))"

lemma AllocCode_inv:
  assumes "mspace_laws dl area live" and "code_inv area live n c bufs"
  shows "\<exists>c1 r. AllocCode dl c sz = Inr (c1, r) \<and> exec_base c1 = exec_base c \<and> code_mem c1 = code_mem c \<and>
           code_inv area live n c1 (case r of None \<Rightarrow> bufs | Some b \<Rightarrow> b # bufs)"
proof -
  obtain s where s: "space_code c = Some s" "area s = (GetMemory (code_mem c), n)" "live s = rw_block ` set bufs"
    using assms(2) by (auto simp: code_inv_def)
  obtain p s1 where m: "mspace_memalign dl s (inst_alignment c) sz = (p, s1)" by fastforce
  let ?c = "c\<lparr>space_code := Some s1\<rparr>"
  have b: "exec_base ?c = exec_base c" by (simp add: exec_base_def)
  show ?thesis
  proof (cases "p = 0")
    case True
    then have "AllocCode dl c sz = Inr (?c, None)" using s m by (simp add: AllocCode_def)
    moreover have "code_inv area live n ?c bufs"
      using assms(2) s mspace_lawsD(2,3) [OF assms(1)] m True by (auto simp: code_inv_def exec_base_def)
    ultimately show ?thesis using b by auto
  next
    case False
    let ?b = "\<lparr>exec_data = exec_base c + (p - GetMemory (code_mem c)), rw_data = p, cb_size = sz\<rparr>"
    have "AllocCode dl c sz = Inr (?c, Some ?b)" using s m False by (simp add: AllocCode_def exec_base_def)
    moreover have "code_inv area live n ?c (?b # bufs)"
      using assms(2) s mspace_lawsD(2,4) [OF assms(1) m] False by (auto simp: code_inv_def exec_base_def rw_block_def)
    ultimately show ?thesis using b by auto
  qed
qed

lemma FreeCode_inv:
  assumes "mspace_laws dl area live" and "code_inv area live n c bufs" and "k < length bufs"
  shows "\<exists>c1. FreeCode dl c (exec_data (bufs ! k)) = Inr (c1, True) \<and> exec_base c1 = exec_base c \<and> code_mem c1 = code_mem c \<and>
           code_inv area live n c1 (take k bufs @ drop (Suc k) bufs)"
proof -
  obtain s where s: "space_code c = Some s" "area s = (GetMemory (code_mem c), n)" "live s = rw_block ` set bufs"
    using assms(2) by (auto simp: code_inv_def)
  let ?p = "rw_data (bufs ! k)" and ?rest = "take k bufs @ drop (Suc k) bufs"
  let ?c = "c\<lparr>space_code := Some (mspace_free dl s ?p)\<rparr>"
  have bufs: "bufs = take k bufs @ bufs ! k # drop (Suc k) bufs" using assms(3) by (rule id_take_nth_drop)
  have "exec_data (bufs ! k) = exec_base c + (?p - GetMemory (code_mem c))"
    using assms(2,3) by (auto simp: code_inv_def)
  then have f: "FreeCode dl c (exec_data (bufs ! k)) = Inr (?c, True)"
    using s by (simp add: FreeCode_def exec_base_def split: if_splits)
  have srt: "sorted_wrt (\<lambda>x y. clear_of (rw_block x) (rw_block y)) (take k bufs @ bufs ! k # drop (Suc k) bufs)"
    using assms(2) bufs by (simp add: code_inv_def)
  then have "\<forall>b\<in>set ?rest. rw_data b \<noteq> ?p" by (auto simp: sorted_wrt_append clear_of_def rw_block_def)
  moreover have "set bufs = insert (bufs ! k) (set ?rest)" by (subst bufs) auto
  ultimately have "{b \<in> rw_block ` set bufs. fst b \<noteq> ?p} = rw_block ` set ?rest" by (auto simp: rw_block_def)
  then have "live (mspace_free dl s ?p) = rw_block ` set ?rest" using mspace_lawsD(6) [OF assms(1)] s(3) by simp
  moreover have "sorted_wrt (\<lambda>x y. clear_of (rw_block x) (rw_block y)) ?rest"
    using srt by (simp add: sorted_wrt_append)
  moreover have "set ?rest \<subseteq> set bufs" by (auto dest: in_set_takeD in_set_dropD)
  ultimately have "code_inv area live n ?c ?rest"
    using assms(2) s(2) mspace_lawsD(5) [OF assms(1)] unfolding code_inv_def exec_base_def by auto
  then show ?thesis using f by (auto simp: exec_base_def)
qed

lemma run_code_inv:
  "mspace_laws dl area live \<Longrightarrow> code_inv area live n c bufs \<Longrightarrow>
     \<exists>c' bufs'. run_code dl ops c bufs = Inr (c', bufs') \<and> exec_base c' = exec_base c \<and> code_mem c' = code_mem c \<and>
               code_inv area live n c' bufs'"
proof (induction ops arbitrary: c bufs)
  case (Cons op ops)
  show ?case
  proof (cases op)
    case (CodeAlloc sz)
    then show ?thesis using Cons.IH AllocCode_inv [OF Cons.prems, of sz] Cons.prems(1) by fastforce
  next
    case (CodeFree k)
    then show ?thesis using Cons FreeCode_inv [OF Cons.prems, of k] by (cases "k < length bufs") fastforce+
  qed
qed auto

lemma exec_offset:
  assumes "inside (m, n) (p, k)" and "unat e + n < 2 ^ 64"
  shows "unat (e + (p - m)) = unat e + (unat p - unat m)"
proof -
  have "unat (p - m) = unat p - unat m" using assms(1) by (intro unat_sub) (simp add: inside_def word_le_nat_alt)
  moreover have "unat p - unat m \<le> n" using assms(1) by (auto simp: inside_def)
  ultimately show ?thesis using assms(2) by (simp add: unat_word_ariths)
qed

lemma exec_view:
  assumes "code_inv area live n c bufs" and "unat (exec_base c) + n < 2 ^ 64"
  shows "b \<in> set bufs \<Longrightarrow> inside (exec_base c, n) (exec_block b)"
    and "sorted_wrt (\<lambda>x y. clear_of (exec_block x) (exec_block y)) bufs"
proof -
  have off: "unat (exec_data b) + unat (GetMemory (code_mem c)) = unat (exec_base c) + unat (rw_data b)"
    "unat (GetMemory (code_mem c)) \<le> unat (rw_data b)"
    "unat (rw_data b) + unat (cb_size b) \<le> unat (GetMemory (code_mem c)) + n" if "b \<in> set bufs" for b
    using assms(1) that exec_offset [of "GetMemory (code_mem c)" n "rw_data b" "unat (cb_size b)" "exec_base c"] assms(2)
    by (auto simp: code_inv_def rw_block_def inside_def)
  show "b \<in> set bufs \<Longrightarrow> inside (exec_base c, n) (exec_block b)" using off [of b] by (simp add: inside_def exec_block_def)
  have "clear_of (exec_block x) (exec_block y)" if "x \<in> set bufs" "y \<in> set bufs" "clear_of (rw_block x) (rw_block y)" for x y
  proof -
    have "rw_data x \<noteq> rw_data y" using that(3) by (simp add: clear_of_def rw_block_def)
    then have "exec_data x \<noteq> exec_data y" using assms(1) that(1,2) by (auto simp: code_inv_def)
    then show ?thesis using off [OF that(1)] off [OF that(2)] that(3)
      by (auto simp: clear_of_def rw_block_def exec_block_def)
  qed
  then show "sorted_wrt (\<lambda>x y. clear_of (exec_block x) (exec_block y)) bufs"
    using assms(1) by (auto simp: code_inv_def sorted_wrt_iff_nth_less)
qed

section \<open>Properties\<close>


text \<open>An allocator that never reuses memory.\<close>

definition bump_malloc :: "(unit, (addr \<times> nat) \<times> nat \<times> block list) dlmalloc" where
  "bump_malloc = \<lparr>
     create_mspace_with_base = (\<lambda>base sz. if base \<noteq> 0 then Some ((base, unat sz), 0, []) else None),
     mspace_memalign = (\<lambda>((base, sz), used, bs) al n.
       let p = base + of_nat used in
       if 0 < unat n \<and> used + unat n \<le> sz \<and> unat base + sz < 2 ^ 64 \<and> base \<noteq> 0 \<and>
          list_all (\<lambda>b. unat (fst b) + snd b \<le> unat base + used \<and> 0 < snd b) bs
       then (p, ((base, sz), used + unat n, (p, unat n) # bs)) else (0, ((base, sz), used, bs))),
     mspace_free = (\<lambda>(a, used, bs) p. (a, used, filter (\<lambda>b. fst b \<noteq> p) bs)),
     destroy_mspace = (\<lambda>_ w. w)\<rparr>"

lemma bump_malloc_laws: "mspace_laws bump_malloc fst (\<lambda>s. set (snd (snd s)))"
proof -
  have u: "unat (base + of_nat used) = unat base + used" if "used + n \<le> sz" "unat base + sz < 2 ^ 64" for base :: addr and used n sz
  proof -
    have "unat (of_nat used :: addr) = used" using that by (intro unat_of_nat_small) simp
    then show ?thesis using that by (simp add: unat_word_ariths)
  qed
  have "area s1 = area s \<and> (if p = 0 then live s1 = live s
         else live s1 = insert (p, unat n) (live s) \<and> inside (area s) (p, unat n) \<and> (\<forall>b\<in>live s. clear_of (p, unat n) b))"
    if 3: "mspace_memalign bump_malloc s al n = (p, s1)" and "area = fst" "live = (\<lambda>s. set (snd (snd s)))"
    for s al n p s1 and area :: "(addr \<times> nat) \<times> nat \<times> block list \<Rightarrow> addr \<times> nat" and live
  proof -
    obtain base sz used bs where s: "s = ((base, sz), used, bs)" by (metis prod.collapse)
    show ?thesis
    proof (cases "p = 0")
      case True
      have "\<not> (0 < unat n \<and> used + unat n \<le> sz \<and> unat base + sz < 2 ^ 64 \<and> base \<noteq> 0 \<and> base + of_nat used = 0)"
        using u [of used "unat n" sz base] by (auto simp: unat_gt_0)
      then have "s1 = s" using 3 s True by (auto simp: bump_malloc_def Let_def split: if_splits)
      then show ?thesis using True by simp
    next
      case False
      then have "p = base + of_nat used" "used + unat n \<le> sz" "unat base + sz < 2 ^ 64" "0 < unat n"
        "list_all (\<lambda>b. unat (fst b) + snd b \<le> unat base + used \<and> 0 < snd b) bs" "s1 = ((base, sz), used + unat n, (p, unat n) # bs)"
        using 3 s by (auto simp: bump_malloc_def Let_def split: if_splits)
      then show ?thesis using that False s u [of used "unat n" sz base]
        by (auto simp: inside_def clear_of_def list_all_iff)
    qed
  qed
  note m = this [OF _ refl refl]
  show ?thesis unfolding mspace_laws_def
  proof (intro conjI)
    show "\<forall>s al n p s1. mspace_memalign bump_malloc s al n = (p, s1) \<longrightarrow> fst s1 = fst s \<and>
        (if p = 0 then set (snd (snd s1)) = set (snd (snd s))
         else set (snd (snd s1)) = insert (p, unat n) (set (snd (snd s))) \<and> inside (fst s) (p, unat n) \<and>
           (\<forall>b\<in>set (snd (snd s)). clear_of (p, unat n) b))"
      using m by (intro allI impI)
  qed (auto simp: bump_malloc_def split: if_splits)
qed

definition example_cache :: "((addr \<times> nat) \<times> nat \<times> block list) CodeCache" where
  "example_cache = (let m = \<lparr>mm_impl = \<lparr>mm_executable = True, mm_fd = 0, backing_memory = 0x10000, map_size = 0x1000\<rparr>, arena_size = 0x1000\<rparr>
     in \<lparr>inst_alignment = 4, max_size = 0x1000, space_code = create_mspace_with_base bump_malloc 0x10000 0x1000,
         space_data = None, code_mem = m, data_mem = m, code_mem_mapped = 0x90000\<rparr>)"


end
