(* ===== verification/Pools.thy ===== *)
theory Pools
  imports Prelude
begin

text \<open>
  The pool of objects of one type, \<^verbatim>\<open>runtime/common/object_pool.h\<close>, and the arena of objects of any size,
  \<^verbatim>\<open>runtime/common/mem_arena.h\<close>.  Both keep a vector of chunks and fill the last one.  The storage of a
  chunk is an array of its own that does not move when the vector grows; it is known by a number.
\<close>

section \<open>ObjectPool\<close>

record OP_Chunk =
  used_objects :: size_t
  num_objects :: size_t
  op_storage :: nat

text \<open>\<open>node\<close> is the position of a chunk in the vector, \<open>op_fresh\<close> the number of the next storage.\<close>

record ObjectPool =
  op_node :: nat
  op_chunks :: "OP_Chunk list"
  op_new_chunk_size :: size_t
  op_fresh :: nat

text \<open>\<open>chunks.emplace_back(size)\<close>; \<open>can_alloc\<close> tells whether an array of that size can be allocated.\<close>

definition OP_emplace_back :: "(size_t \<Rightarrow> bool) \<Rightarrow> ObjectPool \<Rightarrow> size_t \<Rightarrow> ObjectPool result" where
  "OP_emplace_back can_alloc p sz =
     (if can_alloc sz
      then Inr (p\<lparr>op_chunks := op_chunks p @ [\<lparr>used_objects = 0, num_objects = sz, op_storage = op_fresh p\<rparr>],
                  op_node := length (op_chunks p), op_fresh := Suc (op_fresh p)\<rparr>)
      else Inl BadAlloc)"

definition ObjectPool_new :: "(size_t \<Rightarrow> bool) \<Rightarrow> size_t \<Rightarrow> size_t \<Rightarrow> ObjectPool result" where
  "ObjectPool_new can_alloc sizeof_T chunk_size =
     OP_emplace_back can_alloc \<lparr>op_node = 0, op_chunks = [], op_new_chunk_size = chunk_size * sizeof_T, op_fresh = 0\<rparr>
       (chunk_size * sizeof_T)"

definition OP_FreeChunk :: "(size_t \<Rightarrow> bool) \<Rightarrow> ObjectPool \<Rightarrow> ObjectPool result" where
  "OP_FreeChunk can_alloc p =
     res_bind (vec_at (op_chunks p) (op_node p)) (\<lambda>c.
     if used_objects c \<noteq> num_objects c then Inr p
     else OP_emplace_back can_alloc p (op_new_chunk_size p))"

text \<open>The object is a slot of a storage.\<close>

definition OP_Memory :: "(size_t \<Rightarrow> bool) \<Rightarrow> ObjectPool \<Rightarrow> (ObjectPool \<times> (nat \<times> nat)) result" where
  "OP_Memory can_alloc p =
     res_bind (OP_FreeChunk can_alloc p) (\<lambda>p1.
     res_bind (vec_at (op_chunks p1) (op_node p1)) (\<lambda>c.
     if used_objects c < num_objects c
     then Inr (p1\<lparr>op_chunks := (op_chunks p1)[op_node p1 := c\<lparr>used_objects := used_objects c + 1\<rparr>]\<rparr>,
               (op_storage c, unat (used_objects c)))
     else Inl OutOfBounds))"

definition OP_Chunk_Release :: "OP_Chunk \<Rightarrow> OP_Chunk" where
  "OP_Chunk_Release c = c\<lparr>used_objects := 0\<rparr>"

definition ReleaseContents :: "(size_t \<Rightarrow> bool) \<Rightarrow> ObjectPool \<Rightarrow> ObjectPool result" where
  "ReleaseContents can_alloc p =
     (case op_chunks p of
        [] \<Rightarrow> Inr p
      | root # rest \<Rightarrow>
          if used_objects root = num_objects root then
            (let total_objects = num_objects root + op_new_chunk_size p * (of_nat (length (op_chunks p)) - 1) in
             OP_emplace_back can_alloc (p\<lparr>op_chunks := []\<rparr>) total_objects)
          else Inr (p\<lparr>op_chunks := [OP_Chunk_Release root], op_node := 0\<rparr>))"

section \<open>MemArena\<close>

record MA_Chunk =
  used_size :: size_t
  num_size :: size_t
  ma_storage :: nat

record MemArena =
  ma_node :: nat
  ma_chunks :: "MA_Chunk list"
  ma_new_chunk_size :: size_t
  ma_fresh :: nat

definition MA_emplace_back :: "(size_t \<Rightarrow> bool) \<Rightarrow> MemArena \<Rightarrow> size_t \<Rightarrow> MemArena result" where
  "MA_emplace_back can_alloc a sz =
     (if can_alloc sz
      then Inr (a\<lparr>ma_chunks := ma_chunks a @ [\<lparr>used_size = 0, num_size = sz, ma_storage = ma_fresh a\<rparr>],
                  ma_node := length (ma_chunks a), ma_fresh := Suc (ma_fresh a)\<rparr>)
      else Inl BadAlloc)"

definition MemArena_new :: "(size_t \<Rightarrow> bool) \<Rightarrow> size_t \<Rightarrow> MemArena result" where
  "MemArena_new can_alloc chunk_size =
     MA_emplace_back can_alloc \<lparr>ma_node = 0, ma_chunks = [], ma_new_chunk_size = chunk_size, ma_fresh = 0\<rparr> chunk_size"

definition MA_FreeChunk :: "(size_t \<Rightarrow> bool) \<Rightarrow> MemArena \<Rightarrow> size_t \<Rightarrow> MemArena result" where
  "MA_FreeChunk can_alloc a sz =
     res_bind (vec_at (ma_chunks a) (ma_node a)) (\<lambda>c.
     if used_size c + sz \<le> num_size c then Inr a
     else MA_emplace_back can_alloc a (ma_new_chunk_size a))"

text \<open>The memory is a storage and the offset of the first byte in it.\<close>

definition MA_Memory :: "(size_t \<Rightarrow> bool) \<Rightarrow> MemArena \<Rightarrow> size_t \<Rightarrow> (MemArena \<times> (nat \<times> size_t)) result" where
  "MA_Memory can_alloc a sz =
     res_bind (MA_FreeChunk can_alloc a sz) (\<lambda>a1.
     res_bind (vec_at (ma_chunks a1) (ma_node a1)) (\<lambda>c.
     if used_size c < num_size c
     then Inr (a1\<lparr>ma_chunks := (ma_chunks a1)[ma_node a1 := c\<lparr>used_size := used_size c + sz\<rparr>]\<rparr>,
               (ma_storage c, used_size c))
     else Inl OutOfBounds))"

definition CreateArray :: "(size_t \<Rightarrow> bool) \<Rightarrow> MemArena \<Rightarrow> size_t \<Rightarrow> size_t \<Rightarrow> (MemArena \<times> (nat \<times> size_t)) result" where
  "CreateArray can_alloc a sizeof_T n = MA_Memory can_alloc a (sizeof_T * n)"

section \<open>Sequences of requests\<close>

text \<open>
  What an allocator of storage and offset gives out for a sequence of requests: for each the storage,
  the offset and the length.
\<close>

fun run_requests ::
  "('s \<Rightarrow> 'r \<Rightarrow> ('s \<times> (nat \<times> nat)) result) \<Rightarrow> ('r \<Rightarrow> nat) \<Rightarrow> 'r list \<Rightarrow> 's \<Rightarrow> ('s \<times> (nat \<times> nat \<times> nat) list) result" where
  "run_requests step len [] s = Inr (s, [])"
| "run_requests step len (r # rs) s =
     res_bind (step s r) (\<lambda>(s1, (b, off)).
     res_bind (run_requests step len rs s1) (\<lambda>(s2, xs). Inr (s2, (b, off, len r) # xs)))"

definition pool_request :: "(size_t \<Rightarrow> bool) \<Rightarrow> ObjectPool \<Rightarrow> unit \<Rightarrow> (ObjectPool \<times> (nat \<times> nat)) result" where
  "pool_request can_alloc p r = OP_Memory can_alloc p"

definition arena_request :: "(size_t \<Rightarrow> bool) \<Rightarrow> MemArena \<Rightarrow> size_t \<Rightarrow> (MemArena \<times> (nat \<times> nat)) result" where
  "arena_request can_alloc a sz =
     res_bind (MA_Memory can_alloc a sz) (\<lambda>(a1, (b, off)). Inr (a1, (b, unat off)))"

text \<open>Regions given out later lie behind the earlier ones, in the same storage or in another.\<close>

definition behind :: "nat \<times> nat \<times> nat \<Rightarrow> nat \<times> nat \<times> nat \<Rightarrow> bool" where
  "behind x y = (case (x, y) of ((b, off, len), (b', off', len')) \<Rightarrow> b < b' \<or> b = b' \<and> off + len \<le> off')"

locale bump_allocator =
  fixes inv :: "'s \<Rightarrow> bool" and frontier :: "'s \<Rightarrow> nat \<times> nat" and cap :: nat
    and step :: "'s \<Rightarrow> 'r \<Rightarrow> ('s \<times> (nat \<times> nat)) result" and len :: "'r \<Rightarrow> nat"
  assumes step_ok: "inv s \<Longrightarrow> 0 < len r \<Longrightarrow> len r \<le> cap \<Longrightarrow>
    \<exists>s' b off. step s r = Inr (s', (b, off)) \<and> inv s' \<and> behind (fst (frontier s), snd (frontier s), 0) (b, off, 0) \<and>
              off + len r \<le> cap \<and> frontier s' = (b, off + len r)"
begin

lemma regions_behind:
  assumes "inv s" and "\<forall>r\<in>set rs. 0 < len r \<and> len r \<le> cap"
  shows "\<exists>s' xs. run_requests step len rs s = Inr (s', xs) \<and> inv s' \<and> map (\<lambda>x. snd (snd x)) xs = map len rs \<and>
    (\<forall>(b, off, l)\<in>set xs. off + l \<le> cap \<and> behind (fst (frontier s), snd (frontier s), 0) (b, off, 0)) \<and> sorted_wrt behind xs"
  using assms
proof (induction rs arbitrary: s)
  case (Cons r rs)
  obtain s1 b off where 1: "step s r = Inr (s1, (b, off))" "inv s1"
    "behind (fst (frontier s), snd (frontier s), 0) (b, off, 0)" "off + len r \<le> cap" "frontier s1 = (b, off + len r)"
    using step_ok [of s r] Cons.prems by auto
  obtain s2 xs where 2: "run_requests step len rs s1 = Inr (s2, xs)" "inv s2" "map (\<lambda>x. snd (snd x)) xs = map len rs"
    "\<forall>(b, off, l)\<in>set xs. off + l \<le> cap \<and> behind (fst (frontier s1), snd (frontier s1), 0) (b, off, 0)"
    "sorted_wrt behind xs"
    using Cons.IH [OF 1(2)] Cons.prems by auto
  have "\<forall>(b', off', l)\<in>set xs. behind (fst (frontier s), snd (frontier s), 0) (b', off', 0) \<and> behind (b, off, len r) (b', off', l)"
    using 2(4) 1(3,5) by (fastforce simp: behind_def)
  then show ?case using 1 2 by auto
qed simp

lemma regions_disjoint:
  assumes "inv s" and "\<forall>r\<in>set rs. 0 < len r \<and> len r \<le> cap"
  shows "\<exists>s' xs. run_requests step len rs s = Inr (s', xs) \<and> inv s' \<and> map (\<lambda>x. snd (snd x)) xs = map len rs \<and>
    (\<forall>(b, off, l)\<in>set xs. off + l \<le> cap) \<and> sorted_wrt behind xs"
  using regions_behind [OF assms] by (elim exE conjE, intro exI conjI) (assumption | auto)+

end

section \<open>The pool and the arena\<close>

definition pool_inv :: "(size_t \<Rightarrow> bool) \<Rightarrow> size_t \<Rightarrow> ObjectPool \<Rightarrow> bool" where
  "pool_inv can_alloc n p \<longleftrightarrow> n \<noteq> 0 \<and> can_alloc n \<and> op_new_chunk_size p = n \<and>
     (\<exists>cs c. op_chunks p = cs @ [c] \<and> op_node p = length cs \<and> num_objects c = n \<and> used_objects c \<le> n \<and>
            op_fresh p = Suc (op_storage c))"

definition pool_frontier :: "ObjectPool \<Rightarrow> nat \<times> nat" where
  "pool_frontier p = (let c = last (op_chunks p) in (op_storage c, unat (used_objects c)))"

definition arena_inv :: "(size_t \<Rightarrow> bool) \<Rightarrow> size_t \<Rightarrow> MemArena \<Rightarrow> bool" where
  "arena_inv can_alloc n a \<longleftrightarrow> can_alloc n \<and> unat n < 2 ^ 63 \<and> ma_new_chunk_size a = n \<and>
     (\<exists>cs c. ma_chunks a = cs @ [c] \<and> ma_node a = length cs \<and> num_size c = n \<and> used_size c \<le> n \<and>
            ma_fresh a = Suc (ma_storage c))"

definition arena_frontier :: "MemArena \<Rightarrow> nat \<times> nat" where
  "arena_frontier a = (let c = last (ma_chunks a) in (ma_storage c, unat (used_size c)))"

lemma less_next: "x < n \<Longrightarrow> unat (x + 1) = unat x + 1" for x n :: size_t
  using unsigned_less [of n, where 'a = nat] by (simp add: unat_word_ariths word_less_nat_alt)

lemma pool_step:
  assumes "pool_inv can_alloc n p"
  shows "\<exists>p' b off. pool_request can_alloc p r = Inr (p', (b, off)) \<and> pool_inv can_alloc n p' \<and>
           behind (fst (pool_frontier p), snd (pool_frontier p), 0) (b, off, 0) \<and> off + 1 \<le> unat n \<and>
           pool_frontier p' = (b, off + 1)"
proof -
  obtain cs c where c: "op_chunks p = cs @ [c]" "op_node p = length cs" "num_objects c = n" "used_objects c \<le> n"
    "op_fresh p = Suc (op_storage c)" and n: "n \<noteq> 0" "can_alloc n" "op_new_chunk_size p = n"
    using assms by (auto simp: pool_inv_def)
  show ?thesis
  proof (cases "used_objects c = n")
    case True
    let ?c = "\<lparr>used_objects = 1, num_objects = n, op_storage = op_fresh p\<rparr>"
    have "0 < n" using n(1) by (simp add: word_gt_0)
    then have "1 \<le> n" using less_next [of 0 n] by (simp add: word_le_nat_alt word_less_nat_alt)
    moreover have "pool_request can_alloc p r = Inr (p\<lparr>op_node := length (op_chunks p), op_fresh := Suc (op_fresh p),
        op_chunks := op_chunks p @ [?c]\<rparr>, (op_fresh p, 0))"
      using c n True \<open>0 < n\<close> by (simp add: pool_request_def OP_Memory_def OP_FreeChunk_def OP_emplace_back_def)
    ultimately show ?thesis using c n \<open>0 < n\<close>
      by (auto simp: pool_inv_def pool_frontier_def behind_def word_le_nat_alt word_less_nat_alt)
  next
    case False
    then have l: "used_objects c < n" using c(4) by simp
    let ?c = "c\<lparr>used_objects := used_objects c + 1\<rparr>"
    have "pool_request can_alloc p r = Inr (p\<lparr>op_chunks := cs @ [?c]\<rparr>, (op_storage c, unat (used_objects c)))"
      using c l False by (simp add: pool_request_def OP_Memory_def OP_FreeChunk_def)
    moreover have "used_objects c + 1 \<le> n" using less_next [OF l] l by (simp add: word_le_nat_alt word_less_nat_alt)
    ultimately show ?thesis using c n l less_next [OF l]
      by (auto simp: pool_inv_def pool_frontier_def behind_def word_less_nat_alt)
  qed
qed

interpretation pool: bump_allocator "pool_inv can_alloc n" pool_frontier "unat n" "pool_request can_alloc" "\<lambda>_. 1"
  for can_alloc n
  by unfold_locales (rule pool_step)

lemma arena_step:
  assumes "arena_inv can_alloc n a" and "0 < unat sz" and "unat sz \<le> unat n"
  shows "\<exists>a' b off. arena_request can_alloc a sz = Inr (a', (b, off)) \<and> arena_inv can_alloc n a' \<and>
           behind (fst (arena_frontier a), snd (arena_frontier a), 0) (b, off, 0) \<and> off + unat sz \<le> unat n \<and>
           arena_frontier a' = (b, off + unat sz)"
proof -
  obtain cs c where c: "ma_chunks a = cs @ [c]" "ma_node a = length cs" "num_size c = n" "used_size c \<le> n"
    "ma_fresh a = Suc (ma_storage c)" and n: "can_alloc n" "unat n < 2 ^ 63" "ma_new_chunk_size a = n"
    using assms by (auto simp: arena_inv_def)
  have sum: "unat (used_size c + sz) = unat (used_size c) + unat sz"
    using c(4) n(2) assms(3) by (simp add: unat_word_ariths word_le_nat_alt)
  show ?thesis
  proof (cases "used_size c + sz \<le> n")
    case True
    then have "used_size c < n" using sum assms(2) by (simp add: word_le_nat_alt word_less_nat_alt)
    then have "arena_request can_alloc a sz =
        Inr (a\<lparr>ma_chunks := cs @ [c\<lparr>used_size := used_size c + sz\<rparr>]\<rparr>, (ma_storage c, unat (used_size c)))"
      using c True by (simp add: arena_request_def MA_Memory_def MA_FreeChunk_def)
    then show ?thesis using c n sum True
      by (auto simp: arena_inv_def arena_frontier_def behind_def word_le_nat_alt)
  next
    case False
    let ?c = "\<lparr>used_size = sz, num_size = n, ma_storage = ma_fresh a\<rparr>"
    have "0 < n" using assms(2,3) by (simp add: word_less_nat_alt)
    then have "arena_request can_alloc a sz = Inr (a\<lparr>ma_node := length (ma_chunks a), ma_fresh := Suc (ma_fresh a),
        ma_chunks := ma_chunks a @ [?c]\<rparr>, (ma_fresh a, 0))"
      using c n False by (simp add: arena_request_def MA_Memory_def MA_FreeChunk_def MA_emplace_back_def)
    then show ?thesis using c n assms(3)
      by (auto simp: arena_inv_def arena_frontier_def behind_def word_le_nat_alt)
  qed
qed

interpretation arena: bump_allocator "arena_inv can_alloc n" arena_frontier "unat n" "arena_request can_alloc" unat
  for can_alloc n
  by unfold_locales (rule arena_step)

lemma pool_new_inv: "chunk_size * sizeof_T \<noteq> 0 \<Longrightarrow> can_alloc (chunk_size * sizeof_T) \<Longrightarrow>
    \<exists>p. ObjectPool_new can_alloc sizeof_T chunk_size = Inr p \<and> pool_inv can_alloc (chunk_size * sizeof_T) p"
  by (auto simp: ObjectPool_new_def OP_emplace_back_def pool_inv_def)

lemma arena_new_inv: "can_alloc n \<Longrightarrow> unat n < 2 ^ 63 \<Longrightarrow> \<exists>a. MemArena_new can_alloc n = Inr a \<and> arena_inv can_alloc n a"
  by (auto simp: MemArena_new_def MA_emplace_back_def arena_inv_def)

lemma arena_oversized:
  assumes "arena_inv can_alloc n a" and "0 < unat n" and "n < big" and "unat big < 2 ^ 63"
  shows "\<exists>a' b off. arena_request can_alloc a big = Inr (a', (b, off)) \<and> unat n < off + unat big"
proof -
  obtain cs c where c: "ma_chunks a = cs @ [c]" "ma_node a = length cs" "num_size c = n" "used_size c \<le> n"
    and n: "can_alloc n" "unat n < 2 ^ 63" "ma_new_chunk_size a = n"
    using assms by (auto simp: arena_inv_def)
  have "unat (used_size c + big) = unat (used_size c) + unat big"
    using c(4) n(2) assms(4) by (simp add: unat_word_ariths word_le_nat_alt)
  then have "\<not> used_size c + big \<le> n" using assms(3) by (simp add: word_le_nat_alt word_less_nat_alt)
  moreover have "0 < n" using assms(2) by (simp add: word_less_nat_alt)
  ultimately show ?thesis using c n assms(3)
    by (simp add: arena_request_def MA_Memory_def MA_FreeChunk_def MA_emplace_back_def word_less_nat_alt)
qed

section \<open>Properties\<close>

text \<open>
  C36: the object pool gives out a different slot for every object.  Any number of objects can be
  created from a new pool; their slots are distinct and inside their storage.
\<close>

theorem object_pool_slots_distinct:
  assumes "chunk_size * sizeof_T \<noteq> 0" and "can_alloc (chunk_size * sizeof_T)"
  shows "\<exists>p p' xs. ObjectPool_new can_alloc sizeof_T chunk_size = Inr p \<and>
           run_requests (pool_request can_alloc) (\<lambda>_. 1) (replicate n ()) p = Inr (p', xs) \<and> length xs = n \<and>
           distinct xs \<and> (\<forall>(b, off, l)\<in>set xs. off < unat (chunk_size * sizeof_T))"
proof -
  obtain p where p: "ObjectPool_new can_alloc sizeof_T chunk_size = Inr p" "pool_inv can_alloc (chunk_size * sizeof_T) p"
    using pool_new_inv assms by blast
  have "\<forall>r\<in>set (replicate n ()). 0 < (1::nat) \<and> 1 \<le> unat (chunk_size * sizeof_T)"
    using assms(1) by (simp add: unat_gt_0 Suc_le_eq)
  then obtain p' xs where xs: "run_requests (pool_request can_alloc) (\<lambda>_. 1) (replicate n ()) p = Inr (p', xs)"
    "map (\<lambda>x. snd (snd x)) xs = map (\<lambda>_. 1) (replicate n ())" "sorted_wrt behind xs"
    "\<forall>(b, off, l)\<in>set xs. off + l \<le> unat (chunk_size * sizeof_T)"
    using pool.regions_disjoint [OF p(2)] by blast
  have one: "snd (snd x) = 1" if "x \<in> set xs" for x
  proof -
    have "snd (snd x) \<in> set (map (\<lambda>x. snd (snd x)) xs)" using that by simp
    then show ?thesis unfolding xs(2) by auto
  qed
  have "distinct xs"
    unfolding distinct_conv_nth
  proof (intro allI impI)
    fix i j assume "i < length xs" "j < length xs" "i \<noteq> j"
    then have "behind (xs ! i) (xs ! j) \<or> behind (xs ! j) (xs ! i)" "snd (snd (xs ! i)) = 1" "snd (snd (xs ! j)) = 1"
      using xs(3) one by (auto simp: sorted_wrt_iff_nth_less nat_neq_iff)
    then show "xs ! i \<noteq> xs ! j" by (auto simp: behind_def split: prod.splits)
  qed
  moreover have "length xs = n" using arg_cong [OF xs(2), of length] by simp
  moreover have "\<forall>(b, off, l)\<in>set xs. off < unat (chunk_size * sizeof_T)" using xs(4) one by fastforce
  ultimately show ?thesis using p(1) xs(1) by blast
qed

theorem object_pool_slots_distinct_witness:
  "\<exists>p p' xs. ObjectPool_new (\<lambda>_. True) 3 1 = Inr p \<and>
     run_requests (pool_request (\<lambda>_. True)) (\<lambda>_. 1) (replicate 7 ()) p = Inr (p', xs) \<and> length xs = 7 \<and> distinct xs"
  using object_pool_slots_distinct [of 1 3 "\<lambda>_. True" 7] by auto

text \<open>
  C37: bounds of the arena.  Requests of at least one byte and at most the chunk size always succeed and
  give regions that lie inside their storage and do not overlap.  A request of more than the chunk size
  that does not fit into the rest of the current chunk gives a region that reaches beyond its storage.
\<close>

theorem arena_regions_bounds:
  assumes "can_alloc n" and "0 < unat n" and "unat n < 2 ^ 63"
  shows "\<exists>a. MemArena_new can_alloc n = Inr a \<and>
    (\<forall>szs. (\<forall>sz\<in>set szs. 0 < sz \<and> sz \<le> n) \<longrightarrow>
       (\<exists>a' rs. run_requests (arena_request can_alloc) unat szs a = Inr (a', rs) \<and> map (\<lambda>x. snd (snd x)) rs = map unat szs \<and>
          (\<forall>(b, off, l)\<in>set rs. off + l \<le> unat n) \<and>
          sorted_wrt (\<lambda>(b, off, l) (b', off', l'). b \<noteq> b' \<or> off + l \<le> off') rs \<and>
          (\<forall>big. n < big \<and> unat big < 2 ^ 63 \<longrightarrow>
             (\<exists>a2 b off. arena_request can_alloc a' big = Inr (a2, (b, off)) \<and> unat n < off + unat big))))"
proof -
  obtain a where a: "MemArena_new can_alloc n = Inr a" "arena_inv can_alloc n a"
    using arena_new_inv assms by blast
  have "\<exists>a' rs. run_requests (arena_request can_alloc) unat szs a = Inr (a', rs) \<and> map (\<lambda>x. snd (snd x)) rs = map unat szs \<and>
          (\<forall>(b, off, l)\<in>set rs. off + l \<le> unat n) \<and>
          sorted_wrt (\<lambda>(b, off, l) (b', off', l'). b \<noteq> b' \<or> off + l \<le> off') rs \<and>
          (\<forall>big. n < big \<and> unat big < 2 ^ 63 \<longrightarrow>
             (\<exists>a2 b off. arena_request can_alloc a' big = Inr (a2, (b, off)) \<and> unat n < off + unat big))"
    if "\<forall>sz\<in>set szs. 0 < sz \<and> sz \<le> n" for szs
  proof -
    have "\<forall>sz\<in>set szs. 0 < unat sz \<and> unat sz \<le> unat n" using that by (simp add: word_less_nat_alt word_le_nat_alt)
    then obtain a' rs where r: "run_requests (arena_request can_alloc) unat szs a = Inr (a', rs)" "arena_inv can_alloc n a'"
      "map (\<lambda>x. snd (snd x)) rs = map unat szs" "\<forall>(b, off, l)\<in>set rs. off + l \<le> unat n" "sorted_wrt behind rs"
      using arena.regions_disjoint [OF a(2)] by blast
    have "sorted_wrt (\<lambda>(b, off, l) (b', off', l'). b \<noteq> b' \<or> off + l \<le> off') rs"
      by (rule sorted_wrt_mono_rel [OF _ r(5)]) (auto simp: behind_def)
    then show ?thesis using r arena_oversized [OF r(2) assms(2)] by blast
  qed
  then show ?thesis using a(1) by blast
qed

theorem arena_regions_bounds_witness:
  "\<exists>a a' rs. MemArena_new (\<lambda>_. True) 64 = Inr a \<and>
     run_requests (arena_request (\<lambda>_. True)) unat [24, 40, 8] a = Inr (a', rs) \<and>
     (\<forall>(b, off, l)\<in>set rs. off + l \<le> 64)"
proof -
  have "\<forall>sz\<in>set [24, 40, 8 :: size_t]. 0 < sz \<and> sz \<le> 64" by simp
  then show ?thesis using arena_regions_bounds [of "\<lambda>_. True" 64] by fastforce
qed

end
