(* ===== verification/File_IO.thy ===== *)
theory File_IO
  imports System_Calls
begin

text \<open>
  The file of \<^verbatim>\<open>runtime/common/file.cpp\<close>.  The C library and \<^verbatim>\<open>std::filesystem\<close> are a parameter: a record of
  functions on a state \<open>'w\<close>.  A stream is a pointer, null is 0; a file descriptor is an integer.
\<close>

section \<open>Access modes\<close>

datatype FileAccessMode = FAM_None | FAM_Read | FAM_Write | FAM_ReadWrite | FAM_Append | FAM_ReadAppend

fun access_bits :: "FileAccessMode \<Rightarrow> u32" where
  "access_bits FAM_None = 0"
| "access_bits FAM_Read = 1"
| "access_bits FAM_Write = 2"
| "access_bits FAM_ReadWrite = 1 OR 2"
| "access_bits FAM_Append = 4"
| "access_bits FAM_ReadAppend = 1 OR 4"

fun AccessModeToStr :: "FileAccessMode \<Rightarrow> string" where
  "AccessModeToStr FAM_Read = ''rb''"
| "AccessModeToStr FAM_Write = ''wb''"
| "AccessModeToStr FAM_Append = ''ab''"
| "AccessModeToStr FAM_ReadWrite = ''r+b''"
| "AccessModeToStr FAM_ReadAppend = ''a+b''"
| "AccessModeToStr FAM_None = ''''"

section \<open>The C library\<close>

text \<open>
  \<open>pread\<close> and \<open>pwrite\<close> return the number of bytes, -1 on an error; \<open>fread\<close> and \<open>fwrite\<close> the number of
  complete items.
\<close>

record 'w files =
  fs_exists :: "string \<Rightarrow> 'w \<Rightarrow> bool"
  fs_is_regular_file :: "string \<Rightarrow> 'w \<Rightarrow> bool"
  fs_remove :: "string \<Rightarrow> 'w \<Rightarrow> bool \<times> 'w"
  fs_parent_path :: "string \<Rightarrow> string"
  fs_create_directories :: "string \<Rightarrow> 'w \<Rightarrow> 'w"
  fs_file_size :: "string \<Rightarrow> 'w \<Rightarrow> size_t option"
  fopen :: "string \<Rightarrow> string \<Rightarrow> 'w \<Rightarrow> addr \<times> 'w"
  fclose :: "addr \<Rightarrow> 'w \<Rightarrow> int \<times> 'w"
  fflush :: "addr \<Rightarrow> 'w \<Rightarrow> int \<times> 'w"
  fileno :: "addr \<Rightarrow> 'w \<Rightarrow> int"
  fsync :: "int \<Rightarrow> 'w \<Rightarrow> int \<times> 'w"
  pread :: "int \<Rightarrow> size_t \<Rightarrow> size_t \<Rightarrow> 'w \<Rightarrow> u64 \<times> u8 list"
  pwrite :: "int \<Rightarrow> u8 list \<Rightarrow> size_t \<Rightarrow> 'w \<Rightarrow> u64 \<times> 'w"
  fseek_cur :: "addr \<Rightarrow> size_t \<Rightarrow> 'w \<Rightarrow> int \<times> 'w"
  fread :: "addr \<Rightarrow> size_t \<Rightarrow> size_t \<Rightarrow> 'w \<Rightarrow> (size_t \<times> u8 list) \<times> 'w"
  fwrite :: "addr \<Rightarrow> u8 list \<Rightarrow> size_t \<Rightarrow> 'w \<Rightarrow> size_t \<times> 'w"
  fs_ftruncate :: "int \<Rightarrow> size_t \<Rightarrow> 'w \<Rightarrow> int \<times> 'w"
  fs_mmap :: "size_t \<Rightarrow> u32 \<Rightarrow> int \<Rightarrow> size_t \<Rightarrow> 'w \<Rightarrow> addr \<times> 'w"
  fs_munmap :: "addr \<Rightarrow> size_t \<Rightarrow> 'w \<Rightarrow> int \<times> 'w"

section \<open>File\<close>

record File =
  path :: string
  f_file :: addr
  open_mode :: FileAccessMode

definition File_new :: "string \<Rightarrow> File" where
  "File_new p = \<lparr>path = p, f_file = 0, open_mode = FAM_None\<rparr>"

definition File_Create :: "'w files \<Rightarrow> string \<Rightarrow> 'w \<Rightarrow> bool \<times> 'w" where
  "File_Create fs p w =
     (if \<not> fs_exists fs p w then
        (let (f, w1) = fopen fs p ''w'' w;
             w2 = (if f \<noteq> 0 then snd (fclose fs f w1) else w1)
         in (f \<noteq> 0, w2))
      else (True, w))"

definition File_Delete :: "'w files \<Rightarrow> string \<Rightarrow> 'w \<Rightarrow> bool \<times> 'w" where
  "File_Delete fs p w =
     (if fs_exists fs p w then (if fs_is_regular_file fs p w then fs_remove fs p w else (False, w)) else (False, w))"

definition IsOpen :: "File \<Rightarrow> bool" where
  "IsOpen f \<longleftrightarrow> f_file f \<noteq> 0"

definition File_Close :: "'w files \<Rightarrow> File \<Rightarrow> 'w \<Rightarrow> bool \<times> 'w" where
  "File_Close fs f w =
     (if \<not> IsOpen f then (False, w) else (let (r, w1) = fclose fs (f_file f) w in (r \<noteq> 0, w1)))"

definition File_Open :: "'w files \<Rightarrow> File \<Rightarrow> FileAccessMode \<Rightarrow> 'w \<Rightarrow> bool \<times> File \<times> 'w" where
  "File_Open fs f mode w =
     (let w1 = snd (File_Close fs f w);
          w2 = (if \<not> fs_exists fs (path f) w1 then
                  (let parent = fs_parent_path fs (path f);
                       w3 = (if \<not> fs_exists fs parent w1 then fs_create_directories fs parent w1 else w1)
                   in snd (File_Create fs (path f) w3))
                else w1);
          (h, w4) = fopen fs (path f) (AccessModeToStr mode) w2;
          f1 = f\<lparr>f_file := h\<rparr>
      in if IsOpen f1 then (True, f1\<lparr>open_mode := mode\<rparr>, w4) else (False, f1, w4))"

definition File_Flush :: "'w files \<Rightarrow> File \<Rightarrow> 'w \<Rightarrow> bool \<times> 'w" where
  "File_Flush fs f w =
     (if \<not> IsOpen f then (False, w) else (let (r, w1) = fflush fs (f_file f) w in (r = 0, w1)))"

definition File_Commit :: "'w files \<Rightarrow> File \<Rightarrow> 'w \<Rightarrow> bool \<times> 'w" where
  "File_Commit fs f w =
     (if \<not> IsOpen f then (False, w)
      else (let (r, w1) = fflush fs (f_file f) w in
            if r = 0 then (let (s, w2) = fsync fs (fileno fs (f_file f) w1) w1 in (s = 0, w2)) else (False, w1)))"

text \<open>
  \<open>Read\<close> and \<open>Write\<close> on systems with file descriptors, and on the others.  The destination buffer is
  what is returned beside the success.
\<close>

definition File_Read :: "'w files \<Rightarrow> File \<Rightarrow> size_t \<Rightarrow> size_t \<Rightarrow> 'w \<Rightarrow> bool \<times> u8 list" where
  "File_Read fs f offset sz w =
     (let (n, bytes) = pread fs (fileno fs (f_file f) w) sz offset w in (n = sz, bytes))"

definition File_Write :: "'w files \<Rightarrow> File \<Rightarrow> u8 list \<Rightarrow> size_t \<Rightarrow> 'w \<Rightarrow> bool \<times> 'w" where
  "File_Write fs f src offset w =
     (let (n, w1) = pwrite fs (fileno fs (f_file f) w) src offset w in (n = of_nat (length src), w1))"

definition File_Read_stdio :: "'w files \<Rightarrow> File \<Rightarrow> size_t \<Rightarrow> size_t \<Rightarrow> ('w, bool \<times> u8 list) io" where
  "File_Read_stdio fs f offset sz =
     io_bind (io_ASSERT (offset \<le> 2 * 1024 * 1024 * 1024)) (\<lambda>_.
     io_bind (io_call (fseek_cur fs (f_file f) offset)) (\<lambda>r.
     if r = 0 then io_bind (io_call (fread fs (f_file f) sz 1)) (\<lambda>(n, bytes). io_return (n = sz, bytes))
     else io_return (False, [])))"

definition File_Write_stdio :: "'w files \<Rightarrow> File \<Rightarrow> u8 list \<Rightarrow> size_t \<Rightarrow> ('w, bool) io" where
  "File_Write_stdio fs f src offset =
     io_bind (io_ASSERT (offset \<le> 2 * 1024 * 1024 * 1024)) (\<lambda>_.
     io_bind (io_call (fseek_cur fs (f_file f) offset)) (\<lambda>r.
     if r = 0 then io_bind (io_call (fwrite fs (f_file f) src 1)) (\<lambda>n. io_return (n = of_nat (length src)))
     else io_return False))"

definition File_Map :: "'w files \<Rightarrow> File \<Rightarrow> size_t \<Rightarrow> size_t \<Rightarrow> 'w \<Rightarrow> addr \<times> 'w" where
  "File_Map fs f offset sz w =
     (if \<not> IsOpen f then (0, w)
      else (let p1 = (if access_bits (open_mode f) AND access_bits FAM_Read \<noteq> 0 then PROT_READ else 0);
                p2 = (if access_bits (open_mode f) AND access_bits FAM_Write \<noteq> 0 then p1 OR PROT_WRITE else p1);
                (res, w1) = fs_mmap fs sz p2 (fileno fs (f_file f) w) offset w
            in (if res \<noteq> MAP_FAILED then res else 0, w1)))"

definition File_Size :: "'w files \<Rightarrow> File \<Rightarrow> 'w \<Rightarrow> size_t" where
  "File_Size fs f w = (case fs_file_size fs (path f) w of None \<Rightarrow> 0 | Some n \<Rightarrow> n)"

definition File_Resize :: "'w files \<Rightarrow> File \<Rightarrow> size_t \<Rightarrow> 'w \<Rightarrow> bool \<times> 'w" where
  "File_Resize fs f new_size w =
     (if \<not> IsOpen f then (False, w)
      else (let (r, w1) = fs_ftruncate fs (fileno fs (f_file f) w) new_size w in (r = 0, w1)))"

definition File_GetPath :: "File \<Rightarrow> string" where
  "File_GetPath f = path f"

definition File_destructor :: "'w files \<Rightarrow> File \<Rightarrow> 'w \<Rightarrow> 'w" where
  "File_destructor fs f w = snd (File_Close fs f w)"

definition File_Unmap :: "'w files \<Rightarrow> addr \<Rightarrow> size_t \<Rightarrow> 'w \<Rightarrow> bool \<times> 'w" where
  "File_Unmap fs mem sz w = (let (r, w1) = fs_munmap fs mem sz w in (r = 0, w1))"

section \<open>What the C library promises\<close>

text \<open>
  The documented behaviour of the calls on an open regular file whose bytes are \<open>content\<close>: a write of
  \<open>n\<close> bytes replaces them at the offset, fills a gap before them with zeros and keeps the rest; a read
  returns the bytes that are there; the number of items is at most the number asked for.
\<close>

definition patch :: "u8 list \<Rightarrow> nat \<Rightarrow> u8 list \<Rightarrow> u8 list" where
  "patch old off new = take off (old @ replicate (off - length old) 0) @ new @ drop (off + length new) old"

definition file_laws :: "'w files \<Rightarrow> ('w \<Rightarrow> int \<Rightarrow> u8 list) \<Rightarrow> bool" where
  "file_laws fs content \<longleftrightarrow>
     (\<forall>fd src off w n w1. pwrite fs fd src off w = (n, w1) \<longrightarrow> n \<noteq> -1 \<longrightarrow>
        unat n \<le> length src \<and> content w1 fd = patch (content w fd) (unat off) (take (unat n) src)) \<and>
     (\<forall>fd sz off w. unat off + unat sz \<le> length (content w fd) \<longrightarrow>
        pread fs fd sz off w = (sz, take (unat sz) (drop (unat off) (content w fd)))) \<and>
     (\<forall>h src off w. fileno fs h (snd (pwrite fs (fileno fs h w) src off w)) = fileno fs h w)"


lemma patch_read: "take (length new) (drop off (patch old off new)) = new"
  by (simp add: patch_def)

lemma length_patch: "length (patch old off new) = max (length old) (off + length new)"
  by (auto simp: patch_def)

lemma nth_patch: "i < length old \<Longrightarrow> i < off \<or> off + length new \<le> i \<Longrightarrow> patch old off new ! i = old ! i"
  by (auto simp: patch_def nth_append)

lemma patch_elsewhere:
  assumes "off' + n \<le> length old" and "off' + n \<le> off \<or> off + length new \<le> off'"
  shows "take n (drop off' (patch old off new)) = take n (drop off' old)"
  by (rule nth_equalityI) (use assms in \<open>auto simp: length_patch intro!: nth_patch\<close>)

section \<open>Properties\<close>


definition example_files :: "u8 list files" where
  "example_files = \<lparr>fs_exists = (\<lambda>_ _. True), fs_is_regular_file = (\<lambda>_ _. True), fs_remove = (\<lambda>_ w. (True, w)),
     fs_parent_path = (\<lambda>p. p), fs_create_directories = (\<lambda>_ w. w), fs_file_size = (\<lambda>_ w. Some (of_nat (length w))),
     fopen = (\<lambda>_ _ w. (1, w)), fclose = (\<lambda>_ w. (0, w)), fflush = (\<lambda>_ w. (0, w)), fileno = (\<lambda>_ _. 3),
     fsync = (\<lambda>_ w. (0, w)),
     pread = (\<lambda>_ sz off w. (if unat off + unat sz \<le> length w then sz else 0, take (unat sz) (drop (unat off) w))),
     pwrite = (\<lambda>_ src off w. if length src < 2 ^ 63 then (of_nat (length src), patch w (unat off) src) else (- 1, w)),
     fseek_cur = (\<lambda>_ _ w. (0, w)), fread = (\<lambda>_ _ _ w. ((0, []), w)), fwrite = (\<lambda>_ _ _ w. (0, w)),
     fs_ftruncate = (\<lambda>_ _ w. (0, w)), fs_mmap = (\<lambda>_ _ _ _ w. (MAP_FAILED, w)), fs_munmap = (\<lambda>_ _ w. (0, w))\<rparr>"

lemma example_files_laws: "file_laws example_files (\<lambda>w _. w)"
proof -
  have "unat (of_nat (length src) :: u64) = length src" if "length src < 2 ^ 63" for src :: "u8 list"
    using that by (intro unat_of_nat_small) simp
  then show ?thesis by (auto simp: file_laws_def example_files_def split: if_splits)
qed


text \<open>Without file descriptors, \<open>fread\<close> reads one item of the given size and its result, 0 or 1, is compared
  with the size: a read of two bytes or more never reports success.\<close>

lemma File_Read_stdio_fails:
  assumes "\<forall>h sz w. fst (fst (fread fs h sz 1 w)) \<le> 1" and "2 \<le> sz" and "offset \<le> 2 * 1024 * 1024 * 1024"
  shows "\<exists>bytes w1. File_Read_stdio fs f offset sz w = (Inr (False, bytes), w1)"
proof -
  have "fst (fst (fread fs h sz 1 v)) \<noteq> sz" for h v
  proof
    assume "fst (fst (fread fs h sz 1 v)) = sz"
    then have "sz \<le> 1" using assms(1) by metis
    then show False using assms(2) by (simp add: word_le_nat_alt)
  qed
  then show ?thesis using assms(3)
    by (auto simp: File_Read_stdio_def split_beta)
qed

end
