(* ===== verification/HIR_Values.thy ===== *)
theory HIR_Values
  imports HIR_Graph
begin

text \<open>
  The values of a function under construction: their numbering, the map of values, the lists of
  uses, and the renumbering by \<open>IdByRPO\<close>.
\<close>

section \<open>Values and their uses\<close>

definition ids_of :: "inst_heap \<Rightarrow> u16 option list" where
  "ids_of h = map (map_option inst_id) h"

lemma length_ids_of [simp]: "length (ids_of h) = length h"
  by (simp add: ids_of_def)

lemma ids_of_nth [simp]: "p < length h \<Longrightarrow> ids_of h ! p = map_option inst_id (h ! p)"
  by (simp add: ids_of_def)

lemma ids_of_update: "ids_of (h[p := c]) = (ids_of h)[p := map_option inst_id c]"
  by (simp add: ids_of_def map_update)

lemma ids_live:
  "p < length h \<Longrightarrow> ids_of h ! p = Some x \<Longrightarrow> \<exists>i. inst_at h p = Inr i \<and> inst_id i = x"
  by auto

lemma inst_upd_ids:
  "inst_upd h p f = Inr h' \<Longrightarrow> (\<And>i. inst_id (f i) = inst_id i) \<Longrightarrow> ids_of h' = ids_of h"
  by (auto simp: ir_simps ids_of_update list_update_same_conv)

lemma Use_ids: "Use h this v = Inr h' \<Longrightarrow> ids_of h' = ids_of h"
  by (auto simp: Use_def dest!: inst_upd_ids split: option.splits if_splits elim!: res_bind_InrE)

lemma UnUse_ids: "UnUse h this v = Inr h' \<Longrightarrow> ids_of h' = ids_of h"
  by (auto simp: UnUse_def dest!: inst_upd_ids split: option.splits if_splits elim!: res_bind_InrE)

lemma DestroyArg_ids: "DestroyArg h this i = Inr h' \<Longrightarrow> ids_of h' = ids_of h"
  by (auto simp: DestroyArg_def dest!: UnUse_ids split: if_splits elim!: res_bind_InrE)

lemma put_arg_ids: "put_arg h this i a = Inr h' \<Longrightarrow> ids_of h' = ids_of h"
  by (auto simp: put_arg_def ir_simps ids_of_update list_update_same_conv res_bind_Inr_iff)

lemma SetArg_ids: "SetArg h this i a = Inr h' \<Longrightarrow> ids_of h' = ids_of h"
  unfolding SetArg_def
  by (elim res_bind_InrE)
     (auto dest!: DestroyArg_ids put_arg_ids Use_ids split: Arg.splits if_splits elim!: res_bind_InrE)

lemma use_if_value_ids: "use_if_value h this a = Inr h' \<Longrightarrow> ids_of h' = ids_of h"
  by (auto simp: use_if_value_def dest: Use_ids split: Arg.splits)

lemma SetArg_Operand_ids: "SetArg_Operand h this i od = Inr h' \<Longrightarrow> ids_of h' = ids_of h"
  unfolding SetArg_Operand_def
  by (elim res_bind_InrE) (auto dest!: DestroyArg_ids put_arg_ids use_if_value_ids)

lemma set_args_from_ids: "set_args_from h this i as = Inr h' \<Longrightarrow> ids_of h' = ids_of h"
  by (induction h this i as rule: set_args_from.induct)
     (auto dest: SetArg_ids SetArg_Operand_ids elim!: res_bind_InrE)

lemma Create_ids: "Create h op as = Inr (p, h') \<Longrightarrow> ids_of h' = ids_of h @ [Some 0]"
  by (auto simp: Create_def SetArgs_def Let_def ids_of_def Inst_def dest!: set_args_from_ids
      elim!: res_bind_InrE)

text \<open>The uses of the value of \<open>d\<close> by the slots \<open>is\<close> of instruction \<open>p\<close>, and by all instructions.\<close>

definition new_uses :: "Arg list \<Rightarrow> inst_ptr \<Rightarrow> nat list \<Rightarrow> inst_ptr \<Rightarrow> HIRUse list" where
  "new_uses as p is d =
     map (\<lambda>i. \<lparr>use_inst = p, use_arg_idx = of_nat i\<rparr>) (filter (\<lambda>i. ref_of (as ! i) = Some d) is)"

definition all_uses :: "Arg list option list \<Rightarrow> inst_ptr \<Rightarrow> HIRUse list" where
  "all_uses A d =
     concat (map (\<lambda>p. case A ! p of None \<Rightarrow> [] | Some as \<Rightarrow> new_uses as p [0..<max_args] d) [0..<length A])"

text \<open>
  Values are numbered in the order of their creation, the map holds all of them in descending
  order of their numbers, the defining instruction of a value carries its number, and the use
  list of a value is exactly the list of slots that refer to it.
\<close>

definition value_ids_ok :: "HIRFunction \<Rightarrow> bool" where
  "value_ids_ok f \<longleftrightarrow>
     value_order_id f = of_nat (length (pool_values f)) \<and>
     hvalues f = rev [0..<length (pool_values f)] \<and> length (pool_values f) \<le> 2 ^ 16 \<and>
     (\<forall>k < length (pool_values f). hv_inst (pool_values f ! k) < length (insts f) \<and>
        ids_of (insts f) ! hv_inst (pool_values f ! k) = Some (of_nat k))"

definition value_uses_ok :: "HIRFunction \<Rightarrow> bool" where
  "value_uses_ok f \<longleftrightarrow>
     (\<forall>v \<in> set (pool_values f). hv_uses v = all_uses (args_of (insts f)) (hv_inst v)) \<and>
     (\<forall>as \<in> set (args_of (insts f)). \<forall>a d. (\<exists>bs. as = Some bs \<and> a \<in> set bs) \<longrightarrow> ref_of a = Some d \<longrightarrow>
        d \<in> hv_inst ` set (pool_values f))"

definition value_inv :: "HIRFunction \<Rightarrow> bool" where
  "value_inv f \<longleftrightarrow> value_ids_ok f \<and> value_uses_ok f"

lemma value_id_of:
  assumes "value_ids_ok f" and "k < length (pool_values f)"
  shows "value_id f k = Inr (of_nat k)"
proof -
  have "hv_inst (pool_values f ! k) < length (insts f)"
      "ids_of (insts f) ! hv_inst (pool_values f ! k) = Some (of_nat k)"
    using assms unfolding value_ids_ok_def by blast+
  from ids_live [OF this] show ?thesis using assms(2) by (auto simp: value_id_def)
qed

lemma values_find_spec:
  assumes "value_ids_ok f" and "\<forall>v \<in> set vs. v < length (pool_values f)"
    and "k < length (pool_values f)"
  shows "values_find f (of_nat k) vs = Inr (if k \<in> set vs then Some k else None)"
  using assms
proof (induction vs)
  case (Cons v vs)
  have "length (pool_values f) \<le> 2 ^ 16" using assms(1) by (simp add: value_ids_ok_def)
  then have "v < 2 ^ 16" "k < 2 ^ 16" using Cons.prems(2,3) by (auto simp del: power_numeral)
  then have "(of_nat v :: u16) = of_nat k \<longleftrightarrow> v = k" by (intro of_nat_eq_small) simp_all
  moreover have "value_id f v = Inr (of_nat v)" using value_id_of [OF assms(1)] Cons.prems(2) by simp
  ultimately show ?case using Cons.IH [OF assms(1)] Cons.prems by auto
qed simp

lemma hv_inst_inj:
  assumes "value_ids_ok f" and "j < length (pool_values f)" and "k < length (pool_values f)"
    and "hv_inst (pool_values f ! j) = hv_inst (pool_values f ! k)"
  shows "j = k"
proof -
  have "Some (of_nat j :: u16) = Some (of_nat k)"
    using assms unfolding value_ids_ok_def by metis
  moreover have "j < 2 ^ 16" "k < 2 ^ 16"
    using assms unfolding value_ids_ok_def by linarith+
  ultimately show ?thesis using of_nat_eq_small [of j k, where 'a = 16] by simp
qed

lemma GetHIRValue_spec:
  assumes "value_ids_ok f" and "k < length (pool_values f)"
  shows "GetHIRValue f (Some (hv_inst (pool_values f ! k))) = Inr (Some k)"
proof -
  have v: "hvalues f = rev [0..<length (pool_values f)]" using assms(1) by (simp add: value_ids_ok_def)
  have "hv_inst (pool_values f ! k) < length (insts f)"
      "ids_of (insts f) ! hv_inst (pool_values f ! k) = Some (of_nat k)"
    using assms unfolding value_ids_ok_def by blast+
  from ids_live [OF this] obtain i where i: "inst_at (insts f) (hv_inst (pool_values f ! k)) = Inr i"
      "inst_id i = of_nat k" by blast
  have "values_find f (of_nat k) (hvalues f) = Inr (Some k)"
    using values_find_spec [OF assms(1) _ assms(2), of "hvalues f"] assms(2) v by simp
  then show ?thesis using i by (simp add: GetHIRValue_def)
qed

text \<open>Recording uses changes nothing but the use lists, which grow by the slots of \<open>is\<close>.\<close>

definition with_uses :: "HIRFunction \<Rightarrow> (inst_ptr \<Rightarrow> HIRUse list) \<Rightarrow> HIRFunction" where
  "with_uses f g =
     f\<lparr>pool_values := map (\<lambda>v. v\<lparr>hv_uses := hv_uses v @ g (hv_inst v)\<rparr>) (pool_values f)\<rparr>"

lemma with_uses_ids: "value_ids_ok (with_uses f g) = value_ids_ok f"
  by (simp add: value_ids_ok_def with_uses_def)

lemma with_uses_twice: "with_uses (with_uses f g) g' = with_uses f (\<lambda>d. g d @ g' d)"
  by (simp add: with_uses_def)

lemma with_uses_nil: "with_uses f (\<lambda>d. []) = f"
  by (simp add: with_uses_def)

lemma HIRValue_Use_spec:
  assumes "value_ids_ok f" and "k < length (pool_values f)"
  shows "HIRValue_Use f k p idx =
         Inr (with_uses f (\<lambda>d. if d = hv_inst (pool_values f ! k)
                                then [\<lparr>use_inst = p, use_arg_idx = idx\<rparr>] else []))"
proof -
  have "(pool_values f)[k := hv_uses_update (\<lambda>us. us @ [\<lparr>use_inst = p, use_arg_idx = idx\<rparr>])
          (pool_values f ! k)] =
        map (\<lambda>v. v\<lparr>hv_uses := hv_uses v @ (if hv_inst v = hv_inst (pool_values f ! k)
          then [\<lparr>use_inst = p, use_arg_idx = idx\<rparr>] else [])\<rparr>) (pool_values f)"
    by (rule nth_equalityI)
       (use assms(2) hv_inst_inj [OF assms(1)] in \<open>auto simp: nth_list_update\<close>)
  then show ?thesis
    using assms(2) by (simp add: HIRValue_Use_def upd_value_def with_uses_def)
qed

lemma record_uses_spec:
  assumes "value_ids_ok f" and "p < length (insts f)" and "args_of (insts f) ! p = Some as"
    and "\<forall>i \<in> set is. i < length as"
    and "\<forall>i \<in> set is. \<forall>d. ref_of (as ! i) = Some d \<longrightarrow> d \<in> hv_inst ` set (pool_values f)"
    and "\<forall>i \<in> set is. as ! i \<noteq> ArgValue None \<and> as ! i \<noteq> ArgLambda (LambdaValue None)"
  shows "record_uses f p is = Inr (with_uses f (new_uses as p is))"
  using assms
proof (induction "is" arbitrary: f)
  case Nil
  then show ?case by (simp add: new_uses_def with_uses_def)
next
  case (Cons i "is")
  let ?a = "as ! i"
  have a: "ArgAt (insts f) p i = Inr ?a"
    using Cons.prems(2-4) by (auto simp: ArgAt_def)
  have step: "\<exists>f1. f1 = with_uses f (new_uses as p [i]) \<and>
      record_uses f p (i # is) = record_uses f1 p is"
  proof (cases "ref_of ?a")
    case None
    then have "record_uses f p (i # is) = record_uses f p is"
      using a Cons.prems(6)
      by (cases ?a; cases "case ?a of ArgLambda l \<Rightarrow> l | _ \<Rightarrow> LambdaVoid")
         (auto simp: IR_Types.IsValue_def IsLambda_def Get_Lambda_def lambda_IsValue_def)
    moreover have "with_uses f (new_uses as p [i]) = f"
      using None by (simp add: new_uses_def with_uses_def)
    ultimately show ?thesis by simp
  next
    case (Some d)
    then obtain k where k: "k < length (pool_values f)" "hv_inst (pool_values f ! k) = d"
      using Cons.prems(5) by (metis (no_types, lifting) imageE in_set_conv_nth list.set_intros(1))
    have g: "GetHIRValue f (Some d) = Inr (Some k)" using GetHIRValue_spec [OF Cons.prems(1) k(1)] k(2) by simp
    have "with_uses f (new_uses as p [i]) = with_uses f (\<lambda>e. if e = d
        then [\<lparr>use_inst = p, use_arg_idx = of_nat i\<rparr>] else [])"
      using Some by (intro arg_cong [of _ _ "with_uses f"] ext) (simp add: new_uses_def)
    then have u: "HIRValue_Use f k p (of_nat i) = Inr (with_uses f (new_uses as p [i]))"
      using HIRValue_Use_spec [OF Cons.prems(1) k(1)] k(2) by simp
    have "record_uses f p (i # is) = record_uses (with_uses f (new_uses as p [i])) p is"
      using a g u Some
      by (cases ?a; cases "case ?a of ArgLambda l \<Rightarrow> l | _ \<Rightarrow> LambdaVoid")
         (auto simp: IR_Types.IsValue_def IsLambda_def Get_Lambda_def Get_Value_def
            lambda_IsValue_def lambda_GetValue_def)
    then show ?thesis by blast
  qed
  let ?f1 = "with_uses f (new_uses as p [i])"
  have "record_uses ?f1 p is = Inr (with_uses ?f1 (new_uses as p is))"
  proof (rule Cons.IH)
    show "value_ids_ok ?f1" using Cons.prems(1) by (simp add: with_uses_ids)
    show "\<forall>i \<in> set is. \<forall>d. ref_of (as ! i) = Some d \<longrightarrow> d \<in> hv_inst ` set (pool_values ?f1)"
      using Cons.prems(5) by (simp add: with_uses_def image_image)
  qed (use Cons.prems in \<open>simp_all add: with_uses_def\<close>)
  moreover have "(\<lambda>d. new_uses as p [i] d @ new_uses as p is d) = new_uses as p (i # is)"
    by (simp add: new_uses_def fun_eq_iff)
  ultimately show ?case using step by (simp add: with_uses_twice)
qed

text \<open>A new value gets the next number and becomes the first of the map.\<close>

lemma create_value_spec:
  assumes "value_ids_ok f" and "length (pool_values f) < 2 ^ 16" and "p < length (insts f)"
    and "insts f ! p = Some i" and "p \<notin> hv_inst ` set (pool_values f)"
  shows "\<exists>f'. create_value f p b = Inr (f', length (pool_values f)) \<and> value_ids_ok f' \<and>
           pool_values f' = pool_values f @
             [\<lparr>hv_inst = p, hv_block = b, hv_allocated = ANone, hv_uses = []\<rparr>] \<and>
           f' = f\<lparr>insts := insts f', value_order_id := value_order_id f',
                   pool_values := pool_values f', hvalues := hvalues f'\<rparr> \<and>
           args_of (insts f') = args_of (insts f) \<and> ops_of (insts f') = ops_of (insts f)"
proof -
  let ?n = "length (pool_values f)"
  let ?h = "(insts f)[p := Some (i\<lparr>inst_id := of_nat ?n\<rparr>)]"
  let ?v = "\<lparr>hv_inst = p, hv_block = b, hv_allocated = ANone, hv_uses = []\<rparr>"
  let ?f1 = "f\<lparr>insts := ?h, value_order_id := of_nat ?n + 1, pool_values := pool_values f @ [?v]\<rparr>"
  let ?f2 = "?f1\<lparr>hvalues := ?n # hvalues f\<rparr>"
  have vo: "value_order_id f = of_nat ?n" and hv: "hvalues f = rev [0..<?n]"
    using assms(1) by (simp_all add: value_ids_ok_def)
  have h: "SetId (insts f) p (of_nat ?n) = Inr ?h"
    using assms(3,4) by (auto simp: SetId_def ir_simps)
  have ids: "hv_inst (pool_values f ! k) < length (insts f) \<and>
      ids_of ?h ! hv_inst (pool_values f ! k) = Some (of_nat k)" if "k < ?n" for k
  proof -
    have "hv_inst (pool_values f ! k) \<noteq> p" using that assms(5) by auto
    moreover have "hv_inst (pool_values f ! k) < length (insts f)"
        "ids_of (insts f) ! hv_inst (pool_values f ! k) = Some (of_nat k)"
      using assms(1) that unfolding value_ids_ok_def by blast+
    ultimately show ?thesis by (simp add: ids_of_update)
  qed
  have new: "ids_of ?h ! p = Some (of_nat ?n)" using assms(3) by simp
  have ok2: "value_ids_ok ?f2"
    unfolding value_ids_ok_def
    using ids new assms(2,3) hv by (auto simp: nth_append less_Suc_eq simp del: ids_of_nth)
  have ins: "values_insert ?f1 ?n (hvalues ?f1) = Inr (?n # hvalues f)"
  proof (cases ?n)
    case 0
    then show ?thesis using hv by simp
  next
    case (Suc m)
    then have hd: "hvalues f = m # rev [0..<m]" using hv by simp
    have "value_id ?f1 ?n = Inr (of_nat ?n)" "value_id ?f1 m = Inr (of_nat m)"
      using value_id_of [OF ok2, of ?n] value_id_of [OF ok2, of m] Suc by (simp_all add: value_id_def)
    moreover have "unat (of_nat m :: u16) = m" "unat (of_nat ?n :: u16) = ?n"
      using assms(2) Suc by (intro unat_of_nat_small; simp)+
    then have "(of_nat m :: u16) < of_nat ?n"
      unfolding word_less_nat_alt by (simp only: Suc lessI)
    ultimately show ?thesis using hd by simp
  qed
  have "create_value f p b = Inr (?f2, ?n)"
    using h ins by (simp add: create_value_def Let_def vo)
  moreover have "args_of ?h = args_of (insts f)" "ops_of ?h = ops_of (insts f)"
    using assms(3,4) by (simp_all add: args_of_update ops_of_update list_update_same_conv)
  ultimately show ?thesis using ok2 by (intro exI [of _ ?f2]) simp
qed

lemma all_uses_append:
  "all_uses (A @ [Some as]) d = all_uses A d @ new_uses as (length A) [0..<max_args] d"
proof -
  have "map (\<lambda>p. case (A @ [Some as]) ! p of None \<Rightarrow> [] | Some as \<Rightarrow> new_uses as p [0..<max_args] d) [0..<length A] =
        map (\<lambda>p. case A ! p of None \<Rightarrow> [] | Some as \<Rightarrow> new_uses as p [0..<max_args] d) [0..<length A]"
    by (intro map_cong) (auto simp: nth_append)
  from arg_cong [OF this, of concat] show ?thesis by (simp add: all_uses_def del: map_eq_conv)
qed

lemma all_uses_none:
  assumes "\<And>bs a. Some bs \<in> set A \<Longrightarrow> a \<in> set bs \<Longrightarrow> ref_of a \<noteq> Some d"
    and "\<And>bs. Some bs \<in> set A \<Longrightarrow> length bs = max_args"
  shows "all_uses A d = []"
proof -
  have "(case A ! p of None \<Rightarrow> [] | Some as \<Rightarrow> new_uses as p [0..<max_args] d) = []" if "p < length A" for p
  proof (cases "A ! p")
    case (Some as)
    then have "Some as \<in> set A" using that by (metis nth_mem)
    then show ?thesis using Some assms by (auto simp: new_uses_def filter_empty_conv)
  qed simp
  then show ?thesis by (auto simp: all_uses_def)
qed

definition well_typed :: "OpCode \<Rightarrow> ArgIn list \<Rightarrow> bool" where
  "well_typed op as \<longleftrightarrow> base_op op \<and> \<not> is_pseudo_op op \<and> list_all plain_arg as \<and>
     length (slots_of as) \<le> 4 \<and> arg_types (ir_meta_infos ! op_index op) = map in_type as"

definition has_result :: "OpCode \<Rightarrow> bool" where
  "has_result op \<longleftrightarrow> return_type (ir_meta_infos ! op_index op) = ATValue"

lemma first_arg_local:
  assumes "well_typed op as" and "op = OpLoadLocal \<or> op = OpStoreLocal"
  shows "\<exists>l rest. slots_of as = ArgLocal l # rest"
proof -
  have "\<exists>ts. arg_types (ir_meta_infos ! op_index op) = ATLocal # ts"
    using assms(2) by (auto simp: ir_meta_infos_def meta_def)
  then obtain x xs where x: "as = x # xs" "in_type x = ATLocal"
    using assms(1) by (auto simp: well_typed_def)
  then obtain a where "x = InArg a" "GetType a = ATLocal" by (cases x) auto
  then show ?thesis using x by (cases a) auto
qed

lemma note_local_spec:
  assumes "well_typed op as" and "p < length (insts f)" and "ops_of (insts f) ! p = Some op"
    and "args_of (insts f) ! p = Some (slots_of as @ zs)"
  shows "\<exists>m. note_local f p = Inr (f\<lparr>max_local_id := m\<rparr>)"
proof -
  obtain i where i: "insts f ! p = Some i" "op_code i = op" "arguments i = slots_of as @ zs"
    using assms(2-4) by auto
  show ?thesis
  proof (cases "op = OpLoadLocal \<or> op = OpStoreLocal")
    case True
    from first_arg_local [OF assms(1) this] obtain l rest where "slots_of as = ArgLocal l # rest" by blast
    then show ?thesis
      using i assms(2) True by (auto simp: note_local_def GetArg_Local_def ArgAt_def Get_Local_def)
  next
    case False
    then have "note_local f p = Inr (f\<lparr>max_local_id := max_local_id f\<rparr>)"
      using i assms(2) by (simp add: note_local_def)
    then show ?thesis by blast
  qed
qed

lemma live_refs:
  assumes "arg_live ops a"
  shows "a \<noteq> ArgValue None \<and> a \<noteq> ArgLambda (LambdaValue None)"
  using assms by (auto simp: live_def)

lemma max_local_irrelevant:
  "value_ids_ok (f\<lparr>max_local_id := m\<rparr>) = value_ids_ok f"
  "value_uses_ok (f\<lparr>max_local_id := m\<rparr>) = value_uses_ok f"
  by (simp_all add: value_ids_ok_def value_uses_ok_def)

text \<open>The state in which an instruction is appended, and the arguments that are accepted.\<close>

definition fn_inv :: "HIRFunction \<Rightarrow> bool" where
  "fn_inv f \<longleftrightarrow> value_inv f \<and> graph_inv f \<and> slots_ok (args_of (insts f))"

definition args_known :: "HIRFunction \<Rightarrow> ArgIn list \<Rightarrow> bool" where
  "args_known f as \<longleftrightarrow> list_all (arg_live (ops_of (insts f))) (slots_of as) \<and>
     (\<forall>a \<in> set (slots_of as). \<forall>d. ref_of a = Some d \<longrightarrow> d \<in> hv_inst ` set (pool_values f))"

definition all_slots :: "ArgIn list \<Rightarrow> Arg list" where
  "all_slots as = slots_of as @ replicate (4 - length (slots_of as)) ArgVoid"

lemma all_slots_length: "well_typed op as \<Longrightarrow> length (all_slots as) = max_args"
  by (simp add: all_slots_def well_typed_def max_args_def)

lemma all_slots_known:
  assumes "args_known f as" and "a \<in> set (all_slots as)"
  shows "a \<noteq> ArgValue None \<and> a \<noteq> ArgLambda (LambdaValue None)"
    and "ref_of a = Some d \<Longrightarrow> d \<in> hv_inst ` set (pool_values f)"
  using assms live_refs by (auto simp: args_known_def all_slots_def list_all_iff)

lemma Create_valid:
  assumes "well_typed op as" and "args_known f as" and "\<forall>j. oob op j = ATVoid"
  shows "\<exists>h. Create (insts f) op as = Inr (length (insts f), h) \<and>
             ops_of h = ops_of (insts f) @ [Some op] \<and>
             args_of h = args_of (insts f) @ [Some (all_slots as)] \<and>
             ids_of h = ids_of (insts f) @ [Some 0] \<and> length h = Suc (length (insts f)) \<and>
             Validate oob h (length (insts f)) = Inr ()"
proof -
  have wt: "base_op op" "\<not> is_pseudo_op op" "list_all plain_arg as" "length (slots_of as) \<le> 4"
      "arg_types (ir_meta_infos ! op_index op) = map in_type as"
    using assms(1) by (simp_all add: well_typed_def)
  obtain h where h: "Create (insts f) op as = Inr (length (insts f), h)"
      "ops_of h = ops_of (insts f) @ [Some op]" "args_of h = args_of (insts f) @ [Some (all_slots as)]"
    using Create_layout [OF wt(2,4,3), of "insts f"] assms(2)
    unfolding args_known_def all_slots_def by blast
  have hl: "length h = Suc (length (insts f))" using h(2) by (metis length_append_singleton length_ops_of)
  have o: "ops_of h ! length (insts f) = Some op" "args_of h ! length (insts f) = Some (all_slots as)"
    by (simp_all add: h(2,3) nth_append)
  have "Validate oob h (length (insts f)) = Inr ()"
    using Validate_base_op [OF wt(1) _ o(1) o(2) [unfolded all_slots_def] _ wt(3,5), of oob]
      hl wt(4) assms(3) by simp
  then show ?thesis using h hl Create_ids [OF h(1)] by blast
qed

lemma inst_not_value:
  assumes "value_ids_ok f" and "d \<in> hv_inst ` set (pool_values f)"
  shows "d < length (insts f)"
proof -
  obtain k where "k < length (pool_values f)" "d = hv_inst (pool_values f ! k)"
    using assms(2) by (metis imageE in_set_conv_nth)
  then show ?thesis using assms(1) unfolding value_ids_ok_def by blast
qed

text \<open>The result of an operation, if it has one, becomes a value.\<close>

lemma result_value_spec:
  assumes "value_ids_ok f" and "has \<Longrightarrow> length (pool_values f) < 2 ^ 16"
    and "p < length (insts f)" and "insts f ! p = Some i" and "p \<notin> hv_inst ` set (pool_values f)"
  obtains f2 where "(if has then res_bind (create_value f p cur) (\<lambda>(f2, _). Inr f2) else Inr f) = Inr f2"
    and "value_ids_ok f2" and "args_of (insts f2) = args_of (insts f)"
    and "ops_of (insts f2) = ops_of (insts f)"
    and "pool_values f2 = pool_values f @ (if has then
         [\<lparr>hv_inst = p, hv_block = cur, hv_allocated = ANone, hv_uses = []\<rparr>] else [])"
    and "f2 = f\<lparr>insts := insts f2, value_order_id := value_order_id f2,
                 pool_values := pool_values f2, hvalues := hvalues f2\<rparr>"
proof (cases has)
  case True
  from create_value_spec [OF assms(1) assms(2) [OF True] assms(3-5), of cur] obtain f' where
    "create_value f p cur = Inr (f', length (pool_values f))" "value_ids_ok f'"
    "pool_values f' = pool_values f @ [\<lparr>hv_inst = p, hv_block = cur, hv_allocated = ANone, hv_uses = []\<rparr>]"
    "f' = f\<lparr>insts := insts f', value_order_id := value_order_id f',
            pool_values := pool_values f', hvalues := hvalues f'\<rparr>"
    "args_of (insts f') = args_of (insts f)" "ops_of (insts f') = ops_of (insts f)"
    by blast
  then show thesis using True by (intro that [of f']) simp_all
next
  case False
  then show thesis using assms(1) by (intro that [of f]) simp_all
qed

text \<open>Recording the slots of the new instruction completes the use lists.\<close>

lemma uses_after_append:
  assumes us: "value_uses_ok f" and ids: "value_ids_ok f" and sl: "slots_ok (args_of (insts f))"
    and kn: "args_known f as" and ty: "well_typed op as"
    and pv: "pool_values f2 = pool_values f @ (if has then
         [\<lparr>hv_inst = length (insts f), hv_block = cur, hv_allocated = ANone, hv_uses = []\<rparr>] else [])"
    and ar: "args_of (insts f2) = args_of (insts f) @ [Some (all_slots as)]"
  shows "value_uses_ok (with_uses f2 (new_uses (all_slots as) (length (insts f)) [0..<max_args]))"
    (is "value_uses_ok ?f3")
  unfolding value_uses_ok_def
proof (intro conjI ballI allI impI)
  let ?p = "length (insts f)"
  have A3: "args_of (insts ?f3) = args_of (insts f) @ [Some (all_slots as)]"
    using ar by (simp add: with_uses_def)
  {
    fix v assume "v \<in> set (pool_values ?f3)"
    then obtain w where w: "w \<in> set (pool_values f2)"
        "v = w\<lparr>hv_uses := hv_uses w @ new_uses (all_slots as) ?p [0..<max_args] (hv_inst w)\<rparr>"
      by (auto simp: with_uses_def)
    have "hv_uses w = all_uses (args_of (insts f)) (hv_inst w)"
    proof (cases "w \<in> set (pool_values f)")
      case True
      then show ?thesis using us by (simp add: value_uses_ok_def)
    next
      case False
      then have "hv_uses w = []" "hv_inst w = ?p" using w(1) pv by (auto split: if_splits)
      moreover have "ref_of a \<noteq> Some ?p" if "Some bs \<in> set (args_of (insts f))" "a \<in> set bs" for bs a
        using that us inst_not_value [OF ids, of ?p] by (auto simp: value_uses_ok_def)
      then have "all_uses (args_of (insts f)) ?p = []"
        using sl by (intro all_uses_none) (auto simp: slots_ok_def)
      ultimately show ?thesis by simp
    qed
    then show "hv_uses v = all_uses (args_of (insts ?f3)) (hv_inst v)"
      using w(2) by (simp add: A3 all_uses_append)
  next
    fix bs' a d
    assume bs: "bs' \<in> set (args_of (insts ?f3))" "\<exists>bs. bs' = Some bs \<and> a \<in> set bs" "ref_of a = Some d"
    have "bs' \<in> set (args_of (insts f)) \<or> bs' = Some (all_slots as)" using bs(1) A3 by auto
    then have "d \<in> hv_inst ` set (pool_values f)"
      using bs(2,3) us all_slots_known(2) [OF kn] by (auto simp: value_uses_ok_def)
    moreover have "hv_inst ` set (pool_values ?f3) = hv_inst ` set (pool_values f2)"
      by (simp add: with_uses_def image_image)
    ultimately show "d \<in> hv_inst ` set (pool_values ?f3)" unfolding pv by auto
  }
qed


lemma record_and_note:
  assumes "well_typed op as" and "args_known f as" and "value_ids_ok f2"
    and "args_of (insts f2) = args_of (insts f) @ [Some (all_slots as)]"
    and "ops_of (insts f2) = ops_of (insts f) @ [Some op]"
    and "set (pool_values f) \<subseteq> set (pool_values f2)"
  shows "\<exists>m. record_uses f2 (length (insts f)) [0..<max_args] =
               Inr (with_uses f2 (new_uses (all_slots as) (length (insts f)) [0..<max_args])) \<and>
             note_local (with_uses f2 (new_uses (all_slots as) (length (insts f)) [0..<max_args]))
               (length (insts f)) =
               Inr ((with_uses f2 (new_uses (all_slots as) (length (insts f)) [0..<max_args]))
                      \<lparr>max_local_id := m\<rparr>)"
proof -
  let ?p = "length (insts f)"
  let ?f3 = "with_uses f2 (new_uses (all_slots as) ?p [0..<max_args])"
  have l2: "?p < length (insts f2)"
    using arg_cong [OF assms(5), of length] by simp
  have a2: "args_of (insts f2) ! ?p = Some (all_slots as)" "ops_of (insts f2) ! ?p = Some op"
    by (simp_all add: assms(4,5) nth_append)
  have mem: "all_slots as ! i \<in> set (all_slots as)" if "i < max_args" for i
    using that all_slots_length [OF assms(1)] by simp
  have "record_uses f2 ?p [0..<max_args] = Inr ?f3"
  proof (rule record_uses_spec [OF assms(3) l2 a2(1)])
    show "\<forall>i \<in> set [0..<max_args]. \<forall>d. ref_of (all_slots as ! i) = Some d \<longrightarrow>
        d \<in> hv_inst ` set (pool_values f2)"
      using all_slots_known(2) [OF assms(2) mem] assms(6) by fastforce
    show "\<forall>i \<in> set [0..<max_args]. all_slots as ! i \<noteq> ArgValue None \<and>
        all_slots as ! i \<noteq> ArgLambda (LambdaValue None)"
      using all_slots_known(1) [OF assms(2) mem] by simp
  qed (use all_slots_length [OF assms(1)] in simp)
  moreover have "\<exists>m. note_local ?f3 ?p = Inr (?f3\<lparr>max_local_id := m\<rparr>)"
    using l2 a2 by (intro note_local_spec [OF assms(1)]) (simp_all add: with_uses_def all_slots_def)
  ultimately show ?thesis by blast
qed

lemma AppendInst_spec:
  assumes inv: "fn_inv f" and cur: "current_block f = Some cur"
    and ty: "well_typed op as" and kn: "args_known f as"
    and room: "length (pool_values f) < 2 ^ 16" and oob: "\<forall>j. oob op j = ATVoid"
  shows "\<exists>f'. AppendInst oob f op as = Inr (f', length (insts f)) \<and> fn_inv f' \<and>
           current_block f' = Some cur \<and>
           map hv_inst (pool_values f') =
             map hv_inst (pool_values f) @ (if has_result op then [length (insts f)] else []) \<and>
           inst_list (block (pool_blocks f' ! cur)) =
             inst_list (block (pool_blocks f ! cur)) @ [length (insts f)] \<and>
           args_of (insts f') = args_of (insts f) @ [Some (all_slots as)] \<and>
           ops_of (insts f') = ops_of (insts f) @ [Some op]"
proof -
  let ?p = "length (insts f)"
  have us: "value_uses_ok f" and ids: "value_ids_ok f" and sl: "slots_ok (args_of (insts f))"
    and gi: "graph_inv f" using inv by (simp_all add: fn_inv_def value_inv_def)
  have curb: "cur < nblocks f" using gi cur by (simp add: graph_inv_def blocks_ok_def)
  obtain h where h: "Create (insts f) op as = Inr (?p, h)" "ops_of h = ops_of (insts f) @ [Some op]"
      "args_of h = args_of (insts f) @ [Some (all_slots as)]" "ids_of h = ids_of (insts f) @ [Some 0]"
      "length h = Suc ?p" "Validate oob h ?p = Inr ()"
    using Create_valid [OF ty kn, of oob] oob by blast
  let ?g = "block_update (\<lambda>_. (block (pool_blocks f ! cur))
              \<lparr>inst_list := inst_list (block (pool_blocks f ! cur)) @ [?p]\<rparr>)"
  let ?f1 = "f\<lparr>insts := h, pool_blocks := (pool_blocks f)[cur := ?g (pool_blocks f ! cur)]\<rparr>"
  have "graph_inv (f\<lparr>insts := h\<rparr>)" using gi by (simp only: graph_inv_irrelevant)
  from frame_update_inv [OF this, of ?g cur] have gi1: "graph_inv ?f1" by (simp add: frame_def)
  have ids1: "value_ids_ok ?f1"
    using ids h(4,5) unfolding value_ids_ok_def by (auto simp: nth_append simp del: ids_of_nth)
  obtain i where i: "h ! ?p = Some i" "op_code i = op"
    using ops_of_live [of ?p h op] h(2,5) by (auto simp: nth_append ir_simps simp del: ops_of_nth)
  have "op \<noteq> OpCOUNT" using ty by (auto simp: well_typed_def base_op_def)
  then have hv: "HasValue i = Inr (has_result op)"
    using i(2) GetIRMetaInfo_total [of op] by (simp add: HasValue_def has_result_def)
  have np: "?p \<notin> hv_inst ` set (pool_values f)" using inst_not_value [OF ids] by blast
  obtain f2 where f2: "(if has_result op then res_bind (create_value ?f1 ?p cur) (\<lambda>(f2, _). Inr f2)
        else Inr ?f1) = Inr f2"
      "value_ids_ok f2" "args_of (insts f2) = args_of (insts ?f1)" "ops_of (insts f2) = ops_of (insts ?f1)"
      "pool_values f2 = pool_values ?f1 @ (if has_result op then
         [\<lparr>hv_inst = ?p, hv_block = cur, hv_allocated = ANone, hv_uses = []\<rparr>] else [])"
      "f2 = ?f1\<lparr>insts := insts f2, value_order_id := value_order_id f2,
                 pool_values := pool_values f2, hvalues := hvalues f2\<rparr>"
    by (rule result_value_spec [OF ids1, of "has_result op" ?p i cur])
       (use room h(5) i(1) np in simp_all)
  let ?f3 = "with_uses f2 (new_uses (all_slots as) ?p [0..<max_args])"
  have ar2: "args_of (insts f2) = args_of (insts f) @ [Some (all_slots as)]" using f2(3) h(3) by simp
  have op2: "ops_of (insts f2) = ops_of (insts f) @ [Some op]" using f2(4) h(2) by simp
  obtain m where ru: "record_uses f2 ?p [0..<max_args] = Inr ?f3"
      and m: "note_local ?f3 ?p = Inr (?f3\<lparr>max_local_id := m\<rparr>)"
    using record_and_note [OF ty kn f2(2) ar2 op2] f2(5) by auto
  let ?f4 = "?f3\<lparr>max_local_id := m\<rparr>"
  have "AppendInst oob f op as = Inr (?f4, ?p)"
    using cur h(1,5,6) curb i(1) hv f2(1) ru m
    by (simp add: AppendInst_def AppendInst_ptr_def deref_current_def nblocks_def Block_AppendInst_def
        upd_block_def split del: if_split)
  moreover have "value_inv ?f4"
  proof -
    have "pool_values f2 = pool_values f @ (if has_result op then
         [\<lparr>hv_inst = ?p, hv_block = cur, hv_allocated = ANone, hv_uses = []\<rparr>] else [])"
      using f2(5) by simp
    from uses_after_append [OF us ids sl kn ty this ar2] have "value_uses_ok ?f3" .
    moreover have "value_ids_ok ?f3" using f2(2) by (simp only: with_uses_ids)
    ultimately show ?thesis by (simp only: value_inv_def max_local_irrelevant simp_thms)
  qed
  moreover have "graph_inv ?f4"
  proof -
    have "graph_inv f2" by (subst f2(6)) (simp only: graph_inv_irrelevant gi1)
    then show ?thesis by (simp only: with_uses_def graph_inv_irrelevant)
  qed
  moreover have "slots_ok (args_of (insts ?f4))"
    using sl ar2 all_slots_length [OF ty] by (auto simp: slots_ok_def with_uses_def)
  moreover have "current_block f2 = Some cur" "pool_blocks f2 = pool_blocks ?f1"
    using cur by (subst f2(6), simp)+
  ultimately show ?thesis
    using f2(5) ar2 op2 curb
    by (intro exI [of _ ?f4]) (simp add: fn_inv_def with_uses_def nblocks_def)
qed

section \<open>Renumbering\<close>

text \<open>The defining instructions of the listed values exist and are different.\<close>

definition defs_ok :: "HIRFunction \<Rightarrow> value_ptr list \<Rightarrow> bool" where
  "defs_ok f vs \<longleftrightarrow>
     (\<forall>v \<in> set vs. v < length (pool_values f) \<and> hv_inst (pool_values f ! v) < length (insts f) \<and>
        ids_of (insts f) ! hv_inst (pool_values f ! v) \<noteq> None) \<and>
     distinct (map (\<lambda>v. hv_inst (pool_values f ! v)) vs)"

lemma SetId_ids:
  assumes "p < length h" and "ids_of h ! p \<noteq> None"
  shows "\<exists>h'. SetId h p k = Inr h' \<and> ids_of h' = (ids_of h)[p := Some k]"
  using assms by (auto simp: SetId_def inst_upd_def ids_of_update)

lemma renumber_spec:
  assumes "defs_ok f vs"
  shows "\<exists>h. renumber f cur vs = Inr (f\<lparr>insts := h\<rparr>, cur + of_nat (length vs)) \<and>
             length h = length (insts f) \<and>
             (\<forall>j < length vs. ids_of h ! hv_inst (pool_values f ! (vs ! j)) = Some (ucast (cur + of_nat j))) \<and>
             (\<forall>p < length h. p \<notin> (\<lambda>v. hv_inst (pool_values f ! v)) ` set vs \<longrightarrow> ids_of h ! p = ids_of (insts f) ! p)"
  using assms
proof (induction vs arbitrary: f cur)
  case Nil
  have "f\<lparr>insts := insts f\<rparr> = f" by simp
  then show ?case by (intro exI [of _ "insts f"]) simp
next
  case (Cons v vs)
  let ?p = "hv_inst (pool_values f ! v)"
  obtain h1 where h1: "SetId (insts f) ?p (ucast cur) = Inr h1" "ids_of h1 = (ids_of (insts f))[?p := Some (ucast cur)]"
    using SetId_ids [of ?p "insts f" "ucast cur"] Cons.prems by (auto simp: defs_ok_def simp del: ids_of_nth)
  let ?f1 = "f\<lparr>insts := h1\<rparr>"
  have l1: "length h1 = length (insts f)" using h1(2) by (metis length_ids_of length_list_update)
  have "defs_ok ?f1 vs"
    using Cons.prems l1 h1(2) by (auto simp: defs_ok_def nth_list_update simp del: ids_of_nth)
  from Cons.IH [OF this, of "cur + 1"] obtain h where
    h: "renumber ?f1 (cur + 1) vs = Inr (?f1\<lparr>insts := h\<rparr>, cur + 1 + of_nat (length vs))"
      "length h = length h1"
      "\<forall>j < length vs. ids_of h ! hv_inst (pool_values f ! (vs ! j)) = Some (ucast (cur + 1 + of_nat j))"
      "\<forall>p < length h. p \<notin> (\<lambda>v. hv_inst (pool_values f ! v)) ` set vs \<longrightarrow> ids_of h ! p = ids_of h1 ! p"
    by auto
  have pv: "?p \<notin> (\<lambda>v. hv_inst (pool_values f ! v)) ` set vs" "?p < length (insts f)"
      "v < length (pool_values f)"
    using Cons.prems by (auto simp: defs_ok_def)
  have first: "ids_of h ! ?p = Some (ucast cur)" using h(2,4) pv l1 h1(2) by (simp del: ids_of_nth)
  have "\<forall>j < length (v # vs). ids_of h ! hv_inst (pool_values f ! ((v # vs) ! j)) = Some (ucast (cur + of_nat j))"
  proof (intro allI impI)
    fix j assume "j < length (v # vs)"
    then show "ids_of h ! hv_inst (pool_values f ! ((v # vs) ! j)) = Some (ucast (cur + of_nat j))"
      using first h(3) by (cases j) (simp_all add: add.assoc del: ids_of_nth)
  qed
  then show ?case
    using h h1 pv l1 by (intro exI [of _ h]) (auto simp: add.assoc simp del: ids_of_nth)
qed

lemma renumber_defs_ok:
  assumes "defs_ok f vs" and "renumber f cur vs = Inr (f\<lparr>insts := h\<rparr>, cur')"
    and "length h = length (insts f)"
    and "\<forall>j < length vs. ids_of h ! hv_inst (pool_values f ! (vs ! j)) = Some (g j)"
  shows "defs_ok (f\<lparr>insts := h\<rparr>) vs"
  using assms unfolding defs_ok_def by (auto simp: in_set_conv_nth simp del: ids_of_nth)

lemma id_by_rpo_loop_spec:
  assumes "defs_ok f (hvalues f)" and "bs \<noteq> []"
  shows "\<exists>h. id_by_rpo_loop f cur bs = Inr (f\<lparr>insts := h\<rparr>) \<and> length h = length (insts f) \<and>
             (\<forall>j < length (hvalues f). ids_of h ! hv_inst (pool_values f ! (hvalues f ! j)) =
                Some (ucast (cur + of_nat ((length bs - 1) * length (hvalues f) + j))))"
  using assms
proof (induction bs arbitrary: f cur)
  case (Cons b bs)
  from renumber_spec [OF Cons.prems(1), of cur] obtain h where
    h: "renumber f cur (hvalues f) = Inr (f\<lparr>insts := h\<rparr>, cur + of_nat (length (hvalues f)))"
      "length h = length (insts f)"
      "\<forall>j < length (hvalues f). ids_of h ! hv_inst (pool_values f ! (hvalues f ! j)) = Some (ucast (cur + of_nat j))"
    by blast
  show ?case
  proof (cases "bs = []")
    case True
    then show ?thesis using h by auto
  next
    case False
    have "defs_ok (f\<lparr>insts := h\<rparr>) (hvalues f)" by (rule renumber_defs_ok [OF Cons.prems(1) h])
    then have ok: "defs_ok (f\<lparr>insts := h\<rparr>) (hvalues (f\<lparr>insts := h\<rparr>))" by simp
    obtain m where m: "length bs = Suc m" using False by (cases bs) auto
    from Cons.IH [OF ok False, of "cur + of_nat (length (hvalues f))"] show ?thesis
      using h m by (auto simp: algebra_simps)
  qed
qed simp

lemma ucast_of_nat_16: "(ucast (of_nat m :: u32) :: u16) = of_nat m"
  by (rule bit_word_eqI) (simp add: bit_simps)

lemma IdByRPO_ids:
  assumes "value_ids_ok f" and "blocks_rpo f \<noteq> []"
  shows "\<exists>f'. IdByRPO f = Inr f' \<and> hvalues f' = hvalues f \<and> pool_values f' = pool_values f \<and>
           (\<forall>j < length (hvalues f). value_id f' (hvalues f ! j) =
              Inr (of_nat ((length (blocks_rpo f) - 1) * length (hvalues f) + j)))"
proof -
  have hv: "hvalues f = rev [0..<length (pool_values f)]" using assms(1) by (simp add: value_ids_ok_def)
  have "distinct (map (\<lambda>v. hv_inst (pool_values f ! v)) (hvalues f))"
    unfolding distinct_map hv using hv_inst_inj [OF assms(1)] by (auto simp: inj_on_def)
  then have "defs_ok f (hvalues f)"
    using assms(1) hv unfolding defs_ok_def value_ids_ok_def by (auto simp del: ids_of_nth)
  from id_by_rpo_loop_spec [OF this assms(2), of 0] obtain h where
    h: "id_by_rpo_loop f 0 (blocks_rpo f) = Inr (f\<lparr>insts := h\<rparr>)" "length h = length (insts f)"
      "\<forall>j < length (hvalues f). ids_of h ! hv_inst (pool_values f ! (hvalues f ! j)) =
         Some (ucast (of_nat ((length (blocks_rpo f) - 1) * length (hvalues f) + j) :: u32))"
    by auto
  have "value_id (f\<lparr>insts := h\<rparr>) (hvalues f ! j) =
      Inr (of_nat ((length (blocks_rpo f) - 1) * length (hvalues f) + j))" if j: "j < length (hvalues f)" for j
  proof -
    have v: "hvalues f ! j < length (pool_values f)"
      using j hv nth_mem [OF j] by auto
    then have "hv_inst (pool_values f ! (hvalues f ! j)) < length h"
      using assms(1) h(2) unfolding value_ids_ok_def by metis
    moreover have "ids_of h ! hv_inst (pool_values f ! (hvalues f ! j)) =
        Some (of_nat ((length (blocks_rpo f) - 1) * length (hvalues f) + j))"
      using h(3) j unfolding ucast_of_nat_16 by blast
    ultimately show ?thesis using ids_live v by (fastforce simp: value_id_def simp del: ids_of_nth)
  qed
  then show ?thesis using h(1) by (intro exI [of _ "f\<lparr>insts := h\<rparr>"]) (simp add: IdByRPO_def)
qed

section \<open>Properties of the values\<close>


lemma new_HIRFunction_fn_inv: "new_HIRFunction start e = Inr f \<Longrightarrow> fn_inv f \<and> args_known f [] \<and>
    args_known f [InArg (ArgImm i)] \<and> pool_values f = [] \<and> insts f = []"
proof -
  assume f: "new_HIRFunction start e = Inr f"
  have "insts f = [] \<and> pool_values f = [] \<and> hvalues f = [] \<and> value_order_id f = 0"
    using f by (auto simp: new_HIRFunction_def AppendBlock_def CreateOrGetBlock_def upd_block_def Let_def)
  moreover have "graph_inv f" using f new_HIRFunction_spec [of start e] by (auto simp: build_inv_def)
  ultimately show ?thesis
    by (simp add: fn_inv_def value_inv_def value_ids_ok_def value_uses_ok_def slots_ok_def args_of_def
        args_known_def)
qed


text \<open>
  C16: \<open>AppendPhi\<close> never succeeds: it appends an \<open>AddPhi\<close> without arguments, for which the meta
  table declares four values, so the validation of the instruction fails.
\<close>

theorem AppendPhi_always_fails:
  assumes "b < nblocks f"
  shows "AppendPhi oob f b = Inl AssertFailed"
proof -
  let ?h = "insts f @ [Some (Inst OpAddPhi)]"
  have c: "Create (insts f) OpAddPhi [] = Inr (length (insts f), ?h)"
    by (simp add: Create_def SetArgs_def Let_def)
  have at: "inst_at ?h (length (insts f)) = Inr (Inst OpAddPhi)" by (simp add: inst_at_def)
  have m: "GetIRMetaInfo OpAddPhi = Inr (meta OpAddPhi ''AddPhi'' ATValue [ATValue, ATValue, ATValue, ATValue])"
    by (simp add: GetIRMetaInfo_def ir_meta_infos_def)
  have "Validate oob ?h (length (insts f)) = Inl AssertFailed"
    unfolding Validate_def at
    by (simp add: m Inst_def max_args_def validate_loop.simps [of _ _ _ 0] arg_type_read_def meta_def Let_def)
  then show ?thesis
    using assms c by (simp add: AppendPhi_def nblocks_def Block_AppendInst_def)
qed

theorem AppendPhi_always_fails_witness:
  "\<exists>f. new_HIRFunction 0 0 = Inr f \<and> AppendPhi (\<lambda>_ _. ATVoid) f 0 = Inl AssertFailed"
  using new_HIRFunction_spec [of 0 0] AppendPhi_always_fails [of 0 _ "\<lambda>_ _. ATVoid"] by fastforce

text \<open>
  C17: \<open>IdByRPO\<close> leaves the map of values in the wrong order.  Before, the traversal of the map
  meets the ids in descending order, the order by which the map searches; afterwards it meets
  them in ascending order, because the values are renumbered along the traversal itself while
  they stay where they are in the map.
\<close>

theorem IdByRPO_reverses_map_order:
  assumes "value_ids_ok f" and "blocks_rpo f \<noteq> []"
    and "length (blocks_rpo f) * length (hvalues f) \<le> 2 ^ 16" and "i < j" and "j < length (hvalues f)"
  shows "\<exists>f' a b c d. IdByRPO f = Inr f' \<and> hvalues f' = hvalues f \<and>
           value_id f (hvalues f ! i) = Inr a \<and> value_id f (hvalues f ! j) = Inr b \<and> b < a \<and>
           value_id f' (hvalues f' ! i) = Inr c \<and> value_id f' (hvalues f' ! j) = Inr d \<and> c < d"
proof -
  let ?n = "length (hvalues f)" and ?m = "(length (blocks_rpo f) - 1) * length (hvalues f)"
  have hv: "hvalues f = rev [0..<length (pool_values f)]" and le: "length (pool_values f) \<le> 2 ^ 16"
    using assms(1) by (simp_all add: value_ids_ok_def)
  have n: "?n = length (pool_values f)" using arg_cong [OF hv, of length] by simp
  obtain f' where f': "IdByRPO f = Inr f'" "hvalues f' = hvalues f"
      "\<forall>j < ?n. value_id f' (hvalues f ! j) = Inr (of_nat (?m + j))"
    using IdByRPO_ids [OF assms(1,2)] by blast
  have nth: "hvalues f ! k = ?n - 1 - k" if "k < ?n" for k
    using that n by (subst hv) (simp add: rev_nth)
  have less: "(of_nat x :: u16) < of_nat y" if "x < y" "y < 2 ^ 16" for x y
    using that unfolding word_less_nat_alt by (subst (1 2) unat_of_nat_small) simp_all
  have "?m + ?n = length (blocks_rpo f) * ?n"
    using assms(2) by (cases "blocks_rpo f") (simp_all add: algebra_simps)
  then have "?m + j < 2 ^ 16" using assms(3,5) by linarith
  then have "(of_nat (?m + i) :: u16) < of_nat (?m + j)" using assms(4) by (intro less) simp_all
  moreover have "(of_nat (?n - 1 - j) :: u16) < of_nat (?n - 1 - i)"
    using assms(4,5) le n by (intro less) simp_all
  moreover have "value_id f (hvalues f ! k) = Inr (of_nat (?n - 1 - k))" if "k < ?n" for k
    using value_id_of [OF assms(1), of "hvalues f ! k"] nth [OF that] that n by simp
  ultimately show ?thesis
    using f' assms(4,5)
    by (intro exI [of _ f'] exI [of _ "of_nat (?n - 1 - i)"] exI [of _ "of_nat (?n - 1 - j)"]
        exI [of _ "of_nat (?m + i)"] exI [of _ "of_nat (?m + j)"]) (simp del: of_nat_add)
qed

definition two_values :: "HIRFunction result" where
  "two_values = res_bind (new_HIRFunction 0 0) (\<lambda>f.
     res_bind (AppendInst (\<lambda>_ _. ATVoid) f OpLoadImm [InArg (ArgImm (ImmU8 5))]) (\<lambda>(f1, p).
     res_bind (AppendInst (\<lambda>_ _. ATVoid) f1 OpLoadImm [InArg (ArgImm (ImmU8 6))]) (\<lambda>(f2, q).
       Inr (f2\<lparr>blocks_rpo := [0]\<rparr>))))"

theorem IdByRPO_reverses_map_order_witness:
  "\<exists>f f' c d. two_values = Inr f \<and> IdByRPO f = Inr f' \<and>
     value_id f' (hvalues f' ! 0) = Inr c \<and> value_id f' (hvalues f' ! 1) = Inr d \<and> c < d"
proof -
  have t: "case two_values of Inl _ \<Rightarrow> False | Inr f \<Rightarrow> value_order_id f = of_nat (length (pool_values f)) \<and>
      hvalues f = rev [0..<length (pool_values f)] \<and> length (pool_values f) = 2 \<and> blocks_rpo f = [0] \<and>
      hv_inst (pool_values f ! 0) = 0 \<and> hv_inst (pool_values f ! 1) = 1 \<and> length (insts f) = 2 \<and>
      ids_of (insts f) = [Some 0, Some 1]" by code_simp
  then obtain f where f: "two_values = Inr f" by (auto split: sum.splits)
  note t' = t [unfolded f, simplified]
  have "value_ids_ok f" using t' unfolding value_ids_ok_def by (auto simp: less_2_cases_iff)
  moreover have "length (hvalues f) = 2" "blocks_rpo f = [0]" using t' by auto
  ultimately show ?thesis using IdByRPO_reverses_map_order [of f 0 1] f by fastforce
qed

end
