(* ===== verification/Local_Elimination.thy ===== *)
theory Local_Elimination
  imports HIR_Values
begin

text \<open>
  The elimination of loads of local variables, \<^verbatim>\<open>runtime/ir/opts/local_elimination_pass.cpp\<close>: the pass follows
  the stores to each local variable; a load in the block in which the stored value is defined is
  replaced by that value in all its uses.
\<close>

section \<open>The pass\<close>

text \<open>\<open>current_locals\<close>: the value last stored to each local variable, null if there is none.\<close>

type_synonym locals = "value_ptr option list"

text \<open>The uses of the load: slots that hold a value or an address.\<close>

fun redirect_uses :: "inst_heap \<Rightarrow> HIRUse list \<Rightarrow> ir_value \<Rightarrow> inst_heap result" where
  "redirect_uses h [] v = Inr h"
| "redirect_uses h (u # us) v =
     res_bind (ArgAt h (use_inst u) (unat (use_arg_idx u))) (\<lambda>a.
     res_bind (if IsValue a then SetArg h (use_inst u) (unat (use_arg_idx u)) (ArgValue v)
               else if IsLambda a then SetArg h (use_inst u) (unat (use_arg_idx u)) (ArgLambda (LambdaValue v))
               else Inr h) (\<lambda>h1.
       redirect_uses h1 us v))"

definition eliminate_load :: "HIRFunction \<Rightarrow> locals \<Rightarrow> block_ptr \<Rightarrow> inst_ptr \<Rightarrow> HIRFunction result" where
  "eliminate_load f cur b p =
     res_bind (GetArg_Local (insts f) p 0) (\<lambda>l.
     res_bind (vec_at cur (unat (local_id l))) (\<lambda>local_value.
     case local_value of
       None \<Rightarrow> Inr f
     | Some lv \<Rightarrow>
         res_bind (vec_at (pool_values f) lv) (\<lambda>w.
         if hv_block w = b then
           res_bind (GetHIRValue f (Some p)) (\<lambda>hir_value.
           case hir_value of
             None \<Rightarrow> Inr f
           | Some x \<Rightarrow>
               res_bind (vec_at (pool_values f) x) (\<lambda>xv.
               res_bind (redirect_uses (insts f) (hv_uses xv) (Some (hv_inst w))) (\<lambda>h.
                 Inr (DestroyHIRValue (f\<lparr>insts := h\<rparr>) x))))
         else Inr f)))"

definition follow_store :: "HIRFunction \<Rightarrow> locals \<Rightarrow> inst_ptr \<Rightarrow> locals result" where
  "follow_store f cur p =
     res_bind (GetArg_Local (insts f) p 0) (\<lambda>l.
     res_bind (GetArg_Value (insts f) p 1) (\<lambda>v.
     res_bind (GetHIRValue f v) (\<lambda>hv.
       vec_set cur (unat (local_id l)) hv)))"

fun eliminate_insts :: "HIRFunction \<Rightarrow> locals \<Rightarrow> block_ptr \<Rightarrow> inst_ptr list \<Rightarrow> (HIRFunction \<times> locals) result" where
  "eliminate_insts f cur b [] = Inr (f, cur)"
| "eliminate_insts f cur b (p # ps) =
     res_bind (inst_at (insts f) p) (\<lambda>i.
     if op_code i = OpLoadLocal then
       res_bind (eliminate_load f cur b p) (\<lambda>f1. eliminate_insts f1 cur b ps)
     else if op_code i = OpStoreLocal then
       res_bind (follow_store f cur p) (\<lambda>cur1. eliminate_insts f cur1 b ps)
     else eliminate_insts f cur b ps)"

fun eliminate_blocks :: "HIRFunction \<Rightarrow> locals \<Rightarrow> block_ptr option list \<Rightarrow> HIRFunction result" where
  "eliminate_blocks f cur [] = Inr f"
| "eliminate_blocks f cur (None # bs) = Inl NullDeref"
| "eliminate_blocks f cur (Some b # bs) =
     res_bind (vec_at (pool_blocks f) b) (\<lambda>hb.
     res_bind (eliminate_insts f cur b (inst_list (block hb))) (\<lambda>(f1, cur1).
       eliminate_blocks f1 cur1 bs))"

definition LocalElimination_Run :: "HIRFunction \<Rightarrow> HIRFunction result" where
  "LocalElimination_Run f = eliminate_blocks f (replicate (unat (MaxLocalId f) + 1) None) (blocks f)"

fun LocalElimination_functions :: "HIRFunction list \<Rightarrow> HIRFunction list result" where
  "LocalElimination_functions [] = Inr []"
| "LocalElimination_functions (f # fs) =
     res_bind (LocalElimination_Run f) (\<lambda>f1. res_bind (LocalElimination_functions fs) (\<lambda>fs1. Inr (f1 # fs1)))"

definition LocalElimination_Run_builder :: "HIRBuilder \<Rightarrow> HIRBuilder result" where
  "LocalElimination_Run_builder B =
     res_bind (LocalElimination_functions (hir_functions B)) (\<lambda>fs. Inr (B\<lparr>hir_functions := fs\<rparr>))"

section \<open>Redirecting uses\<close>

text \<open>What becomes of an argument when the uses of \<open>d\<close> are redirected to \<open>v\<close>.\<close>

fun redirect :: "inst_ptr \<Rightarrow> inst_ptr \<Rightarrow> Arg \<Rightarrow> Arg" where
  "redirect d v (ArgValue r) = ArgValue (if r = Some d then Some v else r)"
| "redirect d v (ArgLambda (LambdaValue r)) = ArgLambda (LambdaValue (if r = Some d then Some v else r))"
| "redirect d v a = a"

lemma redirect_other: "ref_of a \<noteq> Some d \<Longrightarrow> redirect d v a = a"
  by (induction d v a rule: redirect.induct) auto

lemma redirect_kind:
  assumes "ref_of a = Some d"
  shows "(if IsValue a then ArgValue (Some v) else ArgLambda (LambdaValue (Some v))) = redirect d v a"
    and "IsValue a \<or> IsLambda a"
  using assms by (induction d v a rule: redirect.induct) (auto simp: IsValue_def IsLambda_def)

lemma UnUse_total:
  assumes "this < length h" and "ops_of h ! this = Some op" and "\<not> is_pseudo_op op" and "live (ops_of h) v"
  shows "\<exists>h'. UnUse h this v = Inr h'"
proof -
  from assms(4) obtain d i where d: "v = Some d" "d < length h" "h ! d = Some i" by (auto simp: live_def)
  from assms(1,2) obtain j where j: "h ! this = Some j" "op_code j = op" by auto
  let ?h = "h[d := Some (num_use_update (\<lambda>n. n - 1) i)]"
  have u: "inst_upd h d (num_use_update (\<lambda>n. n - 1)) = Inr ?h" using d by (auto simp: ir_simps)
  obtain k where "inst_at ?h this = Inr k" "op_code k = op"
    using j d assms(1) by (cases "d = this") (auto simp: ir_simps)
  then show ?thesis using u d(1) assms(3) by (simp add: UnUse_def IsPseudoOperation_op)
qed

text \<open>Replacing a reference by a reference succeeds and changes nothing but that slot.\<close>

lemma SetArg_replace:
  assumes "this < length h" and "ops_of h ! this = Some op" and "\<not> is_pseudo_op op"
    and "args_of h ! this = Some as" and "i < length as" and "ref_of (as ! i) = Some d" and "live (ops_of h) (Some d)"
    and "live (ops_of h) (Some v)" and "a = ArgValue (Some v) \<or> a = ArgLambda (LambdaValue (Some v))"
  shows "\<exists>h'. SetArg h this i a = Inr h' \<and> ops_of h' = ops_of h \<and> args_of h' = (args_of h)[this := Some (as[i := a])]"
proof -
  obtain h1 where u: "UnUse h this (Some d) = Inr h1" using UnUse_total [OF assms(1-3,7)] by blast
  have 1: "ops_of h1 = ops_of h" "args_of h1 = args_of h" using UnUse_ops [OF u] UnUse_counts [OF u] by simp_all
  have len: "length h1 = length h" using 1(2) by (metis length_args_of)
  obtain c where c: "h ! this = Some c" "arguments c = as" using assms(1,4) by auto
  have D: "DestroyArg h this i = Inr h1"
    using u assms(1,5,6) c by (cases "as ! i"; cases "case as ! i of ArgLambda l \<Rightarrow> l | _ \<Rightarrow> LambdaVoid")
      (auto simp: DestroyArg_def ArgAt_def IsValue_def IsLambda_def Get_Value_def Get_Lambda_def
        lambda_IsValue_def lambda_GetValue_def)
  have "args_of h1 ! this = Some as" using 1(2) assms(4) by simp
  then obtain c1 where c1: "h1 ! this = Some c1" "arguments c1 = as" using assms(1) len by auto
  let ?h = "h1[this := Some (c1\<lparr>arguments := as[i := a]\<rparr>)]"
  have P: "put_arg h1 this i a = Inr ?h" using assms(1,5) c1 len by (simp add: put_arg_def)
  have O: "ops_of ?h = ops_of h" using c1 assms(1) len 1(1) by (simp add: ops_of_update list_update_same_conv flip: 1(1))
  obtain h2 where U: "Use ?h this (Some v) = Inr h2"
    using Use_total [of this ?h op "Some v"] assms(1,2,3,8) O len by auto
  then have "SetArg h this i a = Inr h2"
    using D P assms(9) by (auto simp: SetArg_def lambda_IsValue_def lambda_GetValue_def)
  moreover have "ops_of h2 = ops_of h" using Use_ops [OF U] O by simp
  ultimately show ?thesis using SetArg_counts assms(4) by fastforce
qed


definition slot_of :: "HIRUse \<Rightarrow> inst_ptr \<times> nat" where
  "slot_of u = (use_inst u, unat (use_arg_idx u))"

definition redirect_slots :: "(inst_ptr \<times> nat) set \<Rightarrow> inst_ptr \<Rightarrow> inst_ptr \<Rightarrow> inst_ptr \<Rightarrow> Arg list \<Rightarrow> Arg list" where
  "redirect_slots S d v p as = map (\<lambda>i. if (p, i) \<in> S then redirect d v (as ! i) else as ! i) [0..<length as]"

lemma redirect_slots_insert:
  assumes "i < length as" and "(p, i) \<notin> S"
  shows "redirect_slots S d v p (as[i := redirect d v (as ! i)]) = redirect_slots (insert (p, i) S) d v p as"
  by (rule nth_equalityI) (use assms in \<open>auto simp: redirect_slots_def nth_list_update\<close>)

lemma redirect_slots_elsewhere: "p \<noteq> q \<Longrightarrow> redirect_slots (insert (q, i) S) d v p = redirect_slots S d v p"
  by (rule ext) (simp add: redirect_slots_def)

lemma redirect_uses_spec:
  assumes "\<forall>u\<in>set us. use_inst u < length h \<and> (\<exists>op. ops_of h ! use_inst u = Some op \<and> \<not> is_pseudo_op op) \<and>
      (\<exists>as. args_of h ! use_inst u = Some as \<and> unat (use_arg_idx u) < length as \<and> ref_of (as ! unat (use_arg_idx u)) = Some d)"
    and "distinct (map slot_of us)" and "live (ops_of h) (Some d)" and "live (ops_of h) (Some v)"
  shows "\<exists>h'. redirect_uses h us (Some v) = Inr h' \<and> ops_of h' = ops_of h \<and>
           (\<forall>p<length h. args_of h' ! p = map_option (redirect_slots (slot_of ` set us) d v p) (args_of h ! p))"
  using assms
proof (induction us arbitrary: h)
  case Nil
  have "redirect_slots {} d v p as = as" for p as by (simp add: redirect_slots_def map_nth)
  then show ?case by (auto simp: map_option_case split: option.splits)
next
  case (Cons u us)
  let ?p = "use_inst u" and ?i = "unat (use_arg_idx u)"
  obtain op as where u: "?p < length h" "ops_of h ! ?p = Some op" "\<not> is_pseudo_op op" "args_of h ! ?p = Some as"
    "?i < length as" "ref_of (as ! ?i) = Some d" using Cons.prems(1) by auto
  let ?a = "redirect d v (as ! ?i)"
  have "?a = ArgValue (Some v) \<or> ?a = ArgLambda (LambdaValue (Some v))"
    using redirect_kind(1) [OF u(6), of v] by (auto split: if_splits)
  then obtain h1 where h1: "SetArg h ?p ?i ?a = Inr h1" "ops_of h1 = ops_of h" "args_of h1 = (args_of h)[?p := Some (as[?i := ?a])]"
    using SetArg_replace [OF u Cons.prems(3,4)] by blast
  have len: "length h1 = length h" using h1(3) by (metis length_args_of length_list_update)
  obtain c where "h ! ?p = Some c" "arguments c = as" using u(1,4) by auto
  then have "ArgAt h ?p ?i = Inr (as ! ?i)" using u(1,5) by (simp add: ArgAt_def)
  then have step: "redirect_uses h (u # us) (Some v) = redirect_uses h1 us (Some v)"
    using h1(1) redirect_kind(1) [OF u(6), of v] redirect_kind(2) [OF u(6)] by (auto split: if_splits)
  have fresh: "slot_of u \<notin> slot_of ` set us" using Cons.prems(2) by auto
  have "\<forall>w\<in>set us. use_inst w < length h1 \<and> (\<exists>op. ops_of h1 ! use_inst w = Some op \<and> \<not> is_pseudo_op op) \<and>
      (\<exists>bs. args_of h1 ! use_inst w = Some bs \<and> unat (use_arg_idx w) < length bs \<and> ref_of (bs ! unat (use_arg_idx w)) = Some d)"
  proof
    fix w assume w: "w \<in> set us"
    then have ne: "slot_of w \<noteq> slot_of u" using fresh by (metis imageI)
    obtain bs op' where bs: "args_of h ! use_inst w = Some bs" "unat (use_arg_idx w) < length bs"
      "ref_of (bs ! unat (use_arg_idx w)) = Some d" "use_inst w < length h" "ops_of h ! use_inst w = Some op'" "\<not> is_pseudo_op op'"
      using Cons.prems(1) w by (meson list.set_intros(2))
    have "\<exists>bs. args_of h1 ! use_inst w = Some bs \<and> unat (use_arg_idx w) < length bs \<and> ref_of (bs ! unat (use_arg_idx w)) = Some d"
      using bs ne u(1,4) h1(3) by (cases "use_inst w = ?p") (auto simp: slot_of_def nth_list_update)
    then show "use_inst w < length h1 \<and> (\<exists>op. ops_of h1 ! use_inst w = Some op \<and> \<not> is_pseudo_op op) \<and>
      (\<exists>bs. args_of h1 ! use_inst w = Some bs \<and> unat (use_arg_idx w) < length bs \<and> ref_of (bs ! unat (use_arg_idx w)) = Some d)"
      unfolding len h1(2) using bs(4-6) by blast
  qed
  from Cons.IH [OF this _ Cons.prems(3,4) [folded h1(2)]] Cons.prems(2)
  obtain h' where h': "redirect_uses h1 us (Some v) = Inr h'" "ops_of h' = ops_of h"
    "\<forall>p<length h1. args_of h' ! p = map_option (redirect_slots (slot_of ` set us) d v p) (args_of h1 ! p)"
    unfolding h1(2) by (metis distinct.simps(2) list.simps(9))
  have "args_of h' ! p = map_option (redirect_slots (slot_of ` set (u # us)) d v p) (args_of h ! p)" if "p < length h" for p
  proof (cases "p = ?p")
    case True
    then show ?thesis
      using h'(3) that len h1(3) u(1,4) redirect_slots_insert [OF u(5), of ?p "slot_of ` set us" d v] fresh
      by (auto simp: slot_of_def)
  next
    case False
    then show ?thesis using h'(3) that len h1(3) redirect_slots_elsewhere [OF False] by (simp add: slot_of_def)
  qed
  then show ?case using step h' by auto
qed

lemma all_uses_slots:
  assumes "\<forall>as. Some as \<in> set A \<longrightarrow> length as = max_args"
  shows "u \<in> set (all_uses A d) \<longleftrightarrow> (\<exists>p<length A. \<exists>as i. A ! p = Some as \<and> i < length as \<and> ref_of (as ! i) = Some d \<and>
    u = \<lparr>use_inst = p, use_arg_idx = of_nat i\<rparr>)"
proof -
  have len: "A ! p = Some as \<Longrightarrow> p < length A \<Longrightarrow> length as = max_args" for p as using assms by (metis nth_mem)
  have "u \<in> set (all_uses A d) \<longleftrightarrow> (\<exists>p<length A. \<exists>as. A ! p = Some as \<and> u \<in> set (new_uses as p [0..<max_args] d))"
    by (force simp: all_uses_def split: option.splits)
  also have "\<dots> \<longleftrightarrow> (\<exists>p<length A. \<exists>as. A ! p = Some as \<and> (\<exists>i<length as. ref_of (as ! i) = Some d \<and>
      u = \<lparr>use_inst = p, use_arg_idx = of_nat i\<rparr>))"
    using len by (intro ex_cong1 conj_cong refl) (auto simp: new_uses_def)
  finally show ?thesis by blast
qed

lemma small_arg_index: "i < max_args \<Longrightarrow> unat (of_nat i :: u8) = i"
  by (intro unat_of_nat_small) (simp add: max_args_def)

lemma all_uses_distinct: "distinct (map slot_of (all_uses A d))"
proof -
  have same: "(of_nat i :: u8) = of_nat j \<longleftrightarrow> i = j" if "i < max_args" "j < max_args" for i j
    using that by (intro of_nat_eq_small) (simp_all add: max_args_def)
  define g where "g = (\<lambda>p. case A ! p of None \<Rightarrow> [] | Some as \<Rightarrow> new_uses as p [0..<max_args] d)"
  have g: "distinct (map slot_of (g p)) \<and> fst ` set (map slot_of (g p)) \<subseteq> {p}" for p
    by (auto simp: g_def new_uses_def slot_of_def distinct_map comp_def inj_on_def small_arg_index same split: option.splits)
  have "distinct (map slot_of (concat (map g ps)))" if "distinct ps" for ps
    using that
  proof (induction ps)
    case (Cons q ps)
    have "set (map slot_of (g q)) \<inter> set (map slot_of (concat (map g ps))) = {}"
    proof (intro equals0I)
      fix x assume x: "x \<in> set (map slot_of (g q)) \<inter> set (map slot_of (concat (map g ps)))"
      then obtain r where "r \<in> set ps" "x \<in> set (map slot_of (g r))" by auto
      then have "fst x = r" "fst x = q" using x g [of r] g [of q] by blast+
      then show False using Cons.prems \<open>r \<in> set ps\<close> by simp
    qed
    then show ?case using Cons g [of q] by simp
  qed simp
  then show ?thesis by (simp add: all_uses_def g_def)
qed


text \<open>Redirecting the recorded uses redirects every reference.\<close>

lemma all_uses_slot_iff:
  assumes "slots_ok A" and "p < length A" and "A ! p = Some as" and "i < length as"
  shows "(p, i) \<in> slot_of ` set (all_uses A d) \<longleftrightarrow> ref_of (as ! i) = Some d"
proof -
  have len: "\<forall>as. Some as \<in> set A \<longrightarrow> length as = max_args" using assms(1) by (auto simp: slots_ok_def)
  show ?thesis
  proof
    assume "(p, i) \<in> slot_of ` set (all_uses A d)"
    then obtain w where w: "w \<in> set (all_uses A d)" "slot_of w = (p, i)" by (metis imageE)
    then obtain q bs j where q: "q < length A" "A ! q = Some bs" "j < length bs" "ref_of (bs ! j) = Some d"
      "w = \<lparr>use_inst = q, use_arg_idx = of_nat j\<rparr>" unfolding all_uses_slots [OF len] by blast
    have "length bs = max_args" using len q(1,2) by (metis nth_mem)
    then have "q = p" "j = i" using q(3,5) w(2) small_arg_index by (simp_all add: slot_of_def)
    then show "ref_of (as ! i) = Some d" using q(2,4) assms(3) by simp
  next
    assume "ref_of (as ! i) = Some d"
    then have "\<lparr>use_inst = p, use_arg_idx = of_nat i\<rparr> \<in> set (all_uses A d)"
      using assms(2-4) unfolding all_uses_slots [OF len] by blast
    moreover have "length as = max_args" using len assms(2,3) by (metis nth_mem)
    then have "slot_of \<lparr>use_inst = p, use_arg_idx = of_nat i\<rparr> = (p, i)"
      using assms(4) by (simp add: slot_of_def small_arg_index)
    ultimately show "(p, i) \<in> slot_of ` set (all_uses A d)" by (metis imageI)
  qed
qed

lemma redirect_all_uses:
  assumes "slots_ok (args_of h)" and "live (ops_of h) (Some d)" and "live (ops_of h) (Some v)"
    and "\<forall>p<length h. \<forall>as. args_of h ! p = Some as \<longrightarrow> (\<exists>a\<in>set as. ref_of a = Some d) \<longrightarrow>
           (\<exists>op. ops_of h ! p = Some op \<and> \<not> is_pseudo_op op)"
  shows "\<exists>h'. redirect_uses h (all_uses (args_of h) d) (Some v) = Inr h' \<and>
           args_of h' = map (map_option (map (redirect d v))) (args_of h) \<and> ops_of h' = ops_of h"
proof -
  let ?A = "args_of h" and ?us = "all_uses (args_of h) d"
  have len: "\<forall>as. Some as \<in> set ?A \<longrightarrow> length as = max_args" using assms(1) by (auto simp: slots_ok_def)
  have pre: "\<forall>u\<in>set ?us. use_inst u < length h \<and> (\<exists>op. ops_of h ! use_inst u = Some op \<and> \<not> is_pseudo_op op) \<and>
      (\<exists>as. ?A ! use_inst u = Some as \<and> unat (use_arg_idx u) < length as \<and> ref_of (as ! unat (use_arg_idx u)) = Some d)"
  proof
    fix u assume "u \<in> set ?us"
    then obtain p as i where u: "p < length h" "?A ! p = Some as" "i < length as" "ref_of (as ! i) = Some d"
      "u = \<lparr>use_inst = p, use_arg_idx = of_nat i\<rparr>" unfolding all_uses_slots [OF len] length_args_of by blast
    moreover have "length as = max_args" using len u(1,2) by (metis length_args_of nth_mem)
    moreover have "\<exists>op. ops_of h ! p = Some op \<and> \<not> is_pseudo_op op" using assms(4) u(1-4) by (meson nth_mem)
    ultimately show "use_inst u < length h \<and> (\<exists>op. ops_of h ! use_inst u = Some op \<and> \<not> is_pseudo_op op) \<and>
      (\<exists>as. ?A ! use_inst u = Some as \<and> unat (use_arg_idx u) < length as \<and> ref_of (as ! unat (use_arg_idx u)) = Some d)"
      by (simp add: small_arg_index del: args_of_nth ops_of_nth)
  qed
  from redirect_uses_spec [OF this all_uses_distinct assms(2,3)]
  obtain h' where h': "redirect_uses h ?us (Some v) = Inr h'" "ops_of h' = ops_of h"
    "\<forall>p<length h. args_of h' ! p = map_option (redirect_slots (slot_of ` set ?us) d v p) (?A ! p)" by blast
  have rs: "redirect_slots (slot_of ` set ?us) d v p as = map (redirect d v) as" if "p < length h" "?A ! p = Some as" for p as
    by (rule nth_equalityI) (use all_uses_slot_iff [OF assms(1), of p as] that redirect_other in \<open>auto simp: redirect_slots_def\<close>)
  have "args_of h' = map (map_option (map (redirect d v))) ?A"
  proof (rule nth_equalityI)
    show "length (args_of h') = length (map (map_option (map (redirect d v))) ?A)" using h'(2) by (metis length_args_of length_map length_ops_of)
    fix p assume "p < length (args_of h')"
    then have p: "p < length h" using h'(2) by (metis length_args_of length_ops_of)
    then show "args_of h' ! p = map (map_option (map (redirect d v))) ?A ! p"
      using h'(3) rs [OF p] by (cases "?A ! p") (auto simp del: args_of_nth)
  qed
  then show ?thesis using h' by blast
qed

section \<open>Properties\<close>

text \<open>
  C39: the elimination of a load.  Let a load of a local variable be met in the block in which the value
  last stored to the variable is defined, in a function whose use lists are complete.  The pass then
  replaces exactly the references to the load, in value and in address arguments of every instruction,
  by references to the stored value, changes no other argument and forgets the value of the load.
\<close>

theorem load_replaced_by_stored_value:
  assumes "value_inv f \<and> slots_ok (args_of (insts f))" and "x < length (pool_values f)" and "hv_inst (pool_values f ! x) = p"
    and "GetArg_Local (insts f) p 0 = Inr l" and "unat (local_id l) < length cur" and "cur ! unat (local_id l) = Some lv"
    and "lv < length (pool_values f)" and "hv_block (pool_values f ! lv) = b" and "hv_inst (pool_values f ! lv) = v" and "v \<noteq> p"
    and "\<forall>q<length (insts f). \<forall>as. args_of (insts f) ! q = Some as \<longrightarrow> (\<exists>a\<in>set as. ref_of a = Some p) \<longrightarrow>
           (\<exists>op. ops_of (insts f) ! q = Some op \<and> \<not> is_pseudo_op op)"
  shows "\<exists>f'. eliminate_load f cur b p = Inr f' \<and>
           args_of (insts f') = map (map_option (map (redirect p v))) (args_of (insts f)) \<and>
           uses (args_of (insts f')) p = 0 \<and> hvalues f' = remove1 x (hvalues f)"
proof -
  have ids: "value_ids_ok f" and us: "value_uses_ok f" and sl: "slots_ok (args_of (insts f))"
    using assms(1) by (simp_all add: value_inv_def)
  have liv: "live (ops_of (insts f)) (Some (hv_inst (pool_values f ! k)))" if "k < length (pool_values f)" for k
  proof -
    have "hv_inst (pool_values f ! k) < length (insts f)" "ids_of (insts f) ! hv_inst (pool_values f ! k) = Some (of_nat k)"
      using ids that unfolding value_ids_ok_def by blast+
    then show ?thesis by (auto simp: live_def)
  qed
  have u: "hv_uses (pool_values f ! x) = all_uses (args_of (insts f)) p"
    using us assms(2,3) unfolding value_uses_ok_def by (metis nth_mem)
  obtain h where h: "redirect_uses (insts f) (all_uses (args_of (insts f)) p) (Some v) = Inr h"
    "args_of h = map (map_option (map (redirect p v))) (args_of (insts f))"
    using redirect_all_uses [OF sl, of p v] liv [OF assms(2)] liv [OF assms(7)] assms(3,9,11) by auto
  have "GetHIRValue f (Some p) = Inr (Some x)" using GetHIRValue_spec [OF ids assms(2)] assms(3) by simp
  then have "eliminate_load f cur b p = Inr (DestroyHIRValue (f\<lparr>insts := h\<rparr>) x)"
    using assms(2,4-9) u h(1) by (simp add: eliminate_load_def)
  moreover have "ref_of (redirect p v a) \<noteq> Some p" for a
    using assms(10) by (induction p v a rule: redirect.induct) auto
  then have "uses (map (map_option (map (redirect p v))) (args_of (insts f))) p = 0"
    by (auto simp: uses_def count_refs_def split: option.splits)
  ultimately show ?thesis using h(2) by (simp add: DestroyHIRValue_def)
qed


text \<open>A constant is stored to a local variable, the variable is loaded and the load is stored to another one.\<close>

definition then_append :: "HIRFunction result \<Rightarrow> OpCode \<Rightarrow> ArgIn list \<Rightarrow> HIRFunction result" where
  "then_append r op as = res_bind r (\<lambda>f. res_bind (AppendInst (\<lambda>_ _. ATVoid) f op as) (\<lambda>(f1, _). Inr f1))"

definition example_local :: "u16 \<Rightarrow> Local" where
  "example_local n = \<lparr>local_id = n, local_type = VT_U8\<rparr>"

definition load_after_store :: "HIRFunction result" where
  "load_after_store =
     then_append (then_append (then_append (then_append (new_HIRFunction 0 0)
       OpLoadImm [InArg (ArgImm (ImmU8 5))])
       OpStoreLocal [InArg (ArgLocal (example_local 0)), InArg (ArgValue (Some 0))])
       OpLoadLocal [InArg (ArgLocal (example_local 0))])
       OpStoreLocal [InArg (ArgLocal (example_local 1)), InArg (ArgValue (Some 2))]"

definition built :: "HIRFunction result \<Rightarrow> inst_ptr list \<Rightarrow> Arg list option list \<Rightarrow> OpCode option list \<Rightarrow> bool" where
  "built r vs A P \<longleftrightarrow> (\<exists>f. r = Inr f \<and> fn_inv f \<and> current_block f = Some 0 \<and> map hv_inst (pool_values f) = vs \<and>
     args_of (insts f) = A \<and> ops_of (insts f) = P)"

lemma built_append:
  assumes "built r vs A P" and "well_typed op as" and "list_all (arg_live P) (slots_of as)"
    and "\<forall>a\<in>set (slots_of as). \<forall>d. ref_of a = Some d \<longrightarrow> d \<in> set vs" and "length vs < 2 ^ 16"
    and "vs' = vs @ (if has_result op then [length A] else [])" and "A' = A @ [Some (all_slots as)]" and "P' = P @ [Some op]"
  shows "built (then_append r op as) vs' A' P'"
proof -
  obtain f where f: "r = Inr f" "fn_inv f" "current_block f = Some 0" "map hv_inst (pool_values f) = vs"
    "args_of (insts f) = A" "ops_of (insts f) = P" using assms(1) by (auto simp: built_def)
  have "args_known f as" "length (pool_values f) < 2 ^ 16" "length (insts f) = length A"
    using assms(3-5) f(4-6) by (auto simp: args_known_def)
  then show ?thesis unfolding built_def
    using f assms(2,6-8) AppendInst_spec [of f 0 op as "\<lambda>_ _. ATVoid"] by (auto simp: then_append_def)
qed

lemmas typing = well_typed_def base_op_def is_pseudo_op_def IsPseudoOperation_def Inst_def IsOperand_def
  ir_meta_infos_def meta_def has_result_def live_def all_slots_def

lemma local_id_0: "unat (local_id (example_local 0)) = 0"
  by (simp add: example_local_def)

lemma replicate_few: "replicate 2 x = [x, x]" "replicate 3 x = [x, x, x]"
  by (simp_all add: numeral_2_eq_2 numeral_3_eq_3)

lemma load_after_store_built:
  "built load_after_store [0, 2]
     [Some [ArgImm (ImmU8 5), ArgVoid, ArgVoid, ArgVoid],
      Some [ArgLocal (example_local 0), ArgValue (Some 0), ArgVoid, ArgVoid],
      Some [ArgLocal (example_local 0), ArgVoid, ArgVoid, ArgVoid],
      Some [ArgLocal (example_local 1), ArgValue (Some 2), ArgVoid, ArgVoid]]
     [Some OpLoadImm, Some OpStoreLocal, Some OpLoadLocal, Some OpStoreLocal]"
proof -
  obtain f where f: "new_HIRFunction 0 0 = Inr f" "current_block f = Some 0" using new_HIRFunction_spec [of 0 0] by blast
  have 0: "built (new_HIRFunction 0 0) [] [] []"
    using f new_HIRFunction_fn_inv [OF f(1)] by (simp add: built_def args_of_def ops_of_def)
  note 1 = built_append [OF 0, of OpLoadImm "[InArg (ArgImm (ImmU8 5))]", OF _ _ _ _ refl refl refl]
  note 2 = built_append [OF 1, of OpStoreLocal "[InArg (ArgLocal (example_local 0)), InArg (ArgValue (Some 0))]", OF _ _ _ _ _ _ _ _ refl refl refl]
  note 3 = built_append [OF 2, of OpLoadLocal "[InArg (ArgLocal (example_local 0))]", OF _ _ _ _ _ _ _ _ _ _ _ _ refl refl refl]
  note 4 = built_append [OF 3, of OpStoreLocal "[InArg (ArgLocal (example_local 1)), InArg (ArgValue (Some 2))]"]
  show ?thesis unfolding load_after_store_def by (rule 4) (simp_all add: typing example_local_def replicate_few)
qed

theorem load_replaced_by_stored_value_witness:
  "\<exists>f f'. load_after_store = Inr f \<and> eliminate_load f [Some 0, None] 0 2 = Inr f' \<and>
     args_of (insts f') ! 3 = Some [ArgLocal (example_local 1), ArgValue (Some 0), ArgVoid, ArgVoid]"
proof -
  obtain f where f: "load_after_store = Inr f" "fn_inv f" "map hv_inst (pool_values f) = [0, 2]"
    "args_of (insts f) = [Some [ArgImm (ImmU8 5), ArgVoid, ArgVoid, ArgVoid],
      Some [ArgLocal (example_local 0), ArgValue (Some 0), ArgVoid, ArgVoid],
      Some [ArgLocal (example_local 0), ArgVoid, ArgVoid, ArgVoid],
      Some [ArgLocal (example_local 1), ArgValue (Some 2), ArgVoid, ArgVoid]]"
    "ops_of (insts f) = [Some OpLoadImm, Some OpStoreLocal, Some OpLoadLocal, Some OpStoreLocal]"
    using load_after_store_built unfolding built_def by (elim exE conjE)
  have "case load_after_store of Inl _ \<Rightarrow> False | Inr f \<Rightarrow> hv_block (pool_values f ! 0) = 0 \<and> GetArg_Local (insts f) 2 0 = Inr (example_local 0)"
    by code_simp
  then have b: "hv_block (pool_values f ! 0) = 0" "GetArg_Local (insts f) 2 0 = Inr (example_local 0)"
    unfolding f(1) by simp_all
  have len: "length (pool_values f) = 2" "length (insts f) = 4"
    using arg_cong [OF f(3), of length] arg_cong [OF f(4), of length] by simp_all
  have v: "hv_inst (pool_values f ! 0) = 0" "hv_inst (pool_values f ! 1) = 2"
    using arg_cong [OF f(3), of "\<lambda>xs. xs ! 0"] arg_cong [OF f(3), of "\<lambda>xs. xs ! 1"] len(1) by simp_all
  have np: "\<forall>q<length (insts f). \<forall>as. args_of (insts f) ! q = Some as \<longrightarrow> (\<exists>a\<in>set as. ref_of a = Some 2) \<longrightarrow>
      (\<exists>op. ops_of (insts f) ! q = Some op \<and> \<not> is_pseudo_op op)"
    unfolding len(2) f(4,5)
    by (simp add: All_less_Suc numeral_eq_Suc is_pseudo_op_def IsPseudoOperation_def Inst_def)
  have i: "value_inv f \<and> slots_ok (args_of (insts f))" using f(2) by (simp add: fn_inv_def)
  have "\<exists>f'. eliminate_load f [Some 0, None] 0 2 = Inr f' \<and>
      args_of (insts f') = map (map_option (map (redirect 2 0))) (args_of (insts f)) \<and>
      uses (args_of (insts f')) 2 = 0 \<and> hvalues f' = remove1 1 (hvalues f)"
    by (rule load_replaced_by_stored_value [OF i _ v(2) _ _ _ _ _ v(1) _ np, where l = "example_local 0"])
      (use b len in \<open>simp_all add: local_id_0\<close>)
  then show ?thesis using f(1,4) by (auto simp: numeral_3_eq_3)
qed

end
