(* ===== verification/Bit_Fields.thy ===== *)
theory Bit_Fields
  imports Prelude "HOL-Library.Sublist"
begin

text \<open>
  The bit fields of \<^verbatim>\<open>runtime/common/bit_fields.h\<close> and the operators on flag enumerations and the suffix test of
  \<^verbatim>\<open>runtime/common/common_funcs.h\<close>.
\<close>

section \<open>BitField\<close>

text \<open>
  The mask for a storage type of at least 32 bits.  A narrower type is promoted to \<open>int\<close>: the complement
  of zero is -1, which the arithmetic shift to the right does not change, and the result is cut off.
\<close>

definition bf_mask :: "nat \<Rightarrow> nat \<Rightarrow> 'a::len word" where
  "bf_mask position bits =
     (if LENGTH('a) < 32 then push_bit position (- 1)
      else push_bit position (drop_bit (LENGTH('a) - bits) (- 1)))"

definition bf_assign :: "nat \<Rightarrow> nat \<Rightarrow> 'a::len word \<Rightarrow> 'a word \<Rightarrow> 'a word" where
  "bf_assign position bits storage val =
     (storage AND NOT (bf_mask position bits)) OR (push_bit position val AND bf_mask position bits)"

definition bf_read :: "nat \<Rightarrow> nat \<Rightarrow> 'a::len word \<Rightarrow> 'a word" where
  "bf_read position bits storage = drop_bit position (storage AND bf_mask position bits)"

lemma bit_bf_mask:
  assumes "32 \<le> LENGTH('a)" and "position + bits \<le> LENGTH('a)"
  shows "bit (bf_mask position bits :: 'a::len word) n \<longleftrightarrow> position \<le> n \<and> n < position + bits"
  using assms by (auto simp: bf_mask_def bit_simps)

text \<open>Reading a field gives the value last assigned to it, cut to its width; other fields keep theirs.\<close>

lemma bf_read_assign:
  fixes storage val :: "'a::len word"
  assumes "32 \<le> LENGTH('a)" and "position + bits \<le> LENGTH('a)"
  shows "bf_read position bits (bf_assign position bits storage val) = take_bit bits val"
  by (rule bit_eqI) (use assms in \<open>auto simp: bf_read_def bf_assign_def bit_simps bit_bf_mask\<close>)

lemma bf_read_assign_other:
  fixes storage val :: "'a::len word"
  assumes "32 \<le> LENGTH('a)" and "p1 + b1 \<le> LENGTH('a)" and "p2 + b2 \<le> LENGTH('a)" and "p1 + b1 \<le> p2 \<or> p2 + b2 \<le> p1"
  shows "bf_read p1 b1 (bf_assign p2 b2 storage val) = bf_read p1 b1 storage"
  by (rule bit_eqI) (use assms in \<open>auto simp: bf_read_def bf_assign_def bit_simps bit_bf_mask\<close>)

text \<open>In a field of 8 bit storage the mask covers all bits above the position, so that an assignment to a
  field destroys the fields above it.\<close>

lemma narrow_field_overwrites: "bf_read 4 4 (bf_assign 0 4 (bf_assign 4 4 (0 :: u8) 9) 0) = 0"
  by code_simp

section \<open>Flag enumerations\<close>

definition flag_or :: "u32 \<Rightarrow> u32 \<Rightarrow> u32" where "flag_or a b = a OR b"
definition flag_and :: "u32 \<Rightarrow> u32 \<Rightarrow> u32" where "flag_and a b = a AND b"
definition flag_xor :: "u32 \<Rightarrow> u32 \<Rightarrow> u32" where "flag_xor a b = a XOR b"
definition flag_shl :: "u32 \<Rightarrow> u32 \<Rightarrow> u32" where "flag_shl a b = push_bit (unat b) a"
definition flag_shr :: "u32 \<Rightarrow> u32 \<Rightarrow> u32" where "flag_shr a b = signed_drop_bit (unat b) a"
definition flag_not :: "u32 \<Rightarrow> u32" where "flag_not a = NOT a"
definition flag_True :: "u32 \<Rightarrow> bool" where "flag_True a \<longleftrightarrow> a \<noteq> 0"
definition flag_False :: "u32 \<Rightarrow> bool" where "flag_False a \<longleftrightarrow> a = 0"

lemma flag_set_and_clear:
  "flag_True (flag_and (flag_or a b) b) \<longleftrightarrow> flag_True b"
  "flag_False (flag_and (flag_and a (flag_not b)) b)"
  by (auto simp: flag_True_def flag_False_def flag_and_def flag_or_def flag_not_def bit_eq_iff bit_simps)

section \<open>Strings\<close>

definition EndWith :: "string \<Rightarrow> string \<Rightarrow> bool" where
  "EndWith str suf \<longleftrightarrow>
     length suf \<le> length str \<and> take (length suf) (drop (length str - length suf) str) = suf"

lemma EndWith_suffix: "EndWith str suf \<longleftrightarrow> suffix suf str"
proof
  assume "EndWith str suf"
  then have "drop (length str - length suf) str = suf" by (simp add: EndWith_def)
  then show "suffix suf str" by (metis suffix_drop)
qed (auto simp: EndWith_def suffix_def)

end
