(* ===== verification/Host_Memory_Windows.thy ===== *)
theory Host_Memory_Windows
  imports System_Calls
begin

text \<open>
  The memory of the guest on Windows, \<^verbatim>\<open>host/host_memory.cpp\<close> lines 127 to 421.  The address range of the guest
  is a placeholder of the operating system that is split where parts of the backing file are mapped
  and coalesced where they are unmapped; the object keeps track of the mapped intervals.

  The Windows calls and \<^verbatim>\<open>boost::icl::separate_interval_set\<close> are parameters.
\<close>

section \<open>The interval set\<close>

text \<open>An interval holds its lower bound but not its upper bound.  An iterator is a position in \<open>ivs\<close>.\<close>

type_synonym interval = "size_t \<times> size_t"

record 's interval_set =
  ivs :: "'s \<Rightarrow> interval list"
  iv_empty :: 's
  iv_find :: "'s \<Rightarrow> interval \<Rightarrow> nat option"
  iv_upper_bound :: "'s \<Rightarrow> interval \<Rightarrow> nat"
  iv_equal_range :: "'s \<Rightarrow> interval \<Rightarrow> nat \<times> nat"
  iv_insert :: "'s \<Rightarrow> interval \<Rightarrow> 's"
  iv_erase :: "'s \<Rightarrow> nat \<Rightarrow> 's"

section \<open>The calls\<close>

datatype page_flags = PAGE_READWRITE | PAGE_READONLY | PAGE_NOACCESS

text \<open>
  \<open>VirtualFreeEx\<close> appears as three functions, for the flags \<open>MEM_RELEASE | MEM_PRESERVE_PLACEHOLDER\<close>
  (split), \<open>MEM_RELEASE | MEM_COALESCE_PLACEHOLDERS\<close> (coalesce) and \<open>MEM_RELEASE\<close>.
\<close>

record 'w winapi =
  kernelbase_open :: bool
  kernelbase_symbol :: "string \<Rightarrow> bool"
  CreateFileMapping2 :: "size_t \<Rightarrow> 'w \<Rightarrow> nat \<times> 'w"
  VirtualAlloc2_placeholder :: "size_t \<Rightarrow> 'w \<Rightarrow> addr \<times> 'w"
  MapViewOfFile3 :: "addr \<Rightarrow> size_t \<Rightarrow> size_t \<Rightarrow> 'w \<Rightarrow> addr \<times> 'w"
  UnmapViewOfFile2 :: "addr \<Rightarrow> 'w \<Rightarrow> bool \<times> 'w"
  VirtualFreeEx_split :: "addr \<Rightarrow> size_t \<Rightarrow> 'w \<Rightarrow> bool \<times> 'w"
  VirtualFreeEx_coalesce :: "addr \<Rightarrow> size_t \<Rightarrow> 'w \<Rightarrow> bool \<times> 'w"
  VirtualFree_release :: "addr \<Rightarrow> 'w \<Rightarrow> bool \<times> 'w"
  VirtualProtect :: "addr \<Rightarrow> size_t \<Rightarrow> page_flags \<Rightarrow> 'w \<Rightarrow> bool \<times> 'w"
  CloseHandle :: "nat \<Rightarrow> 'w \<Rightarrow> bool \<times> 'w"

section \<open>HostMemory::Impl\<close>

record 's Win_Impl =
  wi_backing_size :: size_t
  wi_virtual_size :: size_t
  wi_backing_base :: addr
  wi_virtual_base :: addr
  backing_handle :: nat
  placeholders :: 's
  placeholder_host_pointers :: "size_t \<rightharpoonup> size_t"

text \<open>A call whose failure is only logged.\<close>

definition warned :: "('w \<Rightarrow> 'a \<times> 'w) \<Rightarrow> ('w, unit) io" where
  "warned call w = (Inr (), snd (call w))"

definition MapView :: "'w winapi \<Rightarrow> 's Win_Impl \<Rightarrow> size_t \<Rightarrow> size_t \<Rightarrow> size_t \<Rightarrow> ('w, unit) io" where
  "MapView api i virtual_offset host_offset len =
     warned (MapViewOfFile3 api (wi_virtual_base i + virtual_offset) host_offset len)"

definition Split :: "'w winapi \<Rightarrow> 's Win_Impl \<Rightarrow> size_t \<Rightarrow> size_t \<Rightarrow> ('w, unit) io" where
  "Split api i virtual_offset len = warned (VirtualFreeEx_split api (wi_virtual_base i + virtual_offset) len)"

definition Coalesce :: "'w winapi \<Rightarrow> 's Win_Impl \<Rightarrow> size_t \<Rightarrow> size_t \<Rightarrow> ('w, unit) io" where
  "Coalesce api i virtual_offset len = warned (VirtualFreeEx_coalesce api (wi_virtual_base i + virtual_offset) len)"

text \<open>\<open>emplace\<close> keeps an entry that is already there.\<close>

definition TrackPlaceholder :: "'s interval_set \<Rightarrow> 's Win_Impl \<Rightarrow> size_t \<Rightarrow> size_t \<Rightarrow> size_t \<Rightarrow> 's Win_Impl" where
  "TrackPlaceholder icl i virtual_offset host_offset len =
     i\<lparr>placeholders := iv_insert icl (placeholders i) (virtual_offset, virtual_offset + len),
       placeholder_host_pointers :=
         (case placeholder_host_pointers i virtual_offset of
            None \<Rightarrow> (placeholder_host_pointers i)(virtual_offset \<mapsto> host_offset)
          | Some _ \<Rightarrow> placeholder_host_pointers i)\<rparr>"

definition UntrackPlaceholder :: "'s interval_set \<Rightarrow> 's Win_Impl \<Rightarrow> nat \<Rightarrow> 's Win_Impl" where
  "UntrackPlaceholder icl i it =
     i\<lparr>placeholder_host_pointers := (placeholder_host_pointers i)(fst (ivs icl (placeholders i) ! it) := None),
       placeholders := iv_erase icl (placeholders i) it\<rparr>"

definition IsNiechePlaceholder :: "'s interval_set \<Rightarrow> 's Win_Impl \<Rightarrow> size_t \<Rightarrow> size_t \<Rightarrow> bool" where
  "IsNiechePlaceholder icl i virtual_offset len =
     (let xs = ivs icl (placeholders i);
          it = iv_upper_bound icl (placeholders i) (virtual_offset, virtual_offset + len)
      in if it < length xs \<and> fst (xs ! it) = virtual_offset + len
         then (if it = 0 then virtual_offset = 0 else snd (xs ! (it - 1)) = virtual_offset)
         else False)"

definition Win_Map :: "'w winapi \<Rightarrow> 's interval_set \<Rightarrow> 's Win_Impl \<Rightarrow> size_t \<Rightarrow> size_t \<Rightarrow> size_t \<Rightarrow> ('w, 's Win_Impl) io" where
  "Win_Map api icl i virtual_offset host_offset len =
     io_bind (if \<not> IsNiechePlaceholder icl i virtual_offset len then Split api i virtual_offset len else io_return ()) (\<lambda>_.
     io_bind (io_ASSERT (iv_find icl (placeholders i) (virtual_offset, virtual_offset + len) = None)) (\<lambda>_.
     let i1 = TrackPlaceholder icl i virtual_offset host_offset len in
     io_bind (MapView api i1 virtual_offset host_offset len) (\<lambda>_. io_return i1)))"

text \<open>The part of \<open>UnmapOnePlaceholder\<close> that calls the operating system, for the placeholder at \<open>it\<close>.\<close>

definition remap_parts ::
  "'w winapi \<Rightarrow> 's Win_Impl \<Rightarrow> interval \<Rightarrow> interval \<Rightarrow> size_t \<Rightarrow> ('w, unit) io" where
  "remap_parts api i placeholder unmap host_offset =
     (let (placeholder_begin, placeholder_end) = placeholder;
          (unmap_begin, unmap_end) = unmap;
          split_left = placeholder_begin < unmap_begin;
          split_right = unmap_end < placeholder_end
      in io_bind (warned (UnmapViewOfFile2 api (wi_virtual_base i + placeholder_begin))) (\<lambda>_.
         io_bind (if split_left \<or> split_right then Split api i unmap_begin (unmap_end - unmap_begin) else io_return ()) (\<lambda>_.
         io_bind (if split_left then MapView api i placeholder_begin host_offset (unmap_begin - placeholder_begin)
                  else io_return ()) (\<lambda>_.
         if split_right
         then MapView api i unmap_end (host_offset + unmap_end - placeholder_begin) (placeholder_end - unmap_end)
         else io_return ()))))"

definition coalesce_parts ::
  "'w winapi \<Rightarrow> 's Win_Impl \<Rightarrow> interval list \<Rightarrow> nat \<Rightarrow> interval \<Rightarrow> ('w, unit) io" where
  "coalesce_parts api i xs it unmap =
     (let (placeholder_begin, placeholder_end) = xs ! it;
          (unmap_begin, unmap_end) = unmap;
          split_left = placeholder_begin < unmap_begin;
          split_right = unmap_end < placeholder_end;
          coalesce_begin = (if \<not> split_left then (if it = 0 then 0 else snd (xs ! (it - 1))) else unmap_begin)
      in io_bind (if \<not> split_left \<and> coalesce_begin \<noteq> placeholder_begin
                  then Coalesce api i coalesce_begin (unmap_end - coalesce_begin) else io_return ()) (\<lambda>_.
         if \<not> split_right then
           (let next_begin = (if it + 1 = length xs then wi_virtual_size i else fst (xs ! (it + 1))) in
            if placeholder_end \<noteq> next_begin then Coalesce api i coalesce_begin (next_begin - coalesce_begin)
            else io_return ())
         else io_return ()))"

definition UnmapOnePlaceholder ::
  "'w winapi \<Rightarrow> 's interval_set \<Rightarrow> 's Win_Impl \<Rightarrow> size_t \<Rightarrow> size_t \<Rightarrow> ('w, bool \<times> 's Win_Impl) io" where
  "UnmapOnePlaceholder api icl i virtual_offset len =
     (case iv_find icl (placeholders i) (virtual_offset, virtual_offset + len) of
        None \<Rightarrow> io_return (False, i)
      | Some it \<Rightarrow>
          (let xs = ivs icl (placeholders i);
               (placeholder_begin, placeholder_end) = xs ! it;
               unmap_begin = max virtual_offset placeholder_begin;
               unmap_end = min (virtual_offset + len) placeholder_end
           in io_bind (io_ASSERT (placeholder_begin \<le> unmap_begin \<and> unmap_begin < placeholder_end)) (\<lambda>_.
              io_bind (io_ASSERT (unmap_end \<le> placeholder_end \<and> placeholder_begin < unmap_end)) (\<lambda>_.
              case placeholder_host_pointers i placeholder_begin of
                None \<Rightarrow> io_throw AssertFailed
              | Some host_offset \<Rightarrow>
                  io_bind (remap_parts api i (placeholder_begin, placeholder_end) (unmap_begin, unmap_end) host_offset) (\<lambda>_.
                  io_bind (coalesce_parts api i xs it (unmap_begin, unmap_end)) (\<lambda>_.
                  let i1 = UntrackPlaceholder icl i it;
                      i2 = (if placeholder_begin < unmap_begin
                            then TrackPlaceholder icl i1 placeholder_begin host_offset (unmap_begin - placeholder_begin) else i1);
                      i3 = (if unmap_end < placeholder_end
                            then TrackPlaceholder icl i2 unmap_end (host_offset + unmap_end - placeholder_begin)
                                   (placeholder_end - unmap_end) else i2)
                  in io_return (True, i3)))))))"

fun unmap_loop :: "nat \<Rightarrow> 'w winapi \<Rightarrow> 's interval_set \<Rightarrow> 's Win_Impl \<Rightarrow> size_t \<Rightarrow> size_t \<Rightarrow> ('w, 's Win_Impl) io" where
  "unmap_loop 0 api icl i virtual_offset len = io_throw Diverges"
| "unmap_loop (Suc n) api icl i virtual_offset len =
     io_bind (UnmapOnePlaceholder api icl i virtual_offset len) (\<lambda>(more, i1).
     if more then unmap_loop n api icl i1 virtual_offset len else io_return i1)"

text \<open>Every round removes a placeholder that overlaps the range, so that their number bounds the rounds.\<close>

definition Win_Unmap :: "'w winapi \<Rightarrow> 's interval_set \<Rightarrow> 's Win_Impl \<Rightarrow> size_t \<Rightarrow> size_t \<Rightarrow> ('w, 's Win_Impl) io" where
  "Win_Unmap api icl i virtual_offset len =
     unmap_loop (Suc (length (ivs icl (placeholders i)))) api icl i virtual_offset len"

definition Win_Free :: "'s Win_Impl \<Rightarrow> size_t \<Rightarrow> size_t \<Rightarrow> ('w, unit) io" where
  "Win_Free i virtual_offset len = io_return ()"

fun protect_loop :: "'w winapi \<Rightarrow> 's Win_Impl \<Rightarrow> interval list \<Rightarrow> size_t \<Rightarrow> size_t \<Rightarrow> page_flags \<Rightarrow> ('w, unit) io" where
  "protect_loop api i [] virtual_offset virtual_end new_flags = io_return ()"
| "protect_loop api i (x # xs) virtual_offset virtual_end new_flags =
     (let offset = max (fst x) virtual_offset;
          protect_length = min (snd x) virtual_end - offset
      in io_bind (warned (VirtualProtect api (wi_virtual_base i + offset) protect_length new_flags)) (\<lambda>_.
         protect_loop api i xs virtual_offset virtual_end new_flags))"

text \<open>
  For \<open>write\<close> without \<open>read\<close> the code uses \<^verbatim>\<open>UNIMPLEMENTED_MSG\<close>, a macro that no header of the sources defines;
  it is taken as an assertion that fails.
\<close>

definition Win_Protect ::
  "'w winapi \<Rightarrow> 's interval_set \<Rightarrow> 's Win_Impl \<Rightarrow> size_t \<Rightarrow> size_t \<Rightarrow> bool \<Rightarrow> bool \<Rightarrow> ('w, unit) io" where
  "Win_Protect api icl i virtual_offset len rd wr =
     (if \<not> rd \<and> wr then io_throw AssertFailed
      else (let new_flags = (if rd \<and> wr then PAGE_READWRITE else if rd then PAGE_READONLY else PAGE_NOACCESS);
                virtual_end = virtual_offset + len;
                (it, e) = iv_equal_range icl (placeholders i) (virtual_offset, virtual_end)
            in protect_loop api i (take (e - it) (drop it (ivs icl (placeholders i)))) virtual_offset virtual_end new_flags))"

fun unmap_views :: "'w winapi \<Rightarrow> 's Win_Impl \<Rightarrow> interval list \<Rightarrow> ('w, unit) io" where
  "unmap_views api i [] = io_return ()"
| "unmap_views api i (x # xs) =
     io_bind (warned (UnmapViewOfFile2 api (wi_virtual_base i + fst x))) (\<lambda>_. unmap_views api i xs)"

definition Win_Release :: "'w winapi \<Rightarrow> 's interval_set \<Rightarrow> 's Win_Impl \<Rightarrow> ('w, unit) io" where
  "Win_Release api icl i =
     io_bind (if ivs icl (placeholders i) \<noteq> []
              then io_bind (unmap_views api i (ivs icl (placeholders i))) (\<lambda>_. Coalesce api i 0 (wi_virtual_size i))
              else io_return ()) (\<lambda>_.
     io_bind (if wi_virtual_base i \<noteq> 0 then warned (VirtualFree_release api (wi_virtual_base i)) else io_return ()) (\<lambda>_.
     io_bind (if wi_backing_base i \<noteq> 0
              then io_bind (warned (UnmapViewOfFile2 api (wi_backing_base i))) (\<lambda>_.
                   warned (VirtualFree_release api (wi_backing_base i)))
              else io_return ()) (\<lambda>_.
     warned (CloseHandle api (backing_handle i)))))"

definition GetFuncAddress :: "'w winapi \<Rightarrow> string \<Rightarrow> ('w, unit) io" where
  "GetFuncAddress api name = (if \<not> kernelbase_symbol api name then io_throw BadAlloc else io_return ())"

definition Win_Impl_new :: "'w winapi \<Rightarrow> 's interval_set \<Rightarrow> size_t \<Rightarrow> size_t \<Rightarrow> ('w, 's Win_Impl) io" where
  "Win_Impl_new api icl bs vs =
     (let i = \<lparr>wi_backing_size = bs, wi_virtual_size = vs, wi_backing_base = 0, wi_virtual_base = 0, backing_handle = 0,
               placeholders = iv_empty icl, placeholder_host_pointers = Map.empty\<rparr> in
      if \<not> kernelbase_open api then io_throw BadAlloc else
      io_bind (GetFuncAddress api ''CreateFileMapping2'') (\<lambda>_.
      io_bind (GetFuncAddress api ''VirtualAlloc2'') (\<lambda>_.
      io_bind (GetFuncAddress api ''MapViewOfFile3'') (\<lambda>_.
      io_bind (GetFuncAddress api ''UnmapViewOfFile2'') (\<lambda>_.
      io_bind (io_call (CreateFileMapping2 api bs)) (\<lambda>h.
      if h = 0 then io_throw BadAlloc else
      io_bind (io_call (VirtualAlloc2_placeholder api bs)) (\<lambda>bb.
      let i1 = i\<lparr>backing_handle := h, wi_backing_base := bb\<rparr> in
      if bb = 0 then io_bind (Win_Release api icl i1) (\<lambda>_. io_throw BadAlloc) else
      io_bind (io_call (MapViewOfFile3 api bb 0 bs)) (\<lambda>ret.
      if ret \<noteq> bb then io_bind (Win_Release api icl i1) (\<lambda>_. io_throw BadAlloc) else
      io_bind (io_call (VirtualAlloc2_placeholder api vs)) (\<lambda>vb.
      let i2 = i1\<lparr>wi_virtual_base := vb\<rparr> in
      if vb = 0 then io_bind (Win_Release api icl i2) (\<lambda>_. io_throw BadAlloc) else io_return i2)))))))))"

end
