(* ===== verification/Host_Memory_Windows_Proofs.thy ===== *)
theory Host_Memory_Windows_Proofs
  imports Host_Memory_Windows
begin

text \<open>
  The bookkeeping of the guest memory on Windows.  What is assumed of the operating system and of the
  interval set is stated in \<open>placeholder_laws\<close> and \<open>interval_set_laws\<close>; \<open>win_inv\<close> is the invariant between two
  calls.  \<open>Win_Map_effect\<close> and \<open>Win_Unmap_effect\<close> are the effects of the two operations, from which the
  refinement of the page map follows.
\<close>

section \<open>Intervals and gaps\<close>

definition gap :: "size_t \<Rightarrow> size_t \<Rightarrow> interval set" where
  "gap a b = (if a < b then {(a, b)} else {})"

fun gaps :: "size_t \<Rightarrow> interval list \<Rightarrow> size_t \<Rightarrow> interval set" where
  "gaps lo [] hi = gap lo hi"
| "gaps lo (x # xs) hi = gap lo (fst x) \<union> gaps (snd x) xs hi"

text \<open>The gaps before the last interval, the end of the last interval, the start of the first, the gaps after it.\<close>

fun inner :: "size_t \<Rightarrow> interval list \<Rightarrow> interval set" where
  "inner lo [] = {}"
| "inner lo (x # xs) = gap lo (fst x) \<union> inner (snd x) xs"

fun end_of :: "size_t \<Rightarrow> interval list \<Rightarrow> size_t" where
  "end_of lo [] = lo"
| "end_of lo (x # xs) = end_of (snd x) xs"

fun start_of :: "interval list \<Rightarrow> size_t \<Rightarrow> size_t" where
  "start_of [] hi = hi"
| "start_of (x # xs) hi = fst x"

fun behind_first :: "interval list \<Rightarrow> size_t \<Rightarrow> interval set" where
  "behind_first [] hi = {}"
| "behind_first (x # xs) hi = gaps (snd x) xs hi"

definition wf_ivs :: "interval list \<Rightarrow> size_t \<Rightarrow> bool" where
  "wf_ivs xs hi \<longleftrightarrow> sorted_wrt (\<lambda>x y. snd x \<le> fst y) xs \<and> (\<forall>x\<in>set xs. fst x < snd x \<and> snd x \<le> hi)"

lemma gaps_start: "gaps lo xs hi = gap lo (start_of xs hi) \<union> behind_first xs hi"
  by (cases xs) auto

lemma gaps_append: "gaps lo (xs @ ys) hi = inner lo xs \<union> gaps (end_of lo xs) ys hi"
  by (induction xs arbitrary: lo) auto

lemma end_of_last: "xs \<noteq> [] \<Longrightarrow> end_of lo xs = snd (last xs)"
  by (induction xs arbitrary: lo) auto

lemma end_of_le: "\<forall>x\<in>set xs. snd x \<le> v \<Longrightarrow> lo \<le> v \<Longrightarrow> end_of lo xs \<le> v"
  by (induction xs arbitrary: lo) auto

lemma start_of_ge: "\<forall>x\<in>set xs. v \<le> fst x \<Longrightarrow> v \<le> hi \<Longrightarrow> v \<le> start_of xs hi"
  by (cases xs) auto

lemma gap_bounds: "x \<in> gap a b \<Longrightarrow> a \<le> fst x \<and> fst x < snd x \<and> snd x \<le> b"
  by (auto simp: gap_def split: if_splits)

lemma wf_end_of:
  assumes "wf_ivs xs hi" and "lo \<le> start_of xs hi"
  shows "lo \<le> end_of lo xs" and "end_of lo xs \<le> hi"
proof -
  have "lo \<le> end_of lo xs \<and> end_of lo xs \<le> hi"
    using assms
  proof (induction xs arbitrary: lo)
    case (Cons x xs)
    have w: "wf_ivs xs hi" "fst x < snd x" "snd x \<le> hi" "\<forall>y\<in>set xs. snd x \<le> fst y"
      using Cons.prems(1) by (auto simp: wf_ivs_def)
    from Cons.IH [OF w(1) start_of_ge [OF w(4,3)]] show ?case using w Cons.prems(2) by auto
  qed simp
  then show "lo \<le> end_of lo xs" "end_of lo xs \<le> hi" by auto
qed

lemma inner_bounds: "wf_ivs xs hi \<Longrightarrow> x \<in> inner lo xs \<Longrightarrow> fst x < snd x \<and> snd x < end_of lo xs"
proof (induction xs arbitrary: lo)
  case (Cons y ys)
  have w: "wf_ivs ys hi" "fst y < snd y" "snd y \<le> hi" "\<forall>z\<in>set ys. snd y \<le> fst z"
    using Cons.prems(1) by (auto simp: wf_ivs_def)
  have "snd y \<le> end_of (snd y) ys" using wf_end_of(1) [OF w(1) start_of_ge [OF w(4,3)]] .
  then show ?case using Cons.IH [OF w(1)] Cons.prems(2) gap_bounds [of x lo "fst y"] w(2) by auto
qed simp

lemma gaps_bounds: "wf_ivs xs hi \<Longrightarrow> lo \<le> start_of xs hi \<Longrightarrow> x \<in> gaps lo xs hi \<Longrightarrow> lo \<le> fst x \<and> fst x < snd x \<and> snd x \<le> hi"
proof (induction xs arbitrary: lo)
  case Nil
  then show ?case using gap_bounds by auto
next
  case (Cons y ys)
  have w: "wf_ivs ys hi" "fst y < snd y" "snd y \<le> hi" "\<forall>z\<in>set ys. snd y \<le> fst z"
    using Cons.prems(1) by (auto simp: wf_ivs_def)
  then show ?case
    using Cons.IH [OF w(1) start_of_ge [OF w(4,3)]] Cons.prems(2,3) gap_bounds [of x lo "fst y"] by auto
qed

lemma behind_first_bounds: "wf_ivs xs hi \<Longrightarrow> x \<in> behind_first xs hi \<Longrightarrow> start_of xs hi < fst x \<and> fst x < snd x"
proof (cases xs)
  case (Cons y ys)
  assume "wf_ivs xs hi" "x \<in> behind_first xs hi"
  then have w: "wf_ivs ys hi" "fst y < snd y" "snd y \<le> hi" "\<forall>z\<in>set ys. snd y \<le> fst z" "x \<in> gaps (snd y) ys hi"
    using Cons by (auto simp: wf_ivs_def)
  then show ?thesis using gaps_bounds [OF w(1) start_of_ge [OF w(4,3)] w(5)] Cons by auto
qed simp

lemma wf_append:
  "wf_ivs (xs @ ys) hi \<longleftrightarrow> wf_ivs xs hi \<and> wf_ivs ys hi \<and> (\<forall>x\<in>set xs. \<forall>y\<in>set ys. snd x \<le> fst y)"
  by (auto simp: wf_ivs_def sorted_wrt_append)

lemma wf_Cons:
  "wf_ivs (x # ys) hi \<longleftrightarrow> fst x < snd x \<and> snd x \<le> hi \<and> wf_ivs ys hi \<and> (\<forall>y\<in>set ys. snd x \<le> fst y)"
  by (auto simp: wf_ivs_def)

lemma wf_unique: "wf_ivs xs hi \<Longrightarrow> wf_ivs ys hi' \<Longrightarrow> set xs = set ys \<Longrightarrow> xs = ys"
proof (induction xs arbitrary: ys)
  case Nil
  then show ?case by simp
next
  case (Cons x xs)
  then obtain y zs where ys: "ys = y # zs" by (cases ys) auto
  have nx: "x \<notin> set xs" "y \<notin> set zs" using Cons.prems(1,2) ys by (force simp: wf_Cons)+
  have xy: "x = y"
  proof (rule ccontr)
    assume "x \<noteq> y"
    then have "x \<in> set zs" "y \<in> set xs" using Cons.prems(3) ys by auto
    then have "snd y \<le> fst x" "snd x \<le> fst y" "fst x < snd x" "fst y < snd y" using Cons.prems(1,2) ys by (auto simp: wf_Cons)
    then show False by (meson leD le_less_trans order.strict_trans)
  qed
  then have "set xs = set zs" using Cons.prems(3) ys nx by auto
  then show ?case using Cons.IH [of zs] Cons.prems(1,2) ys xy by (auto simp: wf_Cons)
qed

definition overlaps :: "interval \<Rightarrow> interval \<Rightarrow> bool" where
  "overlaps x k \<longleftrightarrow> fst x < snd k \<and> fst k < snd x"

lemma split_around:
  assumes "wf_ivs xs hi" and "v < e" and "\<forall>x\<in>set xs. \<not> overlaps x (v, e)"
  shows "\<exists>as bs. xs = as @ bs \<and> (\<forall>x\<in>set as. snd x \<le> v) \<and> (\<forall>x\<in>set bs. e \<le> fst x)"
  using assms
proof (induction xs)
  case (Cons x xs)
  then have w: "wf_ivs xs hi" "fst x < snd x" "\<forall>y\<in>set xs. snd x \<le> fst y" by (auto simp: wf_Cons)
  show ?case
  proof (cases "snd x \<le> v")
    case True
    obtain as bs where "xs = as @ bs" "\<forall>x\<in>set as. snd x \<le> v" "\<forall>x\<in>set bs. e \<le> fst x"
      using Cons.IH [OF w(1) Cons.prems(2)] Cons.prems(3) by auto
    then show ?thesis using True by (intro exI [of _ "x # as"] exI [of _ bs]) auto
  next
    case False
    then have "e \<le> fst x" using Cons.prems(3) by (auto simp: overlaps_def)
    then have "\<forall>y\<in>set (x # xs). e \<le> fst y" using w by force
    then show ?thesis by (intro exI [of _ "[]"] exI [of _ "x # xs"]) auto
  qed
qed simp

section \<open>What the operating system promises\<close>

text \<open>
  The documented behaviour of placeholders.  \<open>ph w\<close> are the free placeholders of the address range that
  starts at \<open>vb\<close>, \<open>vw w\<close> the views in it with their offset in the file, both as offsets from \<open>vb\<close>.
  Unmapping a view leaves a placeholder; mapping replaces a placeholder of exactly that size; a
  placeholder is split at the ends of a region inside it; two adjacent placeholders that make up a
  region are coalesced.
\<close>

definition within :: "size_t \<Rightarrow> size_t \<Rightarrow> interval \<Rightarrow> bool" where
  "within a e x \<longleftrightarrow> fst x \<le> a \<and> e \<le> snd x"

definition pieces :: "size_t \<Rightarrow> size_t \<Rightarrow> interval \<Rightarrow> interval set" where
  "pieces a e x = gap (fst x) a \<union> {(a, e)} \<union> gap e (snd x)"

definition placeholder_laws ::
  "'w winapi \<Rightarrow> addr \<Rightarrow> ('w \<Rightarrow> interval set) \<Rightarrow> ('w \<Rightarrow> (interval \<times> size_t) set) \<Rightarrow> bool" where
  "placeholder_laws api vb ph vw \<longleftrightarrow>
     (\<forall>l w. vw (snd (UnmapViewOfFile2 api (vb + l) w)) = {x \<in> vw w. fst (fst x) \<noteq> l} \<and>
            ph (snd (UnmapViewOfFile2 api (vb + l) w)) = ph w \<union> fst ` {x \<in> vw w. fst (fst x) = l}) \<and>
     (\<forall>l h n w. (l, l + n) \<in> ph w \<longrightarrow>
            vw (snd (MapViewOfFile3 api (vb + l) h n w)) = insert ((l, l + n), h) (vw w) \<and>
            ph (snd (MapViewOfFile3 api (vb + l) h n w)) = ph w - {(l, l + n)}) \<and>
     (\<forall>a n w. a < a + n \<longrightarrow>
            vw (snd (VirtualFreeEx_split api (vb + a) n w)) = vw w \<and>
            ph (snd (VirtualFreeEx_split api (vb + a) n w)) =
              {x \<in> ph w. \<not> within a (a + n) x} \<union> \<Union> (pieces a (a + n) ` {x \<in> ph w. within a (a + n) x})) \<and>
     (\<forall>a m n w. (a, m) \<in> ph w \<longrightarrow> (m, a + n) \<in> ph w \<longrightarrow>
            vw (snd (VirtualFreeEx_coalesce api (vb + a) n w)) = vw w \<and>
            ph (snd (VirtualFreeEx_coalesce api (vb + a) n w)) = {x \<in> ph w. \<not> (a \<le> fst x \<and> snd x \<le> a + n)} \<union> {(a, a + n)})"

lemma placeholder_lawsD:
  assumes "placeholder_laws api vb ph vw"
  shows "vw (snd (UnmapViewOfFile2 api (vb + l) w)) = {x \<in> vw w. fst (fst x) \<noteq> l}"
    and "ph (snd (UnmapViewOfFile2 api (vb + l) w)) = ph w \<union> fst ` {x \<in> vw w. fst (fst x) = l}"
    and "(l, l + n) \<in> ph w \<Longrightarrow> vw (snd (MapViewOfFile3 api (vb + l) h n w)) = insert ((l, l + n), h) (vw w)"
    and "(l, l + n) \<in> ph w \<Longrightarrow> ph (snd (MapViewOfFile3 api (vb + l) h n w)) = ph w - {(l, l + n)}"
    and "a < a + n \<Longrightarrow> vw (snd (VirtualFreeEx_split api (vb + a) n w)) = vw w"
    and "a < a + n \<Longrightarrow> ph (snd (VirtualFreeEx_split api (vb + a) n w)) =
              {x \<in> ph w. \<not> within a (a + n) x} \<union> \<Union> (pieces a (a + n) ` {x \<in> ph w. within a (a + n) x})"
    and "(a, m) \<in> ph w \<Longrightarrow> (m, a + n) \<in> ph w \<Longrightarrow> vw (snd (VirtualFreeEx_coalesce api (vb + a) n w)) = vw w"
    and "(a, m) \<in> ph w \<Longrightarrow> (m, a + n) \<in> ph w \<Longrightarrow>
           ph (snd (VirtualFreeEx_coalesce api (vb + a) n w)) = {x \<in> ph w. \<not> (a \<le> fst x \<and> snd x \<le> a + n)} \<union> {(a, a + n)}"
proof -
  note l = assms [unfolded placeholder_laws_def]
  note l1 = l [THEN conjunct1, rule_format] and l2 = l [THEN conjunct2, THEN conjunct1, rule_format]
    and l3 = l [THEN conjunct2, THEN conjunct2, THEN conjunct1, rule_format]
    and l4 = l [THEN conjunct2, THEN conjunct2, THEN conjunct2, rule_format]
  show "vw (snd (UnmapViewOfFile2 api (vb + l) w)) = {x \<in> vw w. fst (fst x) \<noteq> l}"
    and "ph (snd (UnmapViewOfFile2 api (vb + l) w)) = ph w \<union> fst ` {x \<in> vw w. fst (fst x) = l}"
    by (rule l1 [THEN conjunct1], rule l1 [THEN conjunct2])
  show "(l, l + n) \<in> ph w \<Longrightarrow> vw (snd (MapViewOfFile3 api (vb + l) h n w)) = insert ((l, l + n), h) (vw w)"
    and "(l, l + n) \<in> ph w \<Longrightarrow> ph (snd (MapViewOfFile3 api (vb + l) h n w)) = ph w - {(l, l + n)}"
    by (erule l2 [THEN conjunct1], erule l2 [THEN conjunct2])
  show "a < a + n \<Longrightarrow> vw (snd (VirtualFreeEx_split api (vb + a) n w)) = vw w"
    and "a < a + n \<Longrightarrow> ph (snd (VirtualFreeEx_split api (vb + a) n w)) =
              {x \<in> ph w. \<not> within a (a + n) x} \<union> \<Union> (pieces a (a + n) ` {x \<in> ph w. within a (a + n) x})"
    by (erule l3 [THEN conjunct1], erule l3 [THEN conjunct2])
  show "(a, m) \<in> ph w \<Longrightarrow> (m, a + n) \<in> ph w \<Longrightarrow> vw (snd (VirtualFreeEx_coalesce api (vb + a) n w)) = vw w"
    and "(a, m) \<in> ph w \<Longrightarrow> (m, a + n) \<in> ph w \<Longrightarrow>
           ph (snd (VirtualFreeEx_coalesce api (vb + a) n w)) = {x \<in> ph w. \<not> (a \<le> fst x \<and> snd x \<le> a + n)} \<union> {(a, a + n)}"
    by (erule (1) l4 [THEN conjunct1], erule (1) l4 [THEN conjunct2])
qed

text \<open>The effect of the calls on the two sets, for a state of the operating system that is left unnamed.\<close>

definition leaves :: "('w \<Rightarrow> interval set) \<Rightarrow> ('w \<Rightarrow> (interval \<times> size_t) set) \<Rightarrow> ('w, unit) io \<Rightarrow>
    interval set \<Rightarrow> (interval \<times> size_t) set \<Rightarrow> interval set \<Rightarrow> (interval \<times> size_t) set \<Rightarrow> bool" where
  "leaves ph vw m P V P' V' \<longleftrightarrow> (\<forall>w. ph w = P \<longrightarrow> vw w = V \<longrightarrow> (\<exists>w1. m w = (Inr (), w1) \<and> ph w1 = P' \<and> vw w1 = V'))"

lemma leaves_bind:
  "leaves ph vw m P V P1 V1 \<Longrightarrow> leaves ph vw n P1 V1 P2 V2 \<Longrightarrow> leaves ph vw (io_bind m (\<lambda>_. n)) P V P2 V2"
  unfolding leaves_def by (metis io_bind_Inr)

lemma leaves_return: "leaves ph vw (io_return ()) P V P V"
  by (simp add: leaves_def)

lemma leaves_Split:
  assumes "placeholder_laws api (wi_virtual_base i) ph vw" and "a < e"
  shows "leaves ph vw (Split api i a (e - a)) P V ({x \<in> P. \<not> within a e x} \<union> \<Union> (pieces a e ` {x \<in> P. within a e x})) V"
  using placeholder_lawsD(5,6) [OF assms(1), of a "e - a"] assms(2) by (simp add: leaves_def Split_def warned_def)

lemma leaves_MapView:
  assumes "placeholder_laws api (wi_virtual_base i) ph vw" and "(a, e) \<in> P"
  shows "leaves ph vw (MapView api i a h (e - a)) P V (P - {(a, e)}) (insert ((a, e), h) V)"
  using placeholder_lawsD(3,4) [OF assms(1), of a "e - a"] assms(2) by (simp add: leaves_def MapView_def warned_def)

lemma leaves_Coalesce:
  assumes "placeholder_laws api (wi_virtual_base i) ph vw" and "(a, m) \<in> P" and "(m, e) \<in> P"
  shows "leaves ph vw (Coalesce api i a (e - a)) P V ({x \<in> P. \<not> (a \<le> fst x \<and> snd x \<le> e)} \<union> {(a, e)}) V"
  using placeholder_lawsD(7,8) [OF assms(1), of a m _ "e - a"] assms(2,3) by (simp add: leaves_def Coalesce_def warned_def)

lemma leaves_Unmap:
  assumes "placeholder_laws api (wi_virtual_base i) ph vw"
  shows "leaves ph vw (warned (UnmapViewOfFile2 api (wi_virtual_base i + l))) P V
           (P \<union> fst ` {x \<in> V. fst (fst x) = l}) {x \<in> V. fst (fst x) \<noteq> l}"
  using placeholder_lawsD(1,2) [OF assms] by (simp add: leaves_def warned_def)

section \<open>The calls of one step\<close>

text \<open>The placeholders to the left of \<open>c\<close> and to the right of \<open>n\<close> take no part.\<close>

definition sides :: "interval set \<Rightarrow> size_t \<Rightarrow> size_t \<Rightarrow> interval set \<Rightarrow> bool" where
  "sides A c n B \<longleftrightarrow> (\<forall>x\<in>A. fst x < snd x \<and> snd x \<le> c) \<and> (\<forall>x\<in>B. n \<le> fst x \<and> fst x < snd x)"

lemma split_inside:
  assumes "sides A c n B" and "c \<le> a" and "a < e" and "e \<le> n" and "l \<le> a" and "e \<le> u" and "P = A \<union> {(l, u)} \<union> B"
  shows "{x \<in> P. \<not> within a e x} \<union> \<Union> (pieces a e ` {x \<in> P. within a e x}) = A \<union> gap l a \<union> {(a, e)} \<union> gap e u \<union> B"
proof -
  have "{x \<in> P. within a e x} = {(l, u)}" "{x \<in> P. \<not> within a e x} = A \<union> B"
    using assms by (force simp: sides_def within_def)+
  then show ?thesis by (auto simp: pieces_def)
qed

lemma coalesce_two:
  assumes "sides A a e B" and "a < m" and "m < e" and "P = A \<union> {(a, m), (m, e)} \<union> B"
  shows "{x \<in> P. \<not> (a \<le> fst x \<and> snd x \<le> e)} \<union> {(a, e)} = A \<union> {(a, e)} \<union> B"
  using assms by (force simp: sides_def)

lemma sides_Un:
  "sides A c n B \<Longrightarrow> sides A' c n B' \<Longrightarrow> sides (A \<union> A') c n (B \<union> B')"
  by (auto simp: sides_def)

lemma sides_mono: "sides A c n B \<Longrightarrow> c \<le> c' \<Longrightarrow> n' \<le> n \<Longrightarrow> sides A c' n' B"
  by (force simp: sides_def)

lemma sides_gap: "b \<le> c \<Longrightarrow> n \<le> a' \<Longrightarrow> sides (gap a b) c n (gap a' b')"
  using gap_bounds by (fastforce simp: sides_def)

lemma leaves_MapView_gap:
  assumes "placeholder_laws api (wi_virtual_base i) ph vw" and "a < e \<Longrightarrow> (a, e) \<notin> Q"
  shows "leaves ph vw (if a < e then MapView api i a h (e - a) else io_return ()) (Q \<union> gap a e) V Q
           (V \<union> (if a < e then {((a, e), h)} else {}))"
proof (cases "a < e")
  case True
  then have "Q \<union> gap a e - {(a, e)} = Q" using assms(2) by (auto simp: gap_def)
  then show ?thesis using True leaves_MapView [OF assms(1), of a e "Q \<union> gap a e" h V] by (simp add: gap_def)
qed (simp add: gap_def leaves_return)

lemma leaves_Split_inside:
  assumes "placeholder_laws api (wi_virtual_base i) ph vw" and "sides A pb pe B" and "pb \<le> ub" and "ub < ue" and "ue \<le> pe"
  shows "leaves ph vw (if pb < ub \<or> ue < pe then Split api i ub (ue - ub) else io_return ()) (A \<union> {(pb, pe)} \<union> B) V
      (A \<union> gap pb ub \<union> {(ub, ue)} \<union> gap ue pe \<union> B) V"
proof (cases "pb < ub \<or> ue < pe")
  case True
  have "{x \<in> A \<union> {(pb, pe)} \<union> B. \<not> within ub ue x} \<union> \<Union> (pieces ub ue ` {x \<in> A \<union> {(pb, pe)} \<union> B. within ub ue x}) =
      A \<union> gap pb ub \<union> {(ub, ue)} \<union> gap ue pe \<union> B"
    using assms by (intro split_inside [where c = pb and n = pe]) auto
  then show ?thesis using True leaves_Split [OF assms(1,4), of "A \<union> {(pb, pe)} \<union> B" V] by simp
next
  case False
  then have "ub = pb" "ue = pe" using assms(3,5) by auto
  then show ?thesis by (simp add: gap_def leaves_return)
qed

lemma leaves_remap_parts:
  assumes laws: "placeholder_laws api (wi_virtual_base i) ph vw" and s: "sides A pb pe B"
    and "pb \<le> ub" and "ub < ue" and "ue \<le> pe" and V: "\<forall>x\<in>V. fst (fst x) \<noteq> pb"
  shows "leaves ph vw (remap_parts api i (pb, pe) (ub, ue) h) (A \<union> B) (insert ((pb, pe), h) V)
     (A \<union> {(ub, ue)} \<union> B)
     (V \<union> (if pb < ub then {((pb, ub), h)} else {}) \<union> (if ue < pe then {((ue, pe), h + ue - pb)} else {}))"
proof -
  have 1: "leaves ph vw (warned (UnmapViewOfFile2 api (wi_virtual_base i + pb))) (A \<union> B) (insert ((pb, pe), h) V)
      (A \<union> {(pb, pe)} \<union> B) V"
  proof -
    have "{x \<in> insert ((pb, pe), h) V. fst (fst x) = pb} = {((pb, pe), h)}" "{x \<in> insert ((pb, pe), h) V. fst (fst x) \<noteq> pb} = V"
      using V by auto
    then show ?thesis using leaves_Unmap [OF laws, of pb "A \<union> B" "insert ((pb, pe), h) V"] by (simp add: Un_ac)
  qed
  let ?V = "V \<union> (if pb < ub then {((pb, ub), h)} else {})"
  have "pb < ub \<Longrightarrow> (pb, ub) \<notin> A \<union> {(ub, ue)} \<union> gap ue pe \<union> B" "ue < pe \<Longrightarrow> (ue, pe) \<notin> A \<union> {(ub, ue)} \<union> B"
    using s assms(3-5) by (auto simp: sides_def gap_def split: if_splits)
  then have 3: "leaves ph vw (if pb < ub then MapView api i pb h (ub - pb) else io_return ())
      (A \<union> {(ub, ue)} \<union> gap ue pe \<union> B \<union> gap pb ub) V (A \<union> {(ub, ue)} \<union> gap ue pe \<union> B) ?V"
    and 4: "leaves ph vw (if ue < pe then MapView api i ue (h + ue - pb) (pe - ue) else io_return ())
      (A \<union> {(ub, ue)} \<union> B \<union> gap ue pe) ?V (A \<union> {(ub, ue)} \<union> B) (?V \<union> (if ue < pe then {((ue, pe), h + ue - pb)} else {}))"
    by (intro leaves_MapView_gap [OF laws]; simp)+
  have e: "A \<union> gap pb ub \<union> {(ub, ue)} \<union> gap ue pe \<union> B = A \<union> {(ub, ue)} \<union> gap ue pe \<union> B \<union> gap pb ub"
    "A \<union> {(ub, ue)} \<union> gap ue pe \<union> B = A \<union> {(ub, ue)} \<union> B \<union> gap ue pe" by auto
  note 2 = leaves_Split_inside [OF laws s assms(3-5), of V, unfolded e(1)]
  show ?thesis unfolding remap_parts_def Let_def prod.case
    by (rule leaves_bind [OF 1 leaves_bind [OF 2 leaves_bind [OF 3 4 [folded e(2)]]]])
qed

lemma leaves_Coalesce_two:
  assumes "placeholder_laws api (wi_virtual_base i) ph vw" and "sides A a e B" and "a < m" and "m < e"
  shows "leaves ph vw (Coalesce api i a (e - a)) (A \<union> {(a, m), (m, e)} \<union> B) V (A \<union> {(a, e)} \<union> B) V"
  using leaves_Coalesce [OF assms(1), of a m "A \<union> {(a, m), (m, e)} \<union> B" e V] coalesce_two [OF assms(2-4) refl] by simp

lemma neighbours:
  assumes "xs = as @ (pb, pe) # bs"
  shows "(if length as = 0 then 0 else snd (xs ! (length as - 1))) = end_of 0 as"
    and "(if length as + 1 = length xs then vs else fst (xs ! (length as + 1))) = start_of bs vs" and "xs ! length as = (pb, pe)"
proof -
  show "(if length as = 0 then 0 else snd (xs ! (length as - 1))) = end_of 0 as"
    using assms end_of_last [of as 0] by (auto simp: last_conv_nth nth_append)
  show "(if length as + 1 = length xs then vs else fst (xs ! (length as + 1))) = start_of bs vs"
    using assms by (cases bs) (auto simp: nth_append)
  show "xs ! length as = (pb, pe)" using assms by simp
qed

lemma leaves_coalesce_parts:
  assumes laws: "placeholder_laws api (wi_virtual_base i) ph vw" and xs: "xs = as @ (pb, pe) # bs"
    and c: "c = end_of 0 as" and n: "n = start_of bs (wi_virtual_size i)" and s: "sides A c n B"
    and o: "c \<le> pb" "pb \<le> ub" "ub < ue" "ue \<le> pe" "pe \<le> n"
  shows "leaves ph vw (coalesce_parts api i xs (length as) (ub, ue)) (A \<union> gap c pb \<union> {(ub, ue)} \<union> gap pe n \<union> B) V
    (A \<union> (if pb < ub then gap c pb else {}) \<union> {(if pb < ub then ub else c, if ue < pe then ue else n)} \<union>
       (if ue < pe then gap pe n else {}) \<union> B) V"
proof -
  let ?s = "if pb < ub then ub else c" and ?L = "if pb < ub then gap c pb else {}"
  let ?P = "A \<union> ?L \<union> {(?s, ue)} \<union> gap pe n \<union> B"
  have 1: "leaves ph vw (if \<not> pb < ub \<and> ?s \<noteq> pb then Coalesce api i ?s (ue - ?s) else io_return ())
      (A \<union> gap c pb \<union> {(ub, ue)} \<union> gap pe n \<union> B) V ?P V"
  proof (cases "\<not> pb < ub \<and> c \<noteq> pb")
    case True
    have "ue \<le> n" using o by (meson order.trans)
    then have "sides A c ue (gap pe n \<union> B)" using sides_mono [OF s order.refl, of ue] sides_gap [of pb pb ue pe pb n] o
      by (auto simp: sides_def)
    moreover have "c < pb" "ub = pb" using True o by auto
    ultimately have "leaves ph vw (Coalesce api i c (ue - c)) (A \<union> {(c, pb), (pb, ue)} \<union> (gap pe n \<union> B)) V
        (A \<union> {(c, ue)} \<union> (gap pe n \<union> B)) V" using leaves_Coalesce_two [OF laws, of A c ue "gap pe n \<union> B" pb V] o(3) by simp
    moreover have "A \<union> gap c pb \<union> {(ub, ue)} \<union> gap pe n \<union> B = A \<union> {(c, pb), (pb, ue)} \<union> (gap pe n \<union> B)"
      "?P = A \<union> {(c, ue)} \<union> (gap pe n \<union> B)" using \<open>c < pb\<close> \<open>ub = pb\<close> by (auto simp: gap_def)
    ultimately show ?thesis using True by simp
  next
    case False
    then show ?thesis using o by (auto simp: gap_def leaves_return)
  qed
  have 2: "leaves ph vw (if \<not> ue < pe then if pe \<noteq> n then Coalesce api i ?s (n - ?s) else io_return () else io_return ()) ?P V
      (A \<union> ?L \<union> {(?s, if ue < pe then ue else n)} \<union> (if ue < pe then gap pe n else {}) \<union> B) V"
  proof (cases "\<not> ue < pe \<and> pe \<noteq> n")
    case True
    have "sides (A \<union> ?L) ?s n B" using s o by (auto simp: sides_def gap_def split: if_splits)
    moreover have "?s < ue" "ue < n" "ue = pe" using True o by auto
    ultimately have "leaves ph vw (Coalesce api i ?s (n - ?s)) (A \<union> ?L \<union> {(?s, ue), (ue, n)} \<union> B) V (A \<union> ?L \<union> {(?s, n)} \<union> B) V"
      using leaves_Coalesce_two [OF laws, of "A \<union> ?L" ?s n B ue V] by blast
    moreover have "?P = A \<union> ?L \<union> {(?s, ue), (ue, n)} \<union> B" using \<open>ue < n\<close> \<open>ue = pe\<close> by (auto simp: gap_def)
    ultimately show ?thesis using True by simp
  next
    case False
    then show ?thesis using o by (auto simp: gap_def leaves_return)
  qed
  have cb: "(if \<not> pb < ub then c else ub) = ?s" by simp
  show ?thesis
    unfolding coalesce_parts_def neighbours [OF xs] Let_def prod.case c [symmetric] n [symmetric] cb
    by (rule leaves_bind [OF 1 2])
qed

section \<open>What the interval set promises\<close>

text \<open>
  The documented behaviour of \<^verbatim>\<open>separate_interval_set\<close>: its intervals are disjoint and in order;
  \<open>find\<close> gives an interval that overlaps the key, \<open>upper_bound\<close> the first one behind it; an interval that
  overlaps no other is added as it is.
\<close>

definition interval_set_laws :: "'s interval_set \<Rightarrow> bool" where
  "interval_set_laws icl \<longleftrightarrow> ivs icl (iv_empty icl) = [] \<and>
     (\<forall>s k. wf_ivs (ivs icl s) (- 1) \<longrightarrow> fst k < snd k \<longrightarrow>
        (case iv_find icl s k of
           Some n \<Rightarrow> n < length (ivs icl s) \<and> overlaps (ivs icl s ! n) k
         | None \<Rightarrow> (\<forall>x\<in>set (ivs icl s). \<not> overlaps x k)) \<and>
        iv_upper_bound icl s k = length (takeWhile (\<lambda>x. fst x < snd k) (ivs icl s)) \<and>
        ((\<forall>x\<in>set (ivs icl s). \<not> overlaps x k) \<longrightarrow>
           wf_ivs (ivs icl (iv_insert icl s k)) (- 1) \<and> set (ivs icl (iv_insert icl s k)) = insert k (set (ivs icl s)))) \<and>
     (\<forall>s n. n < length (ivs icl s) \<longrightarrow> ivs icl (iv_erase icl s n) = take n (ivs icl s) @ drop (Suc n) (ivs icl s))"

lemma wf_max: "wf_ivs xs hi \<Longrightarrow> wf_ivs xs (- 1)"
  by (simp add: wf_ivs_def)

lemma interval_set_lawsD:
  assumes "interval_set_laws icl"
  shows "ivs icl (iv_empty icl) = []"
    and "wf_ivs (ivs icl s) hi \<Longrightarrow> a < e \<Longrightarrow> iv_find icl s (a, e) = Some n \<Longrightarrow> n < length (ivs icl s) \<and> overlaps (ivs icl s ! n) (a, e)"
    and "wf_ivs (ivs icl s) hi \<Longrightarrow> a < e \<Longrightarrow> iv_find icl s (a, e) = None \<Longrightarrow> x \<in> set (ivs icl s) \<Longrightarrow> \<not> overlaps x (a, e)"
    and "wf_ivs (ivs icl s) hi \<Longrightarrow> a < e \<Longrightarrow> iv_upper_bound icl s (a, e) = length (takeWhile (\<lambda>x. fst x < e) (ivs icl s))"
    and "wf_ivs (ivs icl s) hi \<Longrightarrow> a < e \<Longrightarrow> \<forall>x\<in>set (ivs icl s). \<not> overlaps x (a, e) \<Longrightarrow>
      wf_ivs (ivs icl (iv_insert icl s (a, e))) (- 1) \<and> set (ivs icl (iv_insert icl s (a, e))) = insert (a, e) (set (ivs icl s))"
    and "n < length (ivs icl s) \<Longrightarrow> ivs icl (iv_erase icl s n) = take n (ivs icl s) @ drop (Suc n) (ivs icl s)"
proof -
  note l = assms [unfolded interval_set_laws_def]
  note k = l [THEN conjunct2, THEN conjunct1, rule_format, of s "(a, e)", unfolded fst_conv snd_conv]
  show "ivs icl (iv_empty icl) = []" using l by blast
  show "n < length (ivs icl s) \<Longrightarrow> ivs icl (iv_erase icl s n) = take n (ivs icl s) @ drop (Suc n) (ivs icl s)"
    using l by blast
  show "wf_ivs (ivs icl s) hi \<Longrightarrow> a < e \<Longrightarrow> iv_find icl s (a, e) = Some n \<Longrightarrow> n < length (ivs icl s) \<and> overlaps (ivs icl s ! n) (a, e)"
    and "wf_ivs (ivs icl s) hi \<Longrightarrow> a < e \<Longrightarrow> iv_find icl s (a, e) = None \<Longrightarrow> x \<in> set (ivs icl s) \<Longrightarrow> \<not> overlaps x (a, e)"
    using k [THEN conjunct1, OF wf_max] by auto
  show "wf_ivs (ivs icl s) hi \<Longrightarrow> a < e \<Longrightarrow> iv_upper_bound icl s (a, e) = length (takeWhile (\<lambda>x. fst x < e) (ivs icl s))"
    using k [THEN conjunct2, THEN conjunct1, OF wf_max] by blast
  show "wf_ivs (ivs icl s) hi \<Longrightarrow> a < e \<Longrightarrow> \<forall>x\<in>set (ivs icl s). \<not> overlaps x (a, e) \<Longrightarrow>
      wf_ivs (ivs icl (iv_insert icl s (a, e))) (- 1) \<and> set (ivs icl (iv_insert icl s (a, e))) = insert (a, e) (set (ivs icl s))"
    using k [THEN conjunct2, THEN conjunct2, OF wf_max] by blast
qed

lemma insert_between:
  assumes "interval_set_laws icl" and "ivs icl s = as @ bs" and "wf_ivs (as @ (a, e) # bs) hi"
  shows "ivs icl (iv_insert icl s (a, e)) = as @ (a, e) # bs"
proof -
  have w: "wf_ivs (ivs icl s) hi" "a < e" using assms(2,3) by (auto simp: wf_append wf_Cons)
  have "\<forall>x\<in>set (ivs icl s). \<not> overlaps x (a, e)" using assms(2,3) by (auto simp: wf_append wf_Cons overlaps_def not_less)
  note i = interval_set_lawsD(5) [OF assms(1) w this]
  then have "set (ivs icl (iv_insert icl s (a, e))) = set (as @ (a, e) # bs)" using assms(2) by auto
  then show ?thesis using wf_unique [OF conjunct1 [OF i] assms(3)] by blast
qed

section \<open>The invariant\<close>

text \<open>
  Between two calls every tracked interval is one view, at the offset that is kept for it, and the free
  placeholders are exactly the maximal gaps between the intervals.
\<close>

definition views_of :: "interval list \<Rightarrow> (size_t \<rightharpoonup> size_t) \<Rightarrow> (interval \<times> size_t) set" where
  "views_of xs f = (\<lambda>x. (x, the (f (fst x)))) ` set xs"

definition win_inv :: "'s interval_set \<Rightarrow> ('w \<Rightarrow> interval set) \<Rightarrow> ('w \<Rightarrow> (interval \<times> size_t) set) \<Rightarrow> 's Win_Impl \<Rightarrow> 'w \<Rightarrow> bool" where
  "win_inv icl ph vw i w \<longleftrightarrow> wf_ivs (ivs icl (placeholders i)) (wi_virtual_size i) \<and>
     dom (placeholder_host_pointers i) = fst ` set (ivs icl (placeholders i)) \<and>
     vw w = views_of (ivs icl (placeholders i)) (placeholder_host_pointers i) \<and>
     ph w = gaps 0 (ivs icl (placeholders i)) (wi_virtual_size i)"

lemma views_of_append: "views_of (xs @ ys) f = views_of xs f \<union> views_of ys f"
  by (auto simp: views_of_def)

lemma views_of_Cons: "views_of (x # xs) f = insert (x, the (f (fst x))) (views_of xs f)"
  by (auto simp: views_of_def)

lemma views_of_upd: "(\<And>x. x \<in> set xs \<Longrightarrow> f (fst x) = g (fst x)) \<Longrightarrow> views_of xs f = views_of xs g"
  by (force simp: views_of_def)

lemma wf_mem: "wf_ivs xs hi \<Longrightarrow> x \<in> set xs \<Longrightarrow> fst x < snd x"
  by (simp add: wf_ivs_def)

lemma wf_starts:
  assumes "wf_ivs (as @ x # bs) hi" and "y \<in> set as \<union> set bs"
  shows "\<not> (fst x \<le> fst y \<and> fst y < snd x)"
proof (cases "y \<in> set as")
  case True
  then have "fst y < snd y" "snd y \<le> fst x" using assms(1) wf_mem by (auto simp: wf_append)
  then have "fst y < fst x" by (rule order.strict_trans2)
  then show ?thesis by (simp add: leD)
next
  case False
  then show ?thesis using assms by (auto simp: wf_append wf_Cons not_less)
qed

lemma wf_outer:
  assumes "wf_ivs (as @ bs) hi" and "\<forall>x\<in>set as. snd x \<le> v" and "\<forall>x\<in>set bs. e \<le> fst x" and "v \<le> e" and "e \<le> hi"
  shows "sides (inner 0 as) (end_of 0 as) (start_of bs hi) (behind_first bs hi)" and "end_of 0 as \<le> v" and "e \<le> start_of bs hi"
proof -
  have w: "wf_ivs as hi" "wf_ivs bs hi" using assms(1) by (auto simp: wf_append)
  show "sides (inner 0 as) (end_of 0 as) (start_of bs hi) (behind_first bs hi)"
    using inner_bounds [OF w(1)] behind_first_bounds [OF w(2)] by (force simp: sides_def)
  show "end_of 0 as \<le> v" using end_of_le [OF assms(2)] by simp
  show "e \<le> start_of bs hi" by (rule start_of_ge [OF assms(3,5)])
qed

section \<open>Mapping\<close>

lemma upper_bound_split:
  assumes "interval_set_laws icl" and "ivs icl s = as @ bs" and "wf_ivs (as @ (a, e) # bs) hi"
  shows "iv_upper_bound icl s (a, e) = length as"
proof -
  have w: "wf_ivs (ivs icl s) hi" "a < e" using assms(2,3) by (auto simp: wf_append wf_Cons)
  have "fst x < e" if "x \<in> set as" for x
  proof -
    have "fst x < snd x" "snd x \<le> a" using that assms(3) wf_mem by (auto simp: wf_append)
    then show ?thesis using w(2) by order
  qed
  then have as: "\<forall>x\<in>set as. fst x < e" by blast
  have bs: "bs = [] \<or> e \<le> fst (hd bs)" using assms(3) by (cases bs) (auto simp: wf_append wf_Cons)
  have "takeWhile (\<lambda>x. fst x < e) (as @ bs) = as"
    using as bs by (cases bs) (auto simp: takeWhile_append2 not_less)
  then show ?thesis using interval_set_lawsD(4) [OF assms(1) w] assms(2) by simp
qed

lemma IsNieche_split:
  assumes "interval_set_laws icl" and "ivs icl (placeholders i) = as @ bs" and "wf_ivs (as @ (a, a + n) # bs) hi"
  shows "IsNiechePlaceholder icl i a n \<longleftrightarrow> bs \<noteq> [] \<and> fst (hd bs) = a + n \<and> a = end_of 0 as"
proof -
  note u = upper_bound_split [OF assms]
  have "as \<noteq> [] \<Longrightarrow> (as @ bs) ! (length as - 1) = last as" by (simp add: last_conv_nth nth_append)
  then show ?thesis using assms(2) u end_of_last [of as 0] by (cases bs) (auto simp: IsNiechePlaceholder_def Let_def)
qed

lemma start_of_hd: "bs \<noteq> [] \<Longrightarrow> start_of bs hi = fst (hd bs)"
  by (cases bs) auto

lemma leaves_niche:
  assumes laws: "placeholder_laws api (wi_virtual_base i) ph vw" and icl: "interval_set_laws icl"
    and xs: "ivs icl (placeholders i) = as @ bs" and wf: "wf_ivs (as @ (a, a + n) # bs) (wi_virtual_size i)"
  shows "leaves ph vw (if \<not> IsNiechePlaceholder icl i a n then Split api i a n else io_return ())
    (gaps 0 (as @ bs) (wi_virtual_size i)) V
    (insert (a, a + n) (gaps 0 (as @ (a, a + n) # bs) (wi_virtual_size i))) V"
proof -
  let ?c = "end_of 0 as" and ?n = "start_of bs (wi_virtual_size i)" and ?A = "inner 0 as" and ?B = "behind_first bs (wi_virtual_size i)"
  have w: "wf_ivs (as @ bs) (wi_virtual_size i)" "\<forall>x\<in>set as. snd x \<le> a" "\<forall>x\<in>set bs. a + n \<le> fst x" "a \<le> a + n"
      "a + n \<le> wi_virtual_size i" "a < a + n"
    using wf by (auto simp: wf_append wf_Cons)
  note s = wf_outer [OF w(1-5)]
  have cn: "?c < ?n" using s(2,3) w(6) by (meson order.strict_trans1 order.strict_trans2)
  have P: "gaps 0 (as @ bs) (wi_virtual_size i) = ?A \<union> {(?c, ?n)} \<union> ?B"
    using cn by (simp add: gaps_append gaps_start [of _ bs] gap_def)
  have P': "insert (a, a + n) (gaps 0 (as @ (a, a + n) # bs) (wi_virtual_size i)) = ?A \<union> gap ?c a \<union> {(a, a + n)} \<union> gap (a + n) ?n \<union> ?B"
    by (auto simp: gaps_append gaps_start [of _ bs])
  show ?thesis
  proof (cases "IsNiechePlaceholder icl i a n")
    case True
    then have "bs \<noteq> [] \<and> fst (hd bs) = a + n \<and> a = ?c" unfolding IsNieche_split [OF icl xs wf] .
    then have "a = ?c" "?n = a + n" using start_of_hd [of bs "wi_virtual_size i"] by presburger+
    then have "?A \<union> gap ?c a \<union> {(a, a + n)} \<union> gap (a + n) ?n \<union> ?B = ?A \<union> {(?c, ?n)} \<union> ?B" by (simp add: gap_def)
    then show ?thesis using True P P' by (simp add: leaves_return)
  next
    case False
    have "?A \<union> gap ?c a \<union> {(a, a + n)} \<union> gap (a + n) ?n \<union> ?B =
      {x \<in> ?A \<union> {(?c, ?n)} \<union> ?B. \<not> within a (a + n) x} \<union> \<Union> (pieces a (a + n) ` {x \<in> ?A \<union> {(?c, ?n)} \<union> ?B. within a (a + n) x})"
      using split_inside [OF s(1,2) w(6) s(3,2,3) refl] by simp
    then show ?thesis using False leaves_Split [OF laws w(6), of "?A \<union> {(?c, ?n)} \<union> ?B" V] P P' by simp
  qed
qed

text \<open>The bytes of the file that a guest address shows.\<close>

definition sees :: "(interval \<times> size_t) set \<Rightarrow> size_t \<Rightarrow> size_t set" where
  "sees V x = {h + (x - l) | l u h. ((l, u), h) \<in> V \<and> l \<le> x \<and> x < u}"

definition same_range :: "'s Win_Impl \<Rightarrow> 's Win_Impl \<Rightarrow> bool" where
  "same_range i j \<longleftrightarrow> wi_virtual_base i = wi_virtual_base j \<and> wi_virtual_size i = wi_virtual_size j"

lemma sees_insert: "sees (insert ((l, u), h) V) x = (if l \<le> x \<and> x < u then insert (h + (x - l)) (sees V x) else sees V x)"
  by (auto simp: sees_def)

lemma sees_Un: "sees (V \<union> W) x = sees V x \<union> sees W x"
  by (auto simp: sees_def)

lemma sees_views_empty:
  "sees (views_of xs f) x = {} \<longleftrightarrow> (\<forall>y\<in>set xs. \<not> (fst y \<le> x \<and> x < snd y))"
  by (force simp: sees_def views_of_def)

lemma leavesD: "leaves ph vw m (ph w) (vw w) P V \<Longrightarrow> \<exists>w1. m w = (Inr (), w1) \<and> ph w1 = P \<and> vw w1 = V"
  by (simp add: leaves_def)

lemma Track_fields:
  "placeholders (TrackPlaceholder icl i a h n) = iv_insert icl (placeholders i) (a, a + n)"
  "placeholder_host_pointers i a = None \<Longrightarrow>
     placeholder_host_pointers (TrackPlaceholder icl i a h n) = (placeholder_host_pointers i)(a \<mapsto> h)"
  "same_range (TrackPlaceholder icl i a h n) j = same_range i j"
  "wi_virtual_base (TrackPlaceholder icl i a h n) = wi_virtual_base i"
  "wi_virtual_size (TrackPlaceholder icl i a h n) = wi_virtual_size i"
  by (simp_all add: TrackPlaceholder_def same_range_def)

lemma wf_starts_ne: "wf_ivs (as @ x # bs) hi \<Longrightarrow> y \<in> set (as @ bs) \<Longrightarrow> fst y \<noteq> fst x"
  using wf_starts [of as x bs hi y] wf_mem [of "as @ x # bs" hi x] by auto

text \<open>The intervals and the map of offsets change together.\<close>

definition tracks :: "'s interval_set \<Rightarrow> 's Win_Impl \<Rightarrow> interval list \<Rightarrow> (interval \<times> size_t) set \<Rightarrow> bool" where
  "tracks icl i xs V \<longleftrightarrow> ivs icl (placeholders i) = xs \<and> dom (placeholder_host_pointers i) = fst ` set xs \<and>
     V = views_of xs (placeholder_host_pointers i)"

lemma win_inv_tracks:
  "win_inv icl ph vw i w \<longleftrightarrow> (\<exists>xs. wf_ivs xs (wi_virtual_size i) \<and> tracks icl i xs (vw w) \<and> ph w = gaps 0 xs (wi_virtual_size i))"
  by (auto simp: win_inv_def tracks_def)

lemma Track_tracks:
  assumes "interval_set_laws icl" and "tracks icl i (as @ bs) V" and "wf_ivs (as @ (a, a + n) # bs) hi"
  shows "tracks icl (TrackPlaceholder icl i a h n) (as @ (a, a + n) # bs) (insert ((a, a + n), h) V)"
proof -
  have st: "\<And>y. y \<in> set (as @ bs) \<Longrightarrow> fst y \<noteq> a" using wf_starts_ne [OF assms(3)] by simp
  then have fa: "placeholder_host_pointers i a = None"
    using assms(2) unfolding tracks_def by (metis (no_types, lifting) domIff imageE)
  have "views_of (as @ bs) ((placeholder_host_pointers i)(a \<mapsto> h)) = views_of (as @ bs) (placeholder_host_pointers i)"
    using st by (intro views_of_upd) simp
  then show ?thesis using assms(2) insert_between [OF assms(1) _ assms(3)]
    by (auto simp: tracks_def Track_fields(1) Track_fields(2) [OF fa] views_of_append views_of_Cons)
qed

lemma Untrack_tracks:
  assumes "interval_set_laws icl" and "tracks icl i (as @ x # bs) V" and "wf_ivs (as @ x # bs) hi"
  shows "\<exists>h W. placeholder_host_pointers i (fst x) = Some h \<and> V = insert (x, h) W \<and> (\<forall>v\<in>W. fst (fst v) \<noteq> fst x) \<and>
           W = views_of (as @ bs) (placeholder_host_pointers i) \<and> tracks icl (UntrackPlaceholder icl i (length as)) (as @ bs) W"
proof -
  let ?f = "placeholder_host_pointers i"
  have st: "\<And>y. y \<in> set (as @ bs) \<Longrightarrow> fst y \<noteq> fst x" using wf_starts_ne [OF assms(3)] by simp
  have "fst x \<in> dom ?f" using assms(2) by (auto simp: tracks_def)
  then obtain h where h: "?f (fst x) = Some h" by blast
  have e: "ivs icl (iv_erase icl (placeholders i) (length as)) = as @ bs"
    using interval_set_lawsD(6) [OF assms(1), of "length as" "placeholders i"] assms(2) by (simp add: tracks_def)
  have "views_of (as @ bs) (?f(fst x := None)) = views_of (as @ bs) ?f" using st by (intro views_of_upd) simp
  moreover have "fst ` set (as @ x # bs) - {fst x} = fst ` set (as @ bs)" using st by auto
  ultimately have "tracks icl (UntrackPlaceholder icl i (length as)) (as @ bs) (views_of (as @ bs) ?f)"
    using assms(2) e by (simp add: tracks_def UntrackPlaceholder_def)
  moreover have "V = insert (x, h) (views_of (as @ bs) ?f)" using assms(2) h by (auto simp: tracks_def views_of_append views_of_Cons)
  moreover have "\<forall>v\<in>views_of (as @ bs) ?f. fst (fst v) \<noteq> fst x" using st by (auto simp: views_of_def)
  ultimately show ?thesis using h by blast
qed

lemma Win_Map_effect:
  assumes laws: "placeholder_laws api (wi_virtual_base i) ph vw" and icl: "interval_set_laws icl"
    and inv: "wf_ivs xs (wi_virtual_size i)" "tracks icl i xs (vw w)" "ph w = gaps 0 xs (wi_virtual_size i)" and r: "a < a + n" "a + n \<le> wi_virtual_size i"
    and free: "\<forall>x\<in>set xs. \<not> overlaps x (a, a + n)"
  shows "\<exists>i' w1. Win_Map api icl i a h n w = (Inr i', w1) \<and> win_inv icl ph vw i' w1 \<and> same_range i' i \<and>
           vw w1 = insert ((a, a + n), h) (vw w)"
proof -
  let ?i = "TrackPlaceholder icl i a h n" and ?vs = "wi_virtual_size i"
  obtain as bs where xs: "xs = as @ bs" "\<forall>x\<in>set as. snd x \<le> a" "\<forall>x\<in>set bs. a + n \<le> fst x"
    using split_around [OF inv(1) r(1) free] by blast
  let ?xs = "as @ (a, a + n) # bs"
  have wf: "wf_ivs ?xs ?vs" using inv(1) xs r by (auto simp: wf_append wf_Cons)
  have ivs: "ivs icl (placeholders i) = as @ bs" using inv(2) xs(1) by (simp add: tracks_def)
  have 1: "leaves ph vw (if \<not> IsNiechePlaceholder icl i a n then Split api i a n else io_return ()) (ph w) (vw w)
      (insert (a, a + n) (gaps 0 ?xs ?vs)) (vw w)" using leaves_niche [OF laws icl ivs wf, of "vw w"] inv(3) xs(1) by simp
  have "(a, a + n) \<notin> gaps 0 ?xs ?vs"
  proof -
    note s = wf_outer [OF inv(1) [unfolded xs(1)] xs(2,3) less_imp_le [OF r(1)] r(2)]
    have "(a, a + n) \<notin> inner 0 as" "(a, a + n) \<notin> behind_first bs ?vs" "(a, a + n) \<notin> gap (end_of 0 as) a" "(a, a + n) \<notin> gap (a + n) (start_of bs ?vs)"
      using s r(1) by (auto simp: sides_def gap_def dest: leD) 
    then show ?thesis by (simp add: gaps_append gaps_start [of _ bs])
  qed
  then have "insert (a, a + n) (gaps 0 ?xs ?vs) - {(a, a + n)} = gaps 0 ?xs ?vs" by simp
  then have 2: "leaves ph vw (MapView api ?i a h n) (insert (a, a + n) (gaps 0 ?xs ?vs)) (vw w) (gaps 0 ?xs ?vs)
      (insert ((a, a + n), h) (vw w))"
    using leaves_MapView [of api ?i ph vw a "a + n" "insert (a, a + n) (gaps 0 ?xs ?vs)" h "vw w"] laws by (simp add: Track_fields)
  obtain w1 where w1: "io_bind (if \<not> IsNiechePlaceholder icl i a n then Split api i a n else io_return ()) (\<lambda>_. MapView api ?i a h n) w = (Inr (), w1)"
    "ph w1 = gaps 0 ?xs ?vs" "vw w1 = insert ((a, a + n), h) (vw w)" using leavesD [OF leaves_bind [OF 1 2]] by blast
  have "iv_find icl (placeholders i) (a, a + n) = None"
    using interval_set_lawsD(2) [OF icl inv(1) [unfolded xs(1), folded ivs] r(1)] free unfolding xs(1) ivs
    by (metis not_None_eq nth_mem)
  then have "Win_Map api icl i a h n w = (Inr ?i, w1)"
    using w1(1) by (auto simp: Win_Map_def Let_def io_bind_def io_ASSERT_def io_return_def split: prod.splits sum.splits if_splits)
  moreover have "tracks icl ?i ?xs (vw w1)" using Track_tracks [OF icl inv(2) [unfolded xs(1)] wf, of h] w1(3) by simp
  then have "win_inv icl ph vw ?i w1" using wf w1(2) unfolding win_inv_tracks Track_fields by blast
  ultimately show ?thesis using w1 by (auto simp: Track_fields same_range_def)
qed

section \<open>Unmapping\<close>

text \<open>What is left of an interval of which the part from \<open>ub\<close> to \<open>ue\<close> is unmapped.\<close>

definition left_part :: "size_t \<Rightarrow> size_t \<Rightarrow> interval list" where
  "left_part pb ub = (if pb < ub then [(pb, ub)] else [])"

lemma gaps_parts:
  assumes "c \<le> pb" and "pb \<le> ub" and "ub < ue" and "ue \<le> pe" and "pe \<le> start_of bs hi" and "c = end_of 0 as"
  shows "gaps 0 (as @ left_part pb ub @ left_part ue pe @ bs) hi =
    inner 0 as \<union> (if pb < ub then gap c pb else {}) \<union> {(if pb < ub then ub else c, if ue < pe then ue else start_of bs hi)} \<union>
      (if ue < pe then gap pe (start_of bs hi) else {}) \<union> behind_first bs hi"
proof -
  have "c < ue" "ub < start_of bs hi" "c < start_of bs hi" using assms by order+
  then show ?thesis using assms by (auto simp: gaps_append gaps_start [of _ bs] left_part_def gap_def)
qed

lemma wf_parts:
  assumes "wf_ivs (as @ (pb, pe) # bs) hi" and "pb \<le> ub" and "ub < ue" and "ue \<le> pe"
  shows "wf_ivs (as @ left_part pb ub @ left_part ue pe @ bs) hi" and "wf_ivs (as @ left_part pb ub @ bs) hi"
proof -
  have w: "wf_ivs as hi" "wf_ivs bs hi" "pe \<le> hi" "\<forall>x\<in>set as. snd x \<le> pb" "\<forall>x\<in>set bs. pe \<le> fst x" "\<forall>x\<in>set as. \<forall>y\<in>set bs. snd x \<le> fst y"
    using assms(1) by (auto simp: wf_append wf_Cons)
  have "ub \<le> hi" "\<forall>x\<in>set bs. ub \<le> fst x" "\<forall>x\<in>set as. snd x \<le> ue" using w(3-5) assms(2-4) by (auto intro: order.trans less_imp_le)
  moreover have "wf_ivs [] hi" by (simp add: wf_ivs_def)
  ultimately show "wf_ivs (as @ left_part pb ub @ left_part ue pe @ bs) hi" "wf_ivs (as @ left_part pb ub @ bs) hi"
    using w assms(2-4) by (auto simp: wf_append wf_Cons left_part_def)
qed

lemma leaves_unmap_parts:
  assumes laws: "placeholder_laws api (wi_virtual_base i) ph vw" and wf: "wf_ivs (as @ (pb, pe) # bs) (wi_virtual_size i)"
    and o: "pb \<le> ub" "ub < ue" "ue \<le> pe" and V: "\<forall>x\<in>V. fst (fst x) \<noteq> pb"
  shows "leaves ph vw (io_bind (remap_parts api i (pb, pe) (ub, ue) h)
      (\<lambda>_. coalesce_parts api i (as @ (pb, pe) # bs) (length as) (ub, ue)))
    (gaps 0 (as @ (pb, pe) # bs) (wi_virtual_size i)) (insert ((pb, pe), h) V)
    (gaps 0 (as @ left_part pb ub @ left_part ue pe @ bs) (wi_virtual_size i))
    (V \<union> (if pb < ub then {((pb, ub), h)} else {}) \<union> (if ue < pe then {((ue, pe), h + ue - pb)} else {}))"
proof -
  let ?vs = "wi_virtual_size i" and ?A = "inner 0 as" and ?c = "end_of 0 as"
  let ?n = "start_of bs ?vs" and ?B = "behind_first bs ?vs"
  have w: "wf_ivs (as @ bs) ?vs" "\<forall>x\<in>set as. snd x \<le> pb" "\<forall>x\<in>set bs. pe \<le> fst x" "pb \<le> pe" "pe \<le> ?vs"
    using wf by (auto simp: wf_append wf_Cons)
  note s = wf_outer [OF w]
  have sd: "sides (?A \<union> gap ?c pb) pb pe (gap pe ?n \<union> ?B)"
    using sides_Un [OF sides_mono [OF s(1,2,3)] sides_gap [of pb pb pe pe ?c ?n, OF order.refl order.refl]]
    by (simp add: Un_commute [of ?B])
  have P: "gaps 0 (as @ (pb, pe) # bs) ?vs = ?A \<union> gap ?c pb \<union> (gap pe ?n \<union> ?B)"
    by (simp add: gaps_append gaps_start [of _ bs] Un_assoc)
  note 1 = leaves_remap_parts [OF laws sd o V, of h, folded P]
  have 2: "?A \<union> gap ?c pb \<union> {(ub, ue)} \<union> (gap pe ?n \<union> ?B) = ?A \<union> gap ?c pb \<union> {(ub, ue)} \<union> gap pe ?n \<union> ?B"
    by (simp add: Un_assoc)
  show ?thesis unfolding gaps_parts [OF s(2) o s(3) refl]
    by (rule leaves_bind [OF 1 [unfolded 2] leaves_coalesce_parts [OF laws refl refl refl s(1,2) o s(3)]])
qed

lemma Track_left_part:
  assumes "interval_set_laws icl" and "tracks icl i (as @ bs) V" and "wf_ivs (as @ left_part a e @ bs) hi"
  shows "tracks icl (if a < e then TrackPlaceholder icl i a h (e - a) else i) (as @ left_part a e @ bs)
    (V \<union> (if a < e then {((a, e), h)} else {}))"
  using assms Track_tracks [OF assms(1,2), of a "e - a" hi h] by (cases "a < e") (simp_all add: left_part_def)

definition overlapping :: "interval \<Rightarrow> interval list \<Rightarrow> nat" where
  "overlapping k xs = length (filter (\<lambda>x. overlaps x k) xs)"

lemma overlapping_parts:
  assumes "overlaps (pb, pe) (a, e)"
  shows "overlapping (a, e) (as @ (pb, pe) # bs) = Suc (overlapping (a, e) (as @ left_part pb (max a pb) @ left_part (min e pe) pe @ bs))"
  using assms by (auto simp: overlapping_def overlaps_def left_part_def max_def min_def)

lemma sees_single: "sees {((l, u), h)} x = (if l \<le> x \<and> x < u then {h + (x - l)} else {})" "sees {} x = {}"
  by (auto simp: sees_def)

lemma sees_parts:
  assumes "\<not> (a \<le> x \<and> x < e)" and "ub = max a pb" and "ue = min e pe" and "ub < ue"
  shows "sees (V \<union> (if pb < ub then {((pb, ub), h)} else {}) \<union> (if ue < pe then {((ue, pe), h + ue - pb)} else {})) x =
    sees (insert ((pb, pe), h) V) x"
proof -
  have b: "ub \<le> pe" "pb \<le> ue" "ue \<le> pe" "pb \<le> ub" using assms(2-4) by (auto simp: max_def min_def split: if_splits)
  have "x < ub \<or> ue \<le> x \<or> \<not> (pb \<le> x \<and> x < pe)" using assms(1-3) by (auto simp: max_def min_def)
  then consider "pb \<le> x" "x < ub" | "ue \<le> x" "x < pe" | "\<not> (pb \<le> x \<and> x < pe)" using b by fastforce
  then show ?thesis
  proof cases
    case 1
    then have "x < pe" "pb < ub" "\<not> ue \<le> x" using b assms(4) by order+
    then show ?thesis using 1 by (simp add: sees_Un sees_single sees_insert)
  next
    case 2
    then have "pb \<le> x" "ue < pe" "\<not> x < ub" using b assms(4) by order+
    then show ?thesis using 2 by (simp add: sees_Un sees_single sees_insert)
  next
    case 3
    then have "\<not> (pb \<le> x \<and> x < ub)" "\<not> (ue \<le> x \<and> x < pe)" using b by (auto dest: order.strict_trans2 order.trans)
    then show ?thesis using 3 by (auto simp: sees_Un sees_single sees_insert)
  qed
qed

lemma io_bind_assoc: "io_bind (io_bind m (\<lambda>_. n)) k = io_bind m (\<lambda>_. io_bind n k)"
  by (rule ext) (auto simp: io_bind_def split: prod.splits sum.splits)

lemma UnmapOne_effect:
  assumes laws: "placeholder_laws api (wi_virtual_base i) ph vw" and icl: "interval_set_laws icl"
    and inv: "wf_ivs xs (wi_virtual_size i)" "tracks icl i xs (vw w)" "ph w = gaps 0 xs (wi_virtual_size i)"
    and r: "a < a + n" and f: "iv_find icl (placeholders i) (a, a + n) = Some it"
  shows "\<exists>i' w1 ys. UnmapOnePlaceholder api icl i a n w = (Inr (True, i'), w1) \<and> same_range i' i \<and>
     wf_ivs ys (wi_virtual_size i) \<and> tracks icl i' ys (vw w1) \<and> ph w1 = gaps 0 ys (wi_virtual_size i) \<and>
     overlapping (a, a + n) xs = Suc (overlapping (a, a + n) ys) \<and>
     (\<forall>x. \<not> (a \<le> x \<and> x < a + n) \<longrightarrow> sees (vw w1) x = sees (vw w) x)"
proof -
  have ivs: "ivs icl (placeholders i) = xs" using inv(2) by (simp add: tracks_def)
  have it: "it < length xs" "overlaps (xs ! it) (a, a + n)"
    using interval_set_lawsD(2) [OF icl inv(1) [folded ivs] r f] ivs by simp_all
  obtain pb pe where x: "xs ! it = (pb, pe)" by fastforce
  define as bs where "as = take it xs" and "bs = drop (Suc it) xs"
  have xs: "xs = as @ (pb, pe) # bs" "length as = it" using id_take_nth_drop [OF it(1)] it(1) x by (simp_all add: as_def bs_def)
  define ub ue where u: "ub = max a pb" "ue = min (a + n) pe"
  have "pb < pe" using inv(1) xs(1) by (simp add: wf_append wf_Cons)
  then have o: "pb \<le> ub" "ub < ue" "ue \<le> pe" "ub < pe" "pb < ue" using it(2) r x by (auto simp: u overlaps_def)
  note wf = inv(1) [unfolded xs(1)]
  obtain h V where V: "placeholder_host_pointers i pb = Some h" "vw w = insert ((pb, pe), h) V" "\<forall>v\<in>V. fst (fst v) \<noteq> pb"
    "tracks icl (UntrackPlaceholder icl i it) (as @ bs) V"
    using Untrack_tracks [OF icl inv(2) [unfolded xs(1)] wf] xs(2) by auto
  let ?ys = "as @ left_part pb ub @ left_part ue pe @ bs"
  obtain w1 where w1: "io_bind (remap_parts api i (pb, pe) (ub, ue) h) (\<lambda>_. coalesce_parts api i xs it (ub, ue)) w = (Inr (), w1)"
    "ph w1 = gaps 0 ?ys (wi_virtual_size i)"
    "vw w1 = V \<union> (if pb < ub then {((pb, ub), h)} else {}) \<union> (if ue < pe then {((ue, pe), h + ue - pb)} else {})"
    using leavesD [of ph vw _ w] leaves_unmap_parts [OF laws wf o(1-3) V(3), of h] inv(3) V(2) xs by metis
  define i1 where "i1 = UntrackPlaceholder icl i it"
  define i2 where "i2 = (if pb < ub then TrackPlaceholder icl i1 pb h (ub - pb) else i1)"
  define i3 where "i3 = (if ue < pe then TrackPlaceholder icl i2 ue (h + ue - pb) (pe - ue) else i2)"
  have "UnmapOnePlaceholder api icl i a n =
    io_bind (remap_parts api i (pb, pe) (ub, ue) h) (\<lambda>_. io_bind (coalesce_parts api i xs it (ub, ue)) (\<lambda>_. io_return (True, i3)))"
    using o it(2) x \<open>pb < pe\<close>
    by (simp add: UnmapOnePlaceholder_def f ivs V(1) u [symmetric] i1_def i2_def i3_def Let_def io_ASSERT_def overlaps_def)
  then have "UnmapOnePlaceholder api icl i a n w = (Inr (True, i3), w1)"
    using w1(1) by (simp add: io_bind_assoc [symmetric] io_bind_Inr)
  moreover have "same_range i3 i" by (simp add: i3_def i2_def i1_def Track_fields UntrackPlaceholder_def same_range_def)
  moreover have "tracks icl i2 (as @ left_part pb ub @ bs) (V \<union> (if pb < ub then {((pb, ub), h)} else {}))"
    unfolding i2_def i1_def by (rule Track_left_part [OF icl V(4) wf_parts(2) [OF wf o(1-3)]])
  then have "tracks icl i3 ?ys (vw w1)" unfolding i3_def w1(3)
    using Track_left_part [OF icl, of i2 "as @ left_part pb ub" bs] wf_parts(1) [OF wf o(1-3)] by simp
  moreover have "overlapping (a, a + n) xs = Suc (overlapping (a, a + n) ?ys)"
    using overlapping_parts [of pb pe a "a + n" as bs] it(2) x xs(1) u by simp
  moreover have "\<forall>x. \<not> (a \<le> x \<and> x < a + n) \<longrightarrow> sees (vw w1) x = sees (vw w) x"
    using sees_parts [OF _ u o(2)] w1(3) V(2) by simp
  ultimately show ?thesis using wf_parts(1) [OF wf o(1-3)] w1(2) by blast
qed

lemma overlapping_none: "overlapping k xs = 0 \<longleftrightarrow> (\<forall>x\<in>set xs. \<not> overlaps x k)"
  by (simp add: overlapping_def filter_empty_conv)

lemma tracks_sees_empty:
  assumes "tracks icl i xs V" and "\<forall>y\<in>set xs. \<not> overlaps y (a, e)" and "a \<le> x" and "x < e"
  shows "sees V x = {}"
  using assms unfolding tracks_def by (auto simp: sees_views_empty overlaps_def)

lemma unmap_loop_effect:
  assumes icl: "interval_set_laws icl" and r: "a < a + n"
  shows "placeholder_laws api (wi_virtual_base i) ph vw \<Longrightarrow> wf_ivs xs (wi_virtual_size i) \<Longrightarrow> tracks icl i xs (vw w) \<Longrightarrow>
    ph w = gaps 0 xs (wi_virtual_size i) \<Longrightarrow> overlapping (a, a + n) xs < k \<Longrightarrow>
    \<exists>i' w1. unmap_loop k api icl i a n w = (Inr i', w1) \<and> win_inv icl ph vw i' w1 \<and> same_range i' i \<and>
      (\<forall>x. sees (vw w1) x = (if a \<le> x \<and> x < a + n then {} else sees (vw w) x))"
proof (induction k arbitrary: i xs w)
  case (Suc k)
  have ivs: "ivs icl (placeholders i) = xs" using Suc.prems(3) by (simp add: tracks_def)
  show ?case
  proof (cases "iv_find icl (placeholders i) (a, a + n)")
    case None
    have no: "\<forall>y\<in>set xs. \<not> overlaps y (a, a + n)"
      using interval_set_lawsD(3) [OF icl Suc.prems(2) [folded ivs] r None] ivs by blast
    have "unmap_loop (Suc k) api icl i a n w = (Inr i, w)" using None by (simp add: UnmapOnePlaceholder_def)
    moreover have "win_inv icl ph vw i w" using Suc.prems(2-4) unfolding win_inv_tracks by blast
    moreover have "sees (vw w) x = (if a \<le> x \<and> x < a + n then {} else sees (vw w) x)" for x
      using tracks_sees_empty [OF Suc.prems(3) no] by simp
    ultimately show ?thesis by (auto simp: same_range_def)
  next
    case (Some it)
    obtain i' w' ys where s: "UnmapOnePlaceholder api icl i a n w = (Inr (True, i'), w')" "same_range i' i"
      "wf_ivs ys (wi_virtual_size i)" "tracks icl i' ys (vw w')" "ph w' = gaps 0 ys (wi_virtual_size i)"
      "overlapping (a, a + n) xs = Suc (overlapping (a, a + n) ys)"
      "\<forall>x. \<not> (a \<le> x \<and> x < a + n) \<longrightarrow> sees (vw w') x = sees (vw w) x"
      using UnmapOne_effect [OF Suc.prems(1) icl Suc.prems(2-4) r Some] by blast
    have "unmap_loop (Suc k) api icl i a n w = unmap_loop k api icl i' a n w'" using s(1) by (simp add: io_bind_Inr)
    then show ?thesis using Suc.IH [of i' ys w'] Suc.prems(1,5) s(2-7) by (auto simp: same_range_def)
  qed
qed simp

lemma Win_Unmap_effect:
  assumes "placeholder_laws api (wi_virtual_base i) ph vw" and "interval_set_laws icl" and "win_inv icl ph vw i w" and "a < a + n"
  shows "\<exists>i' w1. Win_Unmap api icl i a n w = (Inr i', w1) \<and> win_inv icl ph vw i' w1 \<and> same_range i' i \<and>
      (\<forall>x. sees (vw w1) x = (if a \<le> x \<and> x < a + n then {} else sees (vw w) x))"
proof -
  obtain xs where xs: "wf_ivs xs (wi_virtual_size i)" "tracks icl i xs (vw w)" "ph w = gaps 0 xs (wi_virtual_size i)"
    using assms(3) unfolding win_inv_tracks by blast
  have "overlapping (a, a + n) xs < Suc (length (ivs icl (placeholders i)))"
    using xs(2) by (simp add: tracks_def overlapping_def less_Suc_eq_le)
  then show ?thesis unfolding Win_Unmap_def by (rule unmap_loop_effect [OF assms(2,4,1) xs])
qed

section \<open>Sequences of calls\<close>

datatype win_op = WMap size_t size_t size_t | WUnmap size_t size_t

fun win_step :: "'w winapi \<Rightarrow> 's interval_set \<Rightarrow> win_op \<Rightarrow> 's Win_Impl \<Rightarrow> ('w, 's Win_Impl) io" where
  "win_step api icl (WMap a h n) i = Win_Map api icl i a h n"
| "win_step api icl (WUnmap a n) i = Win_Unmap api icl i a n"

fun run_win :: "'w winapi \<Rightarrow> 's interval_set \<Rightarrow> win_op list \<Rightarrow> 's Win_Impl \<Rightarrow> ('w, 's Win_Impl) io" where
  "run_win api icl [] i = io_return i"
| "run_win api icl (c # cs) i = io_bind (win_step api icl c i) (\<lambda>i1. run_win api icl cs i1)"

text \<open>The specification: a partial map from guest addresses to offsets in the file.\<close>

fun spec_win :: "win_op \<Rightarrow> (size_t \<rightharpoonup> size_t) \<Rightarrow> (size_t \<rightharpoonup> size_t)" where
  "spec_win (WMap a h n) m = (\<lambda>x. if a \<le> x \<and> x < a + n then Some (h + (x - a)) else m x)"
| "spec_win (WUnmap a n) m = (\<lambda>x. if a \<le> x \<and> x < a + n then None else m x)"

fun win_ok :: "size_t \<Rightarrow> (size_t \<rightharpoonup> size_t) \<Rightarrow> win_op \<Rightarrow> bool" where
  "win_ok vs m (WMap a h n) \<longleftrightarrow> a < a + n \<and> a + n \<le> vs \<and> (\<forall>x. a \<le> x \<and> x < a + n \<longrightarrow> m x = None)"
| "win_ok vs m (WUnmap a n) \<longleftrightarrow> a < a + n"

fun wins_ok :: "size_t \<Rightarrow> (size_t \<rightharpoonup> size_t) \<Rightarrow> win_op list \<Rightarrow> bool" where
  "wins_ok vs m [] \<longleftrightarrow> True"
| "wins_ok vs m (c # cs) \<longleftrightarrow> win_ok vs m c \<and> wins_ok vs (spec_win c m) cs"

definition displays :: "('w \<Rightarrow> (interval \<times> size_t) set) \<Rightarrow> 'w \<Rightarrow> (size_t \<rightharpoonup> size_t) \<Rightarrow> bool" where
  "displays vw w m \<longleftrightarrow> (\<forall>x. sees (vw w) x = set_option (m x))"

lemma displays_free:
  assumes "wf_ivs xs hi" and "tracks icl i xs (vw w)" and "displays vw w m" and "a < e" and "\<forall>x. a \<le> x \<and> x < e \<longrightarrow> m x = None"
  shows "\<forall>y\<in>set xs. \<not> overlaps y (a, e)"
proof (intro ballI notI)
  fix y assume y: "y \<in> set xs" "overlaps y (a, e)"
  let ?x = "max (fst y) a"
  have "fst y \<le> ?x" "?x < snd y" "a \<le> ?x" "?x < e" using y wf_mem [OF assms(1) y(1)] assms(4) by (auto simp: overlaps_def)
  moreover from this have "sees (vw w) ?x = {}" using assms(3,5) by (simp add: displays_def)
  ultimately show False using y(1) assms(2) unfolding tracks_def by (auto simp: sees_views_empty)
qed

lemma win_step_effect:
  assumes laws: "placeholder_laws api (wi_virtual_base i) ph vw" "interval_set_laws icl" and inv: "win_inv icl ph vw i w"
    and m: "displays vw w m" and ok: "win_ok (wi_virtual_size i) m c"
  shows "\<exists>i' w1. win_step api icl c i w = (Inr i', w1) \<and> win_inv icl ph vw i' w1 \<and> same_range i' i \<and> displays vw w1 (spec_win c m)"
proof (cases c)
  case (WMap a h n)
  obtain xs where xs: "wf_ivs xs (wi_virtual_size i)" "tracks icl i xs (vw w)" "ph w = gaps 0 xs (wi_virtual_size i)"
    using inv unfolding win_inv_tracks by blast
  have r: "a < a + n" "a + n \<le> wi_virtual_size i" "\<forall>x. a \<le> x \<and> x < a + n \<longrightarrow> m x = None" using ok WMap by simp_all
  obtain i' w1 where e: "Win_Map api icl i a h n w = (Inr i', w1)" "win_inv icl ph vw i' w1" "same_range i' i"
    "vw w1 = insert ((a, a + n), h) (vw w)"
    using Win_Map_effect [OF laws xs r(1,2) displays_free [OF xs(1,2) m r(1,3)]] by blast
  have "displays vw w1 (spec_win c m)" using m r(3) by (auto simp: displays_def e(4) sees_insert WMap)
  then show ?thesis using e WMap by auto
next
  case (WUnmap a n)
  have r: "a < a + n" using ok WUnmap by simp
  obtain i' w1 where e: "Win_Unmap api icl i a n w = (Inr i', w1)" "win_inv icl ph vw i' w1" "same_range i' i"
    "\<forall>x. sees (vw w1) x = (if a \<le> x \<and> x < a + n then {} else sees (vw w) x)"
    using Win_Unmap_effect [OF laws inv r] by blast
  have "displays vw w1 (spec_win c m)" using m by (auto simp: displays_def e(4) WUnmap)
  then show ?thesis using e WUnmap by auto
qed

lemma run_win_effect:
  assumes "interval_set_laws icl"
  shows "placeholder_laws api (wi_virtual_base i) ph vw \<Longrightarrow> win_inv icl ph vw i w \<Longrightarrow> displays vw w m \<Longrightarrow> wins_ok (wi_virtual_size i) m cs \<Longrightarrow>
    \<exists>i' w1. run_win api icl cs i w = (Inr i', w1) \<and> win_inv icl ph vw i' w1 \<and> same_range i' i \<and> displays vw w1 (fold spec_win cs m)"
proof (induction cs arbitrary: i w m)
  case (Cons c cs)
  obtain i1 w1 where s: "win_step api icl c i w = (Inr i1, w1)" "win_inv icl ph vw i1 w1" "same_range i1 i" "displays vw w1 (spec_win c m)"
    using win_step_effect [OF Cons.prems(1) assms Cons.prems(2,3), of c] Cons.prems(4) unfolding wins_ok.simps by blast
  have "run_win api icl (c # cs) i w = run_win api icl cs i1 w1" using s(1) by (simp add: io_bind_Inr)
  then show ?case using Cons.IH [OF _ s(2,4)] Cons.prems(1,4) s(3) by (auto simp: same_range_def)
qed (auto simp: same_range_def)

lemma Win_Impl_new_state:
  assumes "Win_Impl_new api icl bs vs w0 = (Inr i, w)"
  shows "wi_virtual_size i = vs" and "placeholders i = iv_empty icl" and "placeholder_host_pointers i = Map.empty"
  using assms
  by (auto simp: Win_Impl_new_def GetFuncAddress_def Let_def io_bind_def io_call_def split: if_splits prod.splits sum.splits)

section \<open>Properties\<close>

text \<open>
  C40: the memory of the guest on Windows.  After the constructor every sequence of calls of \<open>Map\<close> on free
  ranges and of \<open>Unmap\<close> on any ranges returns: no assertion fails and the loop of \<open>Unmap\<close> ends.
  A guest address then shows exactly the byte of the file that the calls gave it, also where \<open>Unmap\<close>
  took out a part of a mapping; every tracked interval is one view at the offset kept for it; and the
  placeholders are the maximal gaps, as a later \<open>Map\<close> into them needs.
\<close>

theorem Windows_memory_refines_page_map:
  assumes "placeholder_laws api (wi_virtual_base i) ph vw" and "interval_set_laws icl"
    and "Win_Impl_new api icl bs vs w0 = (Inr i, w)" and "ph w = {(0, vs)}" and "vw w = {}" and "0 < vs"
    and "wins_ok vs Map.empty cs"
  shows "\<exists>i' w1. run_win api icl cs i w = (Inr i', w1) \<and>
    (\<forall>x. sees (vw w1) x = set_option (fold spec_win cs Map.empty x)) \<and>
    vw w1 = views_of (ivs icl (placeholders i')) (placeholder_host_pointers i') \<and>
    ph w1 = gaps 0 (ivs icl (placeholders i')) vs"
proof -
  note n = Win_Impl_new_state [OF assms(3)]
  have "win_inv icl ph vw i w"
    using assms(4-6) interval_set_lawsD(1) [OF assms(2)] n by (simp add: win_inv_def wf_ivs_def views_of_def gap_def)
  moreover have "displays vw w Map.empty" using assms(5) by (simp add: displays_def sees_def)
  ultimately obtain i' w1 where "run_win api icl cs i w = (Inr i', w1)" "win_inv icl ph vw i' w1" "same_range i' i"
    "displays vw w1 (fold spec_win cs Map.empty)"
    using run_win_effect [OF assms(2,1)] assms(7) n(1) by blast
  then show ?thesis using n(1) by (auto simp: win_inv_def same_range_def displays_def)
qed

text \<open>An interval set that is a sorted list, and an operating system that keeps the two sets.\<close>

definition example_icl :: "interval list interval_set" where
  "example_icl = \<lparr>ivs = (\<lambda>s. s), iv_empty = [],
     iv_find = (\<lambda>s k. let n = length (takeWhile (\<lambda>x. \<not> overlaps x k) s) in if n < length s then Some n else None),
     iv_upper_bound = (\<lambda>s k. length (takeWhile (\<lambda>x. fst x < snd k) s)),
     iv_equal_range = (\<lambda>s k. (length (takeWhile (\<lambda>x. snd x \<le> fst k) s), length (takeWhile (\<lambda>x. fst x < snd k) s))),
     iv_insert = (\<lambda>s k. takeWhile (\<lambda>x. fst x < snd k) s @ k # dropWhile (\<lambda>x. fst x < snd k) s),
     iv_erase = (\<lambda>s n. take n s @ drop (Suc n) s)\<rparr>"

lemma takeWhile_around:
  assumes "wf_ivs (as @ bs) hi" and "a < e" and "\<forall>x\<in>set as. snd x \<le> a" and "\<forall>x\<in>set bs. e \<le> fst x"
  shows "takeWhile (\<lambda>x. fst x < e) (as @ bs) = as" and "dropWhile (\<lambda>x. fst x < e) (as @ bs) = bs"
proof -
  have "fst x < e" if "x \<in> set as" for x
  proof -
    have "fst x < snd x" "snd x \<le> a" using that assms(1,3) wf_mem by (auto simp: wf_append)
    then show ?thesis using assms(2) by order
  qed
  then show "takeWhile (\<lambda>x. fst x < e) (as @ bs) = as" "dropWhile (\<lambda>x. fst x < e) (as @ bs) = bs"
    using assms(4) by (cases bs; auto simp: takeWhile_append2 dropWhile_append2 not_less)+
qed

lemma example_icl_laws: "interval_set_laws example_icl"
proof -
  have find: "case iv_find example_icl s k of Some n \<Rightarrow> n < length (ivs example_icl s) \<and> overlaps (ivs example_icl s ! n) k
    | None \<Rightarrow> (\<forall>x\<in>set (ivs example_icl s). \<not> overlaps x k)" for s k
  proof (cases "length (takeWhile (\<lambda>x. \<not> overlaps x k) s) < length s")
    case True
    then show ?thesis using nth_length_takeWhile [OF True] by (simp add: example_icl_def Let_def)
  next
    case False
    then have "takeWhile (\<lambda>x. \<not> overlaps x k) s = s"
      by (metis length_takeWhile_le order.not_eq_order_implies_strict takeWhile_eq_take take_all order.refl)
    then show ?thesis using False by (simp add: example_icl_def Let_def takeWhile_eq_all_conv)
  qed
  have ins: "wf_ivs (iv_insert example_icl s k) (- 1) \<and> set (iv_insert example_icl s k) = insert k (set s)"
    if w: "wf_ivs s (- 1)" "fst k < snd k" "\<forall>x\<in>set s. \<not> overlaps x k" for s k
  proof -
    obtain as bs where s: "s = as @ bs" "\<forall>x\<in>set as. snd x \<le> fst k" "\<forall>x\<in>set bs. snd k \<le> fst x"
      using split_around [OF w(1,2)] w(3) by auto
    then have "iv_insert example_icl s k = as @ k # bs"
      using takeWhile_around [OF w(1) [unfolded s(1)] w(2) s(2,3)] by (simp add: example_icl_def)
    then show ?thesis using w(1,2) s by (auto simp: wf_append wf_Cons)
  qed
  have "ivs example_icl s = s" "iv_empty example_icl = []" "iv_erase example_icl s n = take n s @ drop (Suc n) s"
    "iv_upper_bound example_icl s k = length (takeWhile (\<lambda>x. fst x < snd k) s)" for s n k
    by (simp_all add: example_icl_def)
  then show ?thesis using find ins unfolding interval_set_laws_def by simp
qed

type_synonym example_os = "interval set \<times> (interval \<times> size_t) set"

definition example_win :: "example_os winapi" where
  "example_win = \<lparr>kernelbase_open = True, kernelbase_symbol = (\<lambda>_. True), CreateFileMapping2 = (\<lambda>_ w. (1, w)),
     VirtualAlloc2_placeholder = (\<lambda>n w. (if n = 4096 then 65536 else 131072, w)),
     MapViewOfFile3 = (\<lambda>p h n (P, V). (p, if (p - 131072, p - 131072 + n) \<in> P
        then (P - {(p - 131072, p - 131072 + n)}, insert ((p - 131072, p - 131072 + n), h) V) else (P, V))),
     UnmapViewOfFile2 = (\<lambda>p (P, V). (True, (P \<union> fst ` {x \<in> V. fst (fst x) = p - 131072}, {x \<in> V. fst (fst x) \<noteq> p - 131072}))),
     VirtualFreeEx_split = (\<lambda>p n (P, V). let a = p - 131072 in
        (True, ({x \<in> P. \<not> within a (a + n) x} \<union> \<Union> (pieces a (a + n) ` {x \<in> P. within a (a + n) x}), V))),
     VirtualFreeEx_coalesce = (\<lambda>p n (P, V). let a = p - 131072 in
        (True, ({x \<in> P. \<not> (a \<le> fst x \<and> snd x \<le> a + n)} \<union> {(a, a + n)}, V))),
     VirtualFree_release = (\<lambda>_ w. (True, w)), VirtualProtect = (\<lambda>_ _ _ w. (True, w)), CloseHandle = (\<lambda>_ w. (True, w))\<rparr>"

lemma example_win_laws: "placeholder_laws example_win 131072 fst snd"
  by (auto simp: placeholder_laws_def example_win_def split_beta Let_def)

theorem Windows_memory_refines_page_map_witness:
  "\<exists>i i' w1. Win_Impl_new example_win example_icl 4096 64 ({(0, 64)}, {}) = (Inr i, ({(0, 64)}, {})) \<and>
     run_win example_win example_icl [WMap 16 256 32, WUnmap 24 8] i ({(0, 64)}, {}) = (Inr i', w1) \<and>
     sees (snd w1) 20 = {260} \<and> sees (snd w1) 24 = {} \<and> sees (snd w1) 40 = {280}"
proof -
  obtain i where i: "Win_Impl_new example_win example_icl 4096 64 ({(0, 64)}, {}) = (Inr i, ({(0, 64)}, {}))" "wi_virtual_base i = 131072"
    by (simp add: Win_Impl_new_def GetFuncAddress_def example_win_def Let_def)
  have ok: "wins_ok 64 Map.empty [WMap 16 256 32, WUnmap 24 8]" by simp
  obtain i' w1 where "run_win example_win example_icl [WMap 16 256 32, WUnmap 24 8] i ({(0, 64)}, {}) = (Inr i', w1)"
    "\<forall>x. sees (snd w1) x = set_option (fold spec_win [WMap 16 256 32, WUnmap 24 8] Map.empty x)"
    using Windows_memory_refines_page_map [OF example_win_laws [folded i(2)] example_icl_laws i(1) _ _ _ ok] by auto
  then show ?thesis using i(1) by (intro exI [of _ i] exI [of _ i'] exI [of _ w1]) simp
qed

end
