(* ===== verification/Pass_Typing.thy ===== *)
theory Pass_Typing
  imports Local_Elimination
begin

text \<open>
  The elimination of local variable loads keeps the program well typed: \<open>Validate\<close> gives the same verdict on
  every instruction before and after the pass.  It depends on an instruction only through its operation
  and the types of its arguments (\<open>Validate_typing\<close>), and every step of the pass keeps these.
\<close>

definition typing_of :: "inst_heap \<Rightarrow> OpCode option list \<times> ArgType list option list" where
  "typing_of h = (ops_of h, map (map_option (map GetType)) (args_of h))"

section \<open>The verdict depends on the types only\<close>

lemma validate_loop_types:
  "map GetType as = map GetType bs \<Longrightarrow> validate_loop oob m as i k = validate_loop oob m bs i k"
proof (induction oob m as i k rule: validate_loop.induct)
  case (1 oob m as i k)
  have len: "length as = length bs" by (rule map_eq_imp_length_eq [OF 1(2)])
  have ty: "i < length as \<Longrightarrow> GetType (as ! i) = GetType (bs ! i)" using 1(2) len by (metis nth_map)
  show ?case
  proof (cases "i < max_args \<and> i < length as")
    case True
    then have r: "vec_at as i = Inr (as ! i)" "vec_at bs i = Inr (bs ! i)" using len by (simp_all add: vec_at_def)
    show ?thesis using True r ty 1(1) [OF _ refl 1(2)]
      by (subst (1 2) validate_loop.simps) (simp add: Let_def ASSERT_def)
  next
    case False
    then show ?thesis using len by (subst (1 2) validate_loop.simps) (auto simp: vec_at_def)
  qed
qed

lemma Validate_typing:
  assumes "typing_of h = typing_of h'"
  shows "Validate oob h p = Validate oob h' p"
proof -
  have o: "ops_of h = ops_of h'" and a: "map (map_option (map GetType)) (args_of h) = map (map_option (map GetType)) (args_of h')"
    using assms by (simp_all add: typing_of_def)
  have len: "length h = length h'" using arg_cong [OF o, of length] by simp
  show ?thesis
  proof (cases "p < length h \<and> h ! p \<noteq> None")
    case True
    then obtain i where i: "p < length h" "h ! p = Some i" by blast
    have "map_option op_code (h ! p) = map_option op_code (h' ! p)" "map_option (map GetType) (map_option arguments (h ! p)) =
        map_option (map GetType) (map_option arguments (h' ! p))"
      using arg_cong [OF o, of "\<lambda>xs. xs ! p"] arg_cong [OF a, of "\<lambda>xs. xs ! p"] i(1) len by simp_all
    then obtain j where j: "h' ! p = Some j" "op_code j = op_code i" "map GetType (arguments j) = map GetType (arguments i)"
      using i(2) by (cases "h' ! p") auto
    have l: "length (arguments j) = length (arguments i)" using j(3) by (rule map_eq_imp_length_eq)
    have t: "0 < length (arguments i) \<Longrightarrow> GetType (arguments j ! 0) = GetType (arguments i ! 0)" using j(3) l by (metis nth_map)
    have "IsLambda x \<longleftrightarrow> GetType x = ATLambda" for x by (cases x) (auto simp: IsLambda_def)
    then show ?thesis using i j len l t validate_loop_types [OF j(3)] by (auto simp: Validate_def inst_at_def vec_at_def)
  next
    case False
    moreover have "h' ! p = None" if "p < length h" "h ! p = None"
      using arg_cong [OF o, of "\<lambda>xs. xs ! p"] that len by simp
    ultimately show ?thesis using len by (auto simp: Validate_def inst_at_def)
  qed
qed

section \<open>The steps of the pass keep the types\<close>

lemma typing_of_eq: "ops_of h' = ops_of h \<Longrightarrow> args_of h' = args_of h \<Longrightarrow> typing_of h' = typing_of h"
  by (simp add: typing_of_def)

lemma put_arg_ops: "put_arg h this i a = Inr h' \<Longrightarrow> ops_of h' = ops_of h"
  by (auto simp: put_arg_def res_bind_Inr_iff ir_simps ops_of_update list_update_same_conv)

lemma DestroyArg_ops: "DestroyArg h this i = Inr h' \<Longrightarrow> ops_of h' = ops_of h"
  by (auto simp: DestroyArg_def split: if_splits dest!: UnUse_ops elim!: res_bind_InrE)

lemma SetArg_ops: "SetArg h this i a = Inr h' \<Longrightarrow> ops_of h' = ops_of h"
  by (auto simp: SetArg_def split: Arg.splits if_splits dest!: DestroyArg_ops put_arg_ops Use_ops elim!: res_bind_InrE)

lemma SetArg_typing:
  assumes "SetArg h this i a = Inr h'" and "ArgAt h this i = Inr b" and "GetType a = GetType b"
  shows "typing_of h' = typing_of h"
proof -
  obtain as where as: "this < length h" "args_of h ! this = Some as" "i < length as" "args_of h' = (args_of h)[this := Some (as[i := a])]"
    using SetArg_counts [OF assms(1)] by blast
  have "as ! i = b" using assms(2) as(1-3) by (auto simp: ArgAt_def ir_simps vec_at_def split: if_splits)
  then have "map GetType (as[i := a]) = map GetType as" using assms(3) as(3)
    by (intro nth_equalityI) (auto simp: nth_list_update)
  then have "map (map_option (map GetType)) (args_of h') = map (map_option (map GetType)) (args_of h)"
    unfolding as(4) using as(1,2) by (intro nth_equalityI) (auto simp: nth_list_update simp del: args_of_nth)
  then show ?thesis using SetArg_ops [OF assms(1)] by (simp add: typing_of_def)
qed

lemma redirect_uses_typing: "redirect_uses h us v = Inr h' \<Longrightarrow> typing_of h' = typing_of h"
proof (induction us arbitrary: h)
  case (Cons u us)
  let ?p = "use_inst u" and ?i = "unat (use_arg_idx u)"
  obtain a h1 where a: "ArgAt h ?p ?i = Inr a" and r: "redirect_uses h1 us v = Inr h'"
    and s: "(if IsValue a then SetArg h ?p ?i (ArgValue v)
             else if IsLambda a then SetArg h ?p ?i (ArgLambda (LambdaValue v)) else Inr h) = Inr h1"
    using Cons.prems unfolding redirect_uses.simps by (elim res_bind_InrE)
  have "typing_of h1 = typing_of h"
    using s SetArg_typing [OF _ a] by (auto simp: IsValue_def IsLambda_def split: if_splits)
  then show ?case using Cons.IH [OF r] by simp
qed simp

text \<open>What the pass keeps of a function.\<close>

definition same_code :: "HIRFunction \<Rightarrow> HIRFunction \<Rightarrow> bool" where
  "same_code f f' \<longleftrightarrow> typing_of (insts f') = typing_of (insts f) \<and> pool_blocks f' = pool_blocks f \<and> blocks f' = blocks f"

lemma eliminate_load_same: "eliminate_load f cur b p = Inr f' \<Longrightarrow> same_code f f'"
  by (auto simp: eliminate_load_def same_code_def DestroyHIRValue_def split: option.splits if_splits
      dest!: redirect_uses_typing elim!: res_bind_InrE)

lemma eliminate_insts_same: "eliminate_insts f cur b ps = Inr (f', cur') \<Longrightarrow> same_code f f'"
proof (induction ps arbitrary: f cur)
  case (Cons p ps)
  then show ?case
    by (auto split: if_splits elim!: res_bind_InrE dest!: Cons.IH eliminate_load_same) (auto simp: same_code_def)
qed (simp add: same_code_def)

lemma eliminate_blocks_same: "eliminate_blocks f cur bs = Inr f' \<Longrightarrow> same_code f f'"
proof (induction f cur bs rule: eliminate_blocks.induct)
  case (3 f cur b bs)
  from "3.prems" obtain hb f1 cur1 where r: "vec_at (pool_blocks f) b = Inr hb" "eliminate_insts f cur b (inst_list (block hb)) = Inr (f1, cur1)"
    "eliminate_blocks f1 cur1 bs = Inr f'" unfolding eliminate_blocks.simps by (elim res_bind_InrE) auto
  show ?case using eliminate_insts_same [OF r(2)] "3.IH" [OF r(3)] by (auto simp: same_code_def)
qed (simp_all add: same_code_def)

section \<open>Properties\<close>

text \<open>
  C41: type preservation.  When the elimination of local variable loads returns, the instructions of every
  block are the same as before in the same order, each with its operation, and \<open>Validate\<close> gives the same
  verdict on every instruction: a function that was well typed stays well typed.
\<close>

theorem LocalElimination_preserves_types:
  assumes "LocalElimination_Run f = Inr f'"
  shows "Validate oob (insts f') p = Validate oob (insts f) p \<and> ops_of (insts f') = ops_of (insts f) \<and>
    map (inst_list \<circ> block) (pool_blocks f') = map (inst_list \<circ> block) (pool_blocks f)"
proof -
  have s: "same_code f f'" using assms unfolding LocalElimination_Run_def by (rule eliminate_blocks_same)
  then have "typing_of (insts f') = typing_of (insts f)" by (simp add: same_code_def)
  from Validate_typing [OF this, of oob p] this s show ?thesis by (simp add: same_code_def typing_of_def)
qed


definition finished_example :: "HIRFunction result" where
  "finished_example = res_bind load_after_store EndFunction"

theorem LocalElimination_preserves_types_witness:
  "\<exists>f f'. finished_example = Inr f \<and> LocalElimination_Run f = Inr f' \<and> args_of (insts f') \<noteq> args_of (insts f) \<and>
     Validate (\<lambda>_ _. ATVoid) (insts f') 3 = Inr ()"
proof -
  have "case finished_example of Inl _ \<Rightarrow> False | Inr f \<Rightarrow> Validate (\<lambda>_ _. ATVoid) (insts f) 3 = Inr () \<and>
      (case LocalElimination_Run f of Inl _ \<Rightarrow> False | Inr f' \<Rightarrow> args_of (insts f') \<noteq> args_of (insts f))"
    by code_simp
  then obtain f f' where r: "finished_example = Inr f" "Validate (\<lambda>_ _. ATVoid) (insts f) 3 = Inr ()"
    "LocalElimination_Run f = Inr f'" "args_of (insts f') \<noteq> args_of (insts f)" by (auto split: sum.splits)
  then show ?thesis using LocalElimination_preserves_types [OF r(3), of "\<lambda>_ _. ATVoid" 3] by auto
qed

end
