(* ===== verification/Spec2Isabelle.thy ===== *)
theory Spec2Isabelle
  imports Translate_Table CFG_Dominance Kern_Libc_Strings Slab_Proofs Host_Memory_Proofs Code_Cache Pools File_IO
    Local_Elimination Bit_Fields Host_Memory_Windows_Proofs Pass_Typing
begin

text \<open>
  Verification library of SwiftHorizon.
\<close>

end
